(* ===== verification/Hidering_Prelude.thy ===== *)
theory Hidering_Prelude
  imports Main "HOL-Library.Word"
begin

unbundle bit_operations_syntax

section \<open>Shared vocabulary of the HIDERING development\<close>

text \<open>
  This theory holds what the component theories share: the machine-integer types of the C++
  sources, the lemmas that move a goal from words to natural numbers, generic list lemmas, and
  the interface locales. \<open>prefix_codec\<close> is the contract of a byte codec whose decoder returns the
  unread input, \<open>block_code\<close> that of a code that works block by block, \<open>incremental\<close> that of a
  context that takes its input in pieces, and \<open>transition_system\<close> that of a stateful component with
  an invariant.

  Integers of the code keep their width: \<open>uint8_t\<close>, \<open>uint32_t\<close> and \<open>uint64_t\<close> (and \<open>size_t\<close> on
  the 64-bit targets) are words, on which \<open>+\<close>, \<open>-\<close> and \<open>*\<close> wrap around as in C.
\<close>

type_synonym u8 = "8 word"
type_synonym u16 = "16 word"
type_synonym u32 = "32 word"
type_synonym u64 = "64 word"
type_synonym byte = "8 word"
type_synonym bytes = "8 word list"

named_theorems word_nat \<open>rules that read a word operation as an operation on natural numbers\<close>

subsection \<open>Positional notation\<close>

lemma nat_div_mod_unique:
  fixes q :: nat
  assumes "q * B + r = q' * B + r'" "r < B" "r' < B"
  shows "q = q' \<and> r = r'"
proof -
  have "(q * B + r) div B = q" "(q' * B + r') div B = q'"
    "(q * B + r) mod B = r" "(q' * B + r') mod B = r'"
    using assms(2,3) by simp_all
  then show ?thesis unfolding assms(1) by simp
qed

lemma digit_lt: "x < B \<Longrightarrow> y < C \<Longrightarrow> y * B + x < C * (B::nat)"
proof -
  assume "x < B" "y < C"
  then have "y * B + x < (y + 1) * B" by simp
  also have "\<dots> \<le> C * B" using \<open>y < C\<close> by (intro mult_le_mono1) simp
  finally show ?thesis .
qed

text \<open>A statement about all numbers below a literal is checked by evaluation.\<close>

lemma all_below: "list_all P [0..<k] \<Longrightarrow> n < k \<Longrightarrow> P n"
  by (simp add: list_all_iff)

subsection \<open>Words as natural numbers\<close>

lemma unat_and_mask [word_nat]: "unat (w AND mask n) = unat w mod 2 ^ n"
  for w :: "'a::len word"
  by (simp only: unsigned_take_bit_eq flip: take_bit_eq_mask) (simp add: take_bit_eq_mod)

lemma unat_drop_bit [word_nat]: "unat (drop_bit n w) = unat w div 2 ^ n"
  for w :: "'a::len word"
  by (simp add: unat_drop_bit_eq flip: drop_bit_eq_div)

lemma unat_u64_lt [simp]: "unat (w :: u64) < 18446744073709551616"
  using unsigned_less [where ?'a = nat and w = w] by simp

lemma unat_u32_lt [simp]: "unat (w :: u32) < 4294967296"
  using unsigned_less [where ?'a = nat and w = w] by simp

lemma unat_u8_lt [simp]: "unat (w :: u8) < 256"
  using unsigned_less [where ?'a = nat and w = w] by simp

lemma unat_plus_exact: "unat a + unat b < 2 ^ LENGTH('a) \<Longrightarrow> unat (a + b) = unat a + unat b"
  for a b :: "'a::len word"
  by (simp add: unat_word_ariths)

lemma unat_times_exact: "unat a * unat b < 2 ^ LENGTH('a) \<Longrightarrow> unat (a * b) = unat a * unat b"
  for a b :: "'a::len word"
  by (simp add: unat_word_ariths)

lemma unat_minus_exact: "b \<le> a \<Longrightarrow> unat (a - b) = unat a - unat b"
  for a b :: "'a::len word"
  by (rule unat_sub)

lemma unat_maximum: "unat (max a b) = max (unat a) (unat b)" for a b :: "'a::len word"
  by (simp add: max_def word_le_nat_alt)

lemma unat_minimum: "unat (min a b) = min (unat a) (unat b)" for a b :: "'a::len word"
  by (simp add: min_def word_le_nat_alt)

lemma unat_ucast_mod [word_nat]: "unat (ucast w :: 'b::len word) = unat w mod 2 ^ LENGTH('b)"
  for w :: "'a::len word"
  by (simp add: unsigned_ucast_eq take_bit_eq_mod)

lemma word_unat_eqI: "unat a = unat b \<Longrightarrow> a = b" for a b :: "'a::len word"
  by (rule unsigned_word_eqI)

lemma word_nonzeroI: "unat a \<noteq> 0 \<Longrightarrow> a \<noteq> 0" for a :: "'a::len word"
  by auto

lemma byte_0x7f: "(0x7f :: byte) = mask 7" and byte_0x80: "(0x80 :: byte) = 2 ^ 7"
  by (simp_all add: mask_numeral)

lemma byte_high_bit: "b AND 0x80 = 0 \<longleftrightarrow> unat b < 128" for b :: byte
proof -
  have "b AND 2 ^ 7 = 0 \<longleftrightarrow> \<not> bit b 7"
    by (simp only: and_exp_eq_0_iff_not_bit)
  also have "\<dots> \<longleftrightarrow> unat b < 128"
  proof -
    have "bit b 7 \<longleftrightarrow> odd (unat b div 128)"
      using bit_unsigned_iff [where ?'a = nat, of b 7] by (simp add: bit_iff_odd)
    moreover have "unat b div 128 = (if unat b < 128 then 0 else 1)"
      using unat_u8_lt [of b] by (auto intro!: div_nat_eqI)
    ultimately show ?thesis by simp
  qed
  finally show ?thesis by simp
qed

lemma add_carry: "unat a + unat b = unat (a + b) + (if a + b < a then 2 ^ LENGTH('a) else 0)"
  for a b :: "'a::len word"
proof (cases "unat a + unat b < 2 ^ LENGTH('a)")
  case True
  then have "unat (a + b) = unat a + unat b" by (rule unat_plus_exact)
  moreover then have "\<not> a + b < a" by (simp add: word_less_nat_alt)
  ultimately show ?thesis by simp
next
  case False
  have "unat a < 2 ^ LENGTH('a)" "unat b < 2 ^ LENGTH('a)" by simp_all
  then have "unat a + unat b - 2 ^ LENGTH('a) < 2 ^ LENGTH('a)" by linarith
  then have "(unat a + unat b) mod 2 ^ LENGTH('a) = unat a + unat b - 2 ^ LENGTH('a)"
    using False by (simp add: le_mod_geq)
  then have s: "unat (a + b) = unat a + unat b - 2 ^ LENGTH('a)" by (simp add: unat_word_ariths)
  then have "unat (a + b) < unat a" using False \<open>unat b < _\<close> by linarith
  then have "a + b < a" by (simp only: word_less_nat_alt)
  with s False show ?thesis by simp
qed

lemma unat_of_nat64: "n < 2 ^ 64 \<Longrightarrow> unat (of_nat n :: u64) = n"
  by (simp add: unat_of_nat)

lemma add_wraps_iff: "a + b < a \<longleftrightarrow> 2 ^ 64 \<le> unat a + unat b"
  for a b :: u64
  using add_carry [of a b] unat_u64_lt [of "a + b"]
  by (auto split: if_splits simp del: unat_u64_lt)

lemma unat_push_bit_mod: "unat (push_bit n w) = unat w * 2 ^ n mod 2 ^ LENGTH('a)" for w :: "'a::len word"
  by (simp only: unsigned_push_bit_eq) (simp add: take_bit_eq_mod push_bit_eq_mult)

lemma len64: "LENGTH(64) = 64" by simp

lemma len32: "LENGTH(32) = 32" by simp

lemma unat_ucast_up:
  "LENGTH('a) \<le> LENGTH('b) \<Longrightarrow> unat (ucast w :: 'b::len word) = unat w" for w :: "'a::len word"
proof -
  assume le: "LENGTH('a) \<le> LENGTH('b)"
  have "unat w < 2 ^ LENGTH('b)"
    by (rule order.strict_trans2 [OF unsigned_less]) (simp add: le)
  then show ?thesis by (simp add: unat_ucast_mod)
qed

lemma or_is_plus: "unat b < 2 ^ n \<Longrightarrow> push_bit n a OR b = push_bit n a + b" for a b :: "'a::len word"
proof (rule sym, rule disjunctive_add_eq_or, rule bit_word_eqI)
  fix m assume b: "unat b < 2 ^ n"
  have "\<not> bit b m" if "n \<le> m"
  proof -
    have "unat b < 2 ^ m" by (rule order.strict_trans2 [OF b]) (simp add: that)
    then have "unat b div 2 ^ m = 0" by simp
    then show ?thesis using bit_unsigned_iff [where ?'a = nat, of b m] by (auto simp: bit_iff_odd dest: bit_imp_le_length)
  qed
  then show "bit (push_bit n a AND b) m = bit 0 m"
    by (auto simp: bit_simps)
qed

lemma unat_max64: "unat (-1 :: u64) = 2 ^ 64 - 1"
  by (simp add: unsigned_minus_1_eq_mask mask_eq_exp_minus_1)

lemma two_words_unique:
  fixes lo hi lo' hi' :: u64
  assumes "unat hi * 2 ^ 64 + unat lo = unat hi' * 2 ^ 64 + unat lo'"
  shows "lo = lo' \<and> hi = hi'"
  using nat_div_mod_unique [OF assms] by (auto intro: word_unat_eqI)

lemma push_bit_split:
  "push_bit s (x AND mask k) OR push_bit (s + k) (drop_bit k x) = push_bit s x"
  for x :: "'a::len word"
proof (rule bit_word_eqI)
  fix n assume "n < LENGTH('a)"
  then show "bit (push_bit s (x AND mask k) OR push_bit (s + k) (drop_bit k x)) n
      = bit (push_bit s x) n"
    by (cases "s + k \<le> n") (auto simp: bit_simps)
qed

subsection \<open>Little-endian words\<close>

text \<open>The word a little-endian target loads from eight bytes (the \<open>memcpy\<close> into a \<open>uint64_t\<close>).\<close>

fun le_word :: "bytes \<Rightarrow> u64" where
  "le_word [] = 0"
| "le_word (b # bs) = ucast b OR push_bit 8 (le_word bs)"

definition le_bytes :: "u64 \<Rightarrow> bytes" where
  "le_bytes w = map (\<lambda>i. ucast (drop_bit (8 * i) w)) [0..<8]"

lemma bit_le_word:
  "bit (le_word bs) n \<longleftrightarrow> n < 64 \<and> n div 8 < length bs \<and> bit (bs ! (n div 8)) (n mod 8)"
proof (induction bs arbitrary: n)
  case (Cons b bs)
  show ?case
  proof (cases "n < 8")
    case True
    then show ?thesis by (auto simp: bit_simps)
  next
    case False
    then obtain m where m: "n = m + 8" by (metis add.commute le_Suc_ex not_less)
    have "\<not> bit b (m + 8)" by (auto dest: bit_imp_le_length)
    moreover have "(m + 8) div 8 = Suc (m div 8)" by simp
    ultimately show ?thesis by (auto simp: m bit_simps Cons.IH)
  qed
qed simp

lemma length_le_bytes [simp]: "length (le_bytes w) = 8"
  by (simp add: le_bytes_def)

lemma le_word_le_bytes [simp]: "le_word (le_bytes w) = w"
  by (rule bit_word_eqI) (auto simp: bit_le_word le_bytes_def bit_simps)

lemma le_bytes_le_word [simp]: "length bs = 8 \<Longrightarrow> le_bytes (le_word bs) = bs"
  by (rule nth_equalityI) (auto simp: le_bytes_def bit_le_word bit_simps intro!: bit_word_eqI)

subsection \<open>Interface: byte codecs\<close>

text \<open>
  A codec writes a value as bytes and reads it back from the front of a longer input. \<open>valid\<close> says
  which values the writer is used for. Clients of a codec rely on the two lemmas proved here: two
  encodings that start the same input are equal, and the encoder is injective.
\<close>

locale prefix_codec =
  fixes enc :: "'v \<Rightarrow> bytes"
    and dec :: "bytes \<Rightarrow> ('v \<times> bytes) option"
    and valid :: "'v \<Rightarrow> bool"
  assumes dec_enc: "valid v \<Longrightarrow> dec (enc v @ rest) = Some (v, rest)"
begin

lemma enc_unique:
  assumes "valid v" "valid w" "enc v @ r = enc w @ s"
  shows "v = w \<and> r = s"
proof -
  have "Some (v, r) = Some (w, s)"
    by (simp only: dec_enc [OF assms(1), of r, symmetric] dec_enc [OF assms(2), of s, symmetric]
        assms(3))
  then show ?thesis by simp
qed

lemma enc_inj: "valid v \<Longrightarrow> valid w \<Longrightarrow> enc v = enc w \<Longrightarrow> v = w"
  using enc_unique [of v w "[]" "[]"] by simp

lemma enc_not_proper_prefix: "valid v \<Longrightarrow> valid w \<Longrightarrow> enc v @ r = enc w \<Longrightarrow> r = []"
  using enc_unique [of v w r "[]"] by simp

end

subsection \<open>Interface: components with an invariant\<close>

text \<open>
  A stateful component is a start state, a step relation and a predicate. The provider proves that
  the predicate holds at the start and that every step keeps it; the client gets it for every
  reachable state.
\<close>

inductive reaches :: "('s \<Rightarrow> 's \<Rightarrow> bool) \<Rightarrow> 's \<Rightarrow> 's \<Rightarrow> bool" for step where
  reaches_refl: "reaches step s s"
| reaches_step: "reaches step s t \<Longrightarrow> step t u \<Longrightarrow> reaches step s u"

locale transition_system =
  fixes start :: "'s \<Rightarrow> bool"
    and step :: "'s \<Rightarrow> 's \<Rightarrow> bool"
    and inv :: "'s \<Rightarrow> bool"
  assumes inv_start: "start s \<Longrightarrow> inv s"
    and inv_step: "inv s \<Longrightarrow> step s t \<Longrightarrow> inv t"
begin

lemma inv_reaches: "reaches step s t \<Longrightarrow> inv s \<Longrightarrow> inv t"
  by (induction rule: reaches.induct) (auto intro: inv_step)

lemma inv_reachable: "start s \<Longrightarrow> reaches step s t \<Longrightarrow> inv t"
  by (blast intro: inv_reaches inv_start)

end

subsection \<open>Incremental computations\<close>

text \<open>A function of a whole input, computed by a context that takes the input in pieces.\<close>

fun feed :: "('a list \<Rightarrow> 's \<Rightarrow> 's option) \<Rightarrow> 'a list list \<Rightarrow> 's \<Rightarrow> 's option" where
  "feed update [] s = Some s"
| "feed update (x # xs) s = Option.bind (update x s) (feed update xs)"

locale incremental =
  fixes init :: 's and update :: "'a list \<Rightarrow> 's \<Rightarrow> 's option" and finish :: "'s \<Rightarrow> 'b"
    and whole :: "'a list \<Rightarrow> 'b" and holds :: "'s \<Rightarrow> 'a list \<Rightarrow> bool" and limit :: nat
  assumes init: "holds init []"
    and update: "holds s m \<Longrightarrow> length m + length x < limit \<Longrightarrow> \<exists>s'. update x s = Some s' \<and> holds s' (m @ x)"
    and finish: "holds s m \<Longrightarrow> finish s = whole m"
begin

lemma feed_holds:
  assumes "holds s m" "length m + length (concat xs) < limit"
  shows "\<exists>s'. feed update xs s = Some s' \<and> holds s' (m @ concat xs)"
  using assms
proof (induction xs arbitrary: s m)
  case (Cons x xs)
  from Cons.prems obtain s' where "update x s = Some s'" "holds s' (m @ x)"
    using update [of s m x] by auto
  then show ?case using Cons.IH [of s' "m @ x"] Cons.prems by simp
qed simp

lemma feed_whole:
  assumes "length (concat xs) < limit"
  shows "\<exists>s. feed update xs init = Some s \<and> finish s = whole (concat xs)"
  using feed_holds [OF init] finish assms by fastforce

end

subsection \<open>Digits of a fixed width\<close>

fun digits_val :: "nat \<Rightarrow> nat list \<Rightarrow> nat" where
  "digits_val B [] = 0"
| "digits_val B (d # ds) = d + B * digits_val B ds"

fun to_digits :: "nat \<Rightarrow> nat \<Rightarrow> nat \<Rightarrow> nat list" where
  "to_digits B 0 x = []"
| "to_digits B (Suc n) x = (x mod B) # to_digits B n (x div B)"

lemma length_to_digits [simp]: "length (to_digits B n x) = n"
  by (induction n arbitrary: x) auto

lemma digits_val_to_digits: "x < B ^ n \<Longrightarrow> digits_val B (to_digits B n x) = x"
proof (induction n arbitrary: x)
  case (Suc n)
  then have "x div B < B ^ n" by (simp add: less_mult_imp_div_less mult.commute)
  then show ?case using Suc.IH by simp
qed simp

lemma to_digits_digits_val: "\<forall>d \<in> set ds. d < B \<Longrightarrow> to_digits B (length ds) (digits_val B ds) = ds"
  by (induction ds) auto

lemma to_digits_lt: "0 < B \<Longrightarrow> d \<in> set (to_digits B n x) \<Longrightarrow> d < B"
  by (induction n arbitrary: x) auto

lemma to_digits_add: "to_digits B (m + n) x = to_digits B m x @ to_digits B n (x div B ^ m)"
  by (induction m arbitrary: x) (simp_all add: div_mult2_eq)

lemma digits_val_lt: "\<forall>d \<in> set ds. d < B \<Longrightarrow> digits_val B ds < B ^ length ds"
proof (induction ds)
  case (Cons d ds)
  then show ?case using digit_lt [of d B "digits_val B ds" "B ^ length ds"] by (simp add: mult.commute add.commute)
qed simp

lemma digits_val_append: "digits_val B (xs @ ys) = digits_val B xs + B ^ length xs * digits_val B ys"
  by (induction xs) (auto simp: algebra_simps)

lemma digits_val_zeros: "digits_val B (replicate n 0) = 0"
  by (induction n) auto

lemma unat_le_word: "length bs \<le> 8 \<Longrightarrow> unat (le_word bs) = digits_val 256 (map unat bs)"
proof (induction bs)
  case (Cons b bs)
  have "digits_val 256 (map unat bs) < 256 ^ length bs"
    using digits_val_lt [of "map unat bs" 256] by auto
  also have "\<dots> \<le> 256 ^ 7" using Cons.prems by (intro power_increasing) auto
  finally have lt: "digits_val 256 (map unat bs) < 256 ^ 7" .
  then have p: "unat (push_bit 8 (le_word bs)) = 256 * digits_val 256 (map unat bs)"
    using Cons unfolding unat_push_bit_mod by simp
  have "le_word (b # bs) = push_bit 8 (le_word bs) + ucast b"
    using or_is_plus [of "ucast b :: u64" 8 "le_word bs"] by (simp add: or.commute unat_ucast_up)
  moreover have "256 * digits_val 256 (map unat bs) + unat b < 2 ^ 64"
    using lt unat_u8_lt [of b] by (simp del: unat_u8_lt)
  ultimately show ?case
    by (simp only:) (subst unat_plus_exact, simp_all add: p unat_ucast_up)
qed simp

subsection \<open>Interface: block codes\<close>

text \<open>A list cut into full blocks of \<open>n\<close> items and a shorter last block, and a partial function applied
  to every block.\<close>

definition full_blocks :: "nat \<Rightarrow> 'a list \<Rightarrow> 'a list list" where
  "full_blocks n xs = map (\<lambda>i. take n (drop (i * n) xs)) [0..<length xs div n]"

definition last_block :: "nat \<Rightarrow> 'a list \<Rightarrow> 'a list" where
  "last_block n xs = drop (length xs div n * n) xs"

definition map_blocks :: "nat \<Rightarrow> ('a list \<Rightarrow> 'b list option) \<Rightarrow> 'a list \<Rightarrow> 'b list option" where
  "map_blocks n f xs =
     Option.bind (those (map f (full_blocks n xs))) (\<lambda>ys.
     Option.bind (if 0 < length xs mod n then f (last_block n xs) else Some []) (\<lambda>y. Some (concat ys @ y)))"

lemma blocks_split:
  assumes "0 < n"
  shows "concat (full_blocks n xs) @ last_block n xs = xs" "\<forall>b \<in> set (full_blocks n xs). length b = n"
    "length (last_block n xs) = length xs mod n"
proof -
  have "concat (map (\<lambda>i. take n (drop (i * n) xs)) [0..<k]) = take (k * n) xs" if "k * n \<le> length xs" for k
    using that
  proof (induction k)
    case (Suc k)
    then show ?case using take_add [of "k * n" n xs] by (simp add: add.commute)
  qed simp
  from this [of "length xs div n"] show "concat (full_blocks n xs) @ last_block n xs = xs"
    by (simp add: full_blocks_def last_block_def)
  show "length (last_block n xs) = length xs mod n"
    by (simp add: last_block_def modulo_nat_def)
  show "\<forall>b \<in> set (full_blocks n xs). length b = n"
  proof
    fix b assume "b \<in> set (full_blocks n xs)"
    then obtain i where i: "i < length xs div n" "b = take n (drop (i * n) xs)" by (auto simp: full_blocks_def)
    then have "Suc i * n \<le> length xs div n * n" by (intro mult_le_mono1) auto
    also have "\<dots> \<le> length xs" by simp
    finally show "length b = n" using i by simp
  qed
qed

lemma split_at:
  assumes "length xs = a + b"
  obtains s v where "xs = s @ v" "length s = a" "length v = b"
  using that [of "take a xs" "drop a xs"] assms by simp

lemma full_blocks_append:
  assumes "length b = n" "0 < n"
  shows "full_blocks n (b @ xs) = b # full_blocks n xs"
proof -
  have "[0..<length (b @ xs) div n] = 0 # map Suc [0..<length xs div n]"
    using assms upt_conv_Cons [of 0 "Suc (length xs div n)"] by (simp add: map_Suc_upt div_add_self1 del: upt_Suc)
  then show ?thesis using assms by (simp add: full_blocks_def)
qed

lemma blocks_unique:
  assumes "\<forall>b \<in> set bs. length b = n" "length l < n"
  shows "full_blocks n (concat bs @ l) = bs" "last_block n (concat bs @ l) = l"
    "length (concat bs @ l) mod n = length l"
proof -
  have len: "length (concat bs) = n * length bs"
    using assms(1) by (induction bs) auto
  then have div: "length (concat bs @ l) div n = length bs" using assms(2) by simp
  have *: "take n (drop (i * n) (concat bs @ l)) = bs ! i" if "i < length bs" for i
    using that assms(1)
  proof (induction bs arbitrary: i)
    case (Cons b bs)
    then show ?case by (cases i) (auto simp: add.commute)
  qed simp
  then show "full_blocks n (concat bs @ l) = bs" unfolding full_blocks_def div
    by (intro nth_equalityI) auto
  show "last_block n (concat bs @ l) = l" unfolding last_block_def div using len by (simp add: mult.commute)
  show "length (concat bs @ l) mod n = length l" using len assms(2) by simp
qed

lemma those_map_iff: "those (map f xs) = Some ys \<longleftrightarrow> list_all2 (\<lambda>x y. f x = Some y) xs ys"
proof (induction xs arbitrary: ys)
  case (Cons x xs)
  show ?case by (cases "f x") (auto simp: Cons list_all2_Cons1)
qed auto

lemma those_map_total: "(\<And>x. x \<in> set xs \<Longrightarrow> f x \<noteq> None) \<Longrightarrow> those (map f xs) \<noteq> None"
  by (induction xs) (auto split: option.splits)

text \<open>
  A block code maps blocks of at most \<open>n\<close> items to blocks of at most \<open>m\<close> items and back. Full blocks
  become full blocks, so a text can be cut again without knowing what was encoded.
\<close>

locale block_code =
  fixes n m :: nat and enc :: "'a list \<Rightarrow> 'b list option" and dec :: "'b list \<Rightarrow> 'a list option"
  assumes pos: "0 < n" "0 < m"
    and inverse: "x \<noteq> [] \<Longrightarrow> length x \<le> n \<Longrightarrow> y \<noteq> [] \<Longrightarrow> length y \<le> m \<Longrightarrow> enc x = Some y \<longleftrightarrow> dec y = Some x"
    and enc_size: "x \<noteq> [] \<Longrightarrow> length x \<le> n \<Longrightarrow> enc x = Some y \<Longrightarrow> y \<noteq> [] \<and> length y \<le> m \<and> (length x = n \<longleftrightarrow> length y = m)"
    and dec_size: "y \<noteq> [] \<Longrightarrow> length y \<le> m \<Longrightarrow> dec y = Some x \<Longrightarrow> x \<noteq> [] \<and> length x \<le> n"
begin

lemma map_blocks_dec:
  assumes "map_blocks n enc d = Some e"
  shows "map_blocks m dec e = Some d"
proof -
  obtain ys y where ys: "list_all2 (\<lambda>x y. enc x = Some y) (full_blocks n d) ys"
    and y: "(if 0 < length d mod n then enc (last_block n d) else Some []) = Some y" and e: "e = concat ys @ y"
    using assms by (auto simp: map_blocks_def bind_eq_Some_conv those_map_iff)
  note d = blocks_split [OF pos(1), of d]
  have lt: "length (last_block n d) < n" using d(3) pos(1) by simp
  have *: "length y = m \<and> dec y = Some x" if "x \<in> set (full_blocks n d)" "enc x = Some y" for x y
    using that d(2) enc_size [of x y] inverse [of x y] pos(1) by (auto; metis)
  have all: "\<forall>b \<in> set ys. length b = m" "list_all2 (\<lambda>y x. dec y = Some x) ys (full_blocks n d)"
    using ys * by (fastforce simp: list_all2_conv_all_nth in_set_conv_nth)+
  have y': "length y < m \<and> (if 0 < length y then dec y else Some []) = Some (last_block n d)"
  proof (cases "length d mod n = 0")
    case True
    then show ?thesis using y d(3) pos by simp
  next
    case False
    then have "enc (last_block n d) = Some y" "last_block n d \<noteq> []" using y d(3) by auto
    then show ?thesis using enc_size [of "last_block n d" y] inverse [of "last_block n d" y] lt by auto
  qed
  have "those (map dec ys) = Some (full_blocks n d)" using all(2) by (simp add: those_map_iff)
  then show ?thesis
    unfolding map_blocks_def e using blocks_unique [OF all(1), of y] y' d(1) by (cases y) auto
qed

end

sublocale block_code \<subseteq> flip: block_code m n dec enc
  using pos inverse enc_size dec_size by unfold_locales blast+

context block_code
begin

lemma map_blocks_inverse: "map_blocks n enc d = Some e \<longleftrightarrow> map_blocks m dec e = Some d"
  using map_blocks_dec flip.map_blocks_dec by blast

end

end
