(* ===== verification/Int_Util.thy ===== *)
theory Int_Util
  imports Hidering_Prelude
begin

unbundle bit_operations_syntax

section \<open>Integer helpers (\<open>contrib/epee/include/int-util.h\<close>, \<open>contrib/epee/src/int-util.cpp\<close>)\<close>

text \<open>
  128-bit products and quotients built from 64-bit words, the clamping additions, and the byte swaps
  of a little-endian target. Output pointers become components of the result: \<open>mul128\<close> returns the
  low and the high word, \<open>div128_64\<close> the two quotient words and the two remainder words.
  \<open>boost::multiprecision::uint128_t\<close> is an unchecked 128-bit integer; its division by zero throws,
  which is \<open>None\<close>.
\<close>

definition hi_dword :: "u64 \<Rightarrow> u64" where "hi_dword val = drop_bit 32 val"
definition lo_dword :: "u64 \<Rightarrow> u64" where "lo_dword val = val AND 0xFFFFFFFF"

definition mul128 :: "u64 \<Rightarrow> u64 \<Rightarrow> u64 \<times> u64" where
  "mul128 multiplier multiplicand =
     (let a = hi_dword multiplier; b = lo_dword multiplier;
          c = hi_dword multiplicand; d = lo_dword multiplicand;
          ac = a * c; ad = a * d; bc = b * c; bd = b * d;
          adbc = ad + bc;
          adbc_carry = (if adbc < ad then 1 else 0);
          product_lo = bd + push_bit 32 adbc;
          product_lo_carry = (if product_lo < bd then 1 else 0);
          product_hi = ac + drop_bit 32 adbc + push_bit 32 adbc_carry + product_lo_carry
      in (product_lo, product_hi))"

definition div_with_reminder :: "u64 \<Rightarrow> u32 \<Rightarrow> u32 \<Rightarrow> u64 \<times> u32" where
  "div_with_reminder dividend divisor remainder =
     (let dividend' = dividend OR push_bit 32 (ucast remainder) in
      (dividend' div ucast divisor, ucast (dividend' mod ucast divisor)))"

definition div128_32 :: "u64 \<Rightarrow> u64 \<Rightarrow> u32 \<Rightarrow> u32 \<times> u64 \<times> u64" where
  "div128_32 dividend_hi dividend_lo divisor =
     (let (q3, r3) = div_with_reminder (hi_dword dividend_hi) divisor 0;
          (q2, r2) = div_with_reminder (lo_dword dividend_hi) divisor r3;
          (q1, r1) = div_with_reminder (hi_dword dividend_lo) divisor r2;
          (q0, r0) = div_with_reminder (lo_dword dividend_lo) divisor r1
      in (r0, push_bit 32 q3 OR q2, push_bit 32 q1 OR q0))"

definition div128_64 :: "u64 \<Rightarrow> u64 \<Rightarrow> u64 \<Rightarrow> (u64 \<times> u64 \<times> u64 \<times> u64) option" where
  "div128_64 dividend_hi dividend_lo divisor =
     (if divisor = 0 then None
      else let dividend = push_bit 64 (ucast dividend_hi :: 128 word) OR ucast dividend_lo;
               q = dividend div ucast divisor; r = dividend mod ucast divisor
           in Some (ucast (drop_bit 64 q), ucast q, ucast (drop_bit 64 r), ucast r))"

definition add64clamp :: "u64 \<Rightarrow> u64 \<Rightarrow> u64" where
  "add64clamp v add = (let maxval = -1 in if maxval - add < v then maxval else v + add)"

definition sub64clamp :: "u64 \<Rightarrow> u64 \<Rightarrow> u64" where
  "sub64clamp v sub = (if v < sub then 0 else v - sub)"

definition SWAP64 :: "u64 \<Rightarrow> u64" where
  "SWAP64 x = push_bit 56 (x AND 0x00000000000000ff) OR push_bit 40 (x AND 0x000000000000ff00)
    OR push_bit 24 (x AND 0x0000000000ff0000) OR push_bit 8 (x AND 0x00000000ff000000)
    OR drop_bit 8 (x AND 0x000000ff00000000) OR drop_bit 24 (x AND 0x0000ff0000000000)
    OR drop_bit 40 (x AND 0x00ff000000000000) OR drop_bit 56 (x AND 0xff00000000000000)"

subsection \<open>Multiplication\<close>

lemma unat_hi_dword: "unat (hi_dword v) = unat v div 2 ^ 32"
  by (simp add: hi_dword_def unat_drop_bit)

lemma mask32: "(0xFFFFFFFF :: u64) = mask 32" by (simp add: mask_numeral)

lemma unat_lo_dword: "unat (lo_dword v) = unat v mod 2 ^ 32"
  by (simp only: lo_dword_def mask32 unat_and_mask)

lemma dword_split: "unat v = unat (hi_dword v) * 2 ^ 32 + unat (lo_dword v)"
  by (simp only: unat_hi_dword unat_lo_dword div_mult_mod_eq)

lemma hi_dword_lt: "unat (hi_dword v) < 2 ^ 32" and lo_dword_lt: "unat (lo_dword v) < 2 ^ 32"
  using unat_u64_lt [of v] by (simp_all add: unat_hi_dword unat_lo_dword div_less_iff_less_mult)

lemma mul_lt_bound: "x < 2 ^ 32 \<Longrightarrow> y < 2 ^ 32 \<Longrightarrow> x * y < (2 ^ 64 :: nat)"
  using mult_strict_mono [of x "2 ^ 32" y "2 ^ 32"] by simp

lemma unat_push32: "unat (push_bit 32 w) = (unat w mod 2 ^ 32) * 2 ^ 32" for w :: u64
proof -
  have "unat (push_bit 32 w) = unat w * 2 ^ 32 mod (2 ^ 32 * 2 ^ 32)"
    using unat_push_bit_mod [of 32 w] by simp
  then show ?thesis by (simp only: mod_mult_mult2)
qed

lemma dword_mult_exact:
  fixes x y :: u64
  assumes "unat x < 2 ^ 32" "unat y < 2 ^ 32"
  shows "unat (x * y) = unat x * unat y"
  using mul_lt_bound [OF assms] by (intro unat_times_exact) simp

lemma mul128_nat:
  fixes a b c d adbc k lo l hi :: nat
  assumes "a * d + b * c = adbc + k * 2 ^ 64"
    and "b * d + (adbc mod 2 ^ 32) * 2 ^ 32 = lo + l * 2 ^ 64"
    and "hi = a * c + adbc div 2 ^ 32 + k * 2 ^ 32 + l"
  shows "hi * 2 ^ 64 + lo = (a * 2 ^ 32 + b) * (c * 2 ^ 32 + d)"
proof -
  have "adbc * 2 ^ 32 = (adbc div 2 ^ 32 * 2 ^ 32 + adbc mod 2 ^ 32) * 2 ^ 32" by simp
  also have "\<dots> = adbc div 2 ^ 32 * 2 ^ 64 + adbc mod 2 ^ 32 * 2 ^ 32" by (simp only: distrib_right) simp
  finally have s: "adbc * 2 ^ 32 = adbc div 2 ^ 32 * 2 ^ 64 + adbc mod 2 ^ 32 * 2 ^ 32" .
  have "(a * 2 ^ 32 + b) * (c * 2 ^ 32 + d) = a * c * 2 ^ 64 + (a * d + b * c) * 2 ^ 32 + b * d"
    by (simp add: algebra_simps)
  also have "\<dots> = a * c * 2 ^ 64 + (adbc + k * 2 ^ 64) * 2 ^ 32 + b * d"
    by (simp only: assms(1))
  also have "\<dots> = a * c * 2 ^ 64 + (adbc div 2 ^ 32 + k * 2 ^ 32) * 2 ^ 64
      + (b * d + (adbc mod 2 ^ 32) * 2 ^ 32)"
    using s by (simp add: algebra_simps)
  also have "\<dots> = hi * 2 ^ 64 + lo"
    by (simp only: assms(2,3)) (simp add: algebra_simps)
  finally show ?thesis by simp
qed

lemma mul128_exact:
  assumes m: "mul128 x y = (lo, hi)"
  shows "unat hi * 2 ^ 64 + unat lo = unat x * unat y"
proof -
  define a b c d where abcd: "a = hi_dword x" "b = lo_dword x" "c = hi_dword y" "d = lo_dword y"
  note lt = hi_dword_lt [of x] hi_dword_lt [of y] lo_dword_lt [of x] lo_dword_lt [of y]
  define adbc where "adbc = a * d + b * c"
  define k where "k = (if adbc < a * d then 1 else 0 :: u64)"
  have lo: "lo = b * d + push_bit 32 adbc"
    using m by (simp add: mul128_def Let_def abcd adbc_def)
  define l where "l = (if lo < b * d then 1 else 0 :: u64)"
  have hi: "hi = a * c + drop_bit 32 adbc + push_bit 32 k + l"
    using m by (simp add: mul128_def Let_def abcd adbc_def k_def l_def lo)
  have ex: "unat (a * c) = unat a * unat c" "unat (a * d) = unat a * unat d"
    "unat (b * c) = unat b * unat c" "unat (b * d) = unat b * unat d"
    unfolding abcd by (intro dword_mult_exact lt)+
  have 1: "unat a * unat d + unat b * unat c = unat adbc + unat k * 2 ^ 64"
    using add_carry [of "a * d" "b * c"] by (simp add: ex adbc_def k_def split: if_splits)
  have 2: "unat b * unat d + (unat adbc mod 2 ^ 32) * 2 ^ 32 = unat lo + unat l * 2 ^ 64"
    using add_carry [of "b * d" "push_bit 32 adbc"]
    by (simp add: ex lo l_def unat_push32 split: if_splits)
  define H where "H = unat a * unat c + unat adbc div 2 ^ 32 + unat k * 2 ^ 32 + unat l"
  have tot: "H * 2 ^ 64 + unat lo = unat x * unat y"
    unfolding dword_split [of x] dword_split [of y] abcd [symmetric]
    by (rule mul128_nat [OF 1 2 H_def])
  have "unat x * unat y < 2 ^ 64 * 2 ^ 64"
    by (intro mult_strict_mono) simp_all
  then have "H < 2 ^ 64" using tot by simp
  have "unat (push_bit 32 k) = unat k * 2 ^ 32" by (simp add: k_def unat_push32)
  then have "unat hi = H mod 2 ^ 64"
    by (simp add: hi H_def unat_word_ariths ex unat_drop_bit mod_simps)
  with \<open>H < 2 ^ 64\<close> have "unat hi = H" by simp
  then show ?thesis using tot by simp
qed

subsection \<open>Division\<close>

lemma div_with_reminder_exact:
  assumes "div_with_reminder n d r = (q, r')" "unat n < 2 ^ 32" "r < d"
  shows "unat n + unat r * 2 ^ 32 = unat q * unat d + unat r'" "r' < d" "unat q < 2 ^ 32"
proof -
  have r: "unat (push_bit 32 (ucast r :: u64)) = unat r * 2 ^ 32"
    by (simp add: unat_push32 unat_ucast_up)
  have s: "unat (n OR push_bit 32 (ucast r)) = unat n + unat r * 2 ^ 32"
  proof -
    have "unat n + unat r * 2 ^ 32 < 2 ^ 64"
      using assms(2) unat_u32_lt [of r] by (simp del: unat_u32_lt)
    moreover have "n OR push_bit 32 (ucast r) = push_bit 32 (ucast r) + n"
      by (subst or.commute) (rule or_is_plus [OF assms(2)])
    ultimately show ?thesis
      using r unat_plus_exact [of "push_bit 32 (ucast r)" n] by (simp only: len64 add.commute)
  qed
  have d: "unat (ucast d :: u64) = unat d" by (simp add: unat_ucast_up)
  have q: "unat q = (unat n + unat r * 2 ^ 32) div unat d"
    using assms(1) by (auto simp: div_with_reminder_def Let_def unat_div_distrib s d)
  have r': "unat r' = (unat n + unat r * 2 ^ 32) mod unat d"
  proof -
    have "(unat n + unat r * 2 ^ 32) mod unat d < 2 ^ 32"
      using assms(3) unat_u32_lt [of d] by (intro order.strict_trans [OF mod_less_divisor]) (auto simp: word_less_nat_alt)
    moreover have "r' = ucast ((n OR push_bit 32 (ucast r)) mod ucast d)"
      using assms(1) by (simp add: div_with_reminder_def Let_def)
    ultimately show ?thesis
      by (simp only: unat_ucast_mod [of "(n OR push_bit 32 (ucast r)) mod ucast d"]
          unat_mod_distrib s d len32 mod_less)
  qed
  show "unat n + unat r * 2 ^ 32 = unat q * unat d + unat r'"
    by (simp add: q r')
  show "r' < d" using assms(3) by (simp add: word_less_nat_alt r')
  have "unat n + unat r * 2 ^ 32 < unat d * 2 ^ 32"
    using assms(2,3) by (simp add: word_less_nat_alt)
  then show "unat q < 2 ^ 32" by (simp add: q div_less_iff_less_mult mult.commute)
qed

lemma push32_or:
  fixes a b :: u64
  assumes "unat a < 2 ^ 32" "unat b < 2 ^ 32"
  shows "unat (push_bit 32 a OR b) = unat a * 2 ^ 32 + unat b"
proof -
  have a: "unat (push_bit 32 a) = unat a * 2 ^ 32" using assms(1) by (simp add: unat_push32)
  have "unat a * 2 ^ 32 + unat b < 2 ^ 64" using assms by simp
  then show ?thesis using unat_plus_exact [of "push_bit 32 a" b] by (simp add: or_is_plus [OF assms(2)] a)
qed

lemma div128_32_exact:
  assumes "div128_32 hi lo d = (r, qh, ql)" "0 < d"
  shows "unat hi * 2 ^ 64 + unat lo = (unat qh * 2 ^ 64 + unat ql) * unat d + unat r" "r < d"
proof -
  obtain q3 r3 q2 r2 q1 r1 q0 where
    s: "div_with_reminder (hi_dword hi) d 0 = (q3, r3)" "div_with_reminder (lo_dword hi) d r3 = (q2, r2)"
       "div_with_reminder (hi_dword lo) d r2 = (q1, r1)" "div_with_reminder (lo_dword lo) d r1 = (q0, r)"
    and q: "qh = push_bit 32 q3 OR q2" "ql = push_bit 32 q1 OR q0"
    using assms(1) by (auto simp: div128_32_def Let_def split: prod.splits)
  note e3 = div_with_reminder_exact [OF s(1) hi_dword_lt assms(2)]
  note e2 = div_with_reminder_exact [OF s(2) lo_dword_lt e3(2)]
  note e1 = div_with_reminder_exact [OF s(3) hi_dword_lt e2(2)]
  note e0 = div_with_reminder_exact [OF s(4) lo_dword_lt e1(2)]
  have "unat qh = unat q3 * 2 ^ 32 + unat q2" "unat ql = unat q1 * 2 ^ 32 + unat q0"
    unfolding q using e3(3) e2(3) e1(3) e0(3) by (simp_all only: push32_or)
  then show "unat hi * 2 ^ 64 + unat lo = (unat qh * 2 ^ 64 + unat ql) * unat d + unat r"
    using e3(1) e2(1) e1(1) e0(1) dword_split [of hi] dword_split [of lo]
    by (simp add: algebra_simps)
  show "r < d" by (rule e0(2))
qed

lemma div128_64_exact:
  assumes "div128_64 hi lo d = Some (qh, ql, rh, rl)"
  shows "unat qh * 2 ^ 64 + unat ql = (unat hi * 2 ^ 64 + unat lo) div unat d"
    and "unat rh * 2 ^ 64 + unat rl = (unat hi * 2 ^ 64 + unat lo) mod unat d"
proof -
  let ?n = "push_bit 64 (ucast hi :: 128 word) OR ucast lo"
  have lo: "unat (ucast lo :: 128 word) < 2 ^ 64" by (simp add: unat_ucast_up)
  have "unat hi * 2 ^ 64 + unat lo < 2 ^ 128"
  proof -
    have "(unat hi + 1) * 2 ^ 64 \<le> 2 ^ 64 * 2 ^ 64"
      using unat_u64_lt [of hi] by (intro mult_le_mono1) (simp del: unat_u64_lt)
    then show ?thesis using unat_u64_lt [of lo] by (simp del: unat_u64_lt)
  qed
  moreover have "unat (push_bit 64 (ucast hi :: 128 word)) = unat hi * 2 ^ 64"
    using calculation by (simp add: unat_push_bit_mod unat_ucast_up)
  ultimately have n: "unat ?n = unat hi * 2 ^ 64 + unat lo"
    using unat_plus_exact [of "push_bit 64 (ucast hi :: 128 word)" "ucast lo"]
    by (simp add: or_is_plus [OF lo] unat_ucast_up)
  have halves: "unat (ucast (drop_bit 64 w) :: u64) * 2 ^ 64 + unat (ucast w :: u64) = unat w" for w :: "128 word"
  proof -
    have "unat w < 2 ^ 64 * 2 ^ 64" using unsigned_less [where ?'a = nat and w = w] by simp
    then have "unat w div 2 ^ 64 < 2 ^ 64" by (rule less_mult_imp_div_less)
    then show ?thesis by (simp add: unat_ucast_mod unat_drop_bit)
  qed
  have d: "unat (ucast d :: 128 word) = unat d" by (simp add: unat_ucast_up)
  have "qh = ucast (drop_bit 64 (?n div ucast d))" "ql = ucast (?n div ucast d)"
    "rh = ucast (drop_bit 64 (?n mod ucast d))" "rl = ucast (?n mod ucast d)"
    using assms by (auto simp: div128_64_def Let_def split: if_splits)
  then show "unat qh * 2 ^ 64 + unat ql = (unat hi * 2 ^ 64 + unat lo) div unat d"
    and "unat rh * 2 ^ 64 + unat rl = (unat hi * 2 ^ 64 + unat lo) mod unat d"
    by (simp_all only: halves unat_div_distrib unat_mod_distrib n d)
qed

lemma div128_64_defined: "div128_64 hi lo d = None \<longleftrightarrow> d = 0"
  by (simp add: div128_64_def Let_def)

subsection \<open>Clamping addition and subtraction\<close>

lemma add64clamp_exact: "unat (add64clamp v w) = min (unat v + unat w) (2 ^ 64 - 1)"
proof -
  have m: "unat (-1 - w) = 2 ^ 64 - 1 - unat w"
    by (subst unat_sub) (simp_all add: word_le_nat_alt unsigned_minus_1_eq_mask mask_eq_exp_minus_1 less_Suc_eq_le [symmetric])
  show ?thesis
  proof (cases "unat v + unat w < 2 ^ 64")
    case True
    then have "\<not> -1 - w < v" by (simp add: word_less_nat_alt m)
    with True show ?thesis by (simp add: add64clamp_def unat_plus_exact)
  next
    case False
    then have "-1 - w < v"
      using unat_u64_lt [of w] by (simp add: word_less_nat_alt m del: unat_u64_lt)
    with False show ?thesis by (simp add: add64clamp_def unsigned_minus_1_eq_mask mask_eq_exp_minus_1)
  qed
qed

lemma sub64clamp_exact: "unat (sub64clamp v w) = unat v - unat w"
  by (simp add: sub64clamp_def word_less_nat_alt unat_sub word_le_nat_alt)

subsection \<open>Byte order\<close>

lemma SWAP64_masks:
  "(0x00000000000000ff :: u64) = mask 8" "(0x000000000000ff00 :: u64) = push_bit 8 (mask 8)"
  "(0x0000000000ff0000 :: u64) = push_bit 16 (mask 8)" "(0x00000000ff000000 :: u64) = push_bit 24 (mask 8)"
  "(0x000000ff00000000 :: u64) = push_bit 32 (mask 8)" "(0x0000ff0000000000 :: u64) = push_bit 40 (mask 8)"
  "(0x00ff000000000000 :: u64) = push_bit 48 (mask 8)" "(0xff00000000000000 :: u64) = push_bit 56 (mask 8)"
  by (simp_all add: mask_numeral)

lemma bit_SWAP64:
  assumes "k < 8" "m < 8"
  shows "bit (SWAP64 x) (8 * k + m) = bit x (8 * (7 - k) + m)"
proof -
  from assms(1) have "k = 0 \<or> k = 1 \<or> k = 2 \<or> k = 3 \<or> k = 4 \<or> k = 5 \<or> k = 6 \<or> k = 7" by linarith
  then show ?thesis
    unfolding SWAP64_def SWAP64_masks
    using assms(2) by (elim disjE) (simp_all add: bit_simps)
qed

lemma SWAP64_le_word:
  assumes "length bs = 8"
  shows "SWAP64 (le_word bs) = le_word (rev bs)"
proof (rule bit_word_eqI)
  fix n assume "n < LENGTH(64)"
  then have k: "n div 8 < 8" "n mod 8 < 8" by simp_all
  have n: "n = 8 * (n div 8) + n mod 8" by simp
  have "bit (SWAP64 (le_word bs)) n = bit (le_word bs) (8 * (7 - n div 8) + n mod 8)"
    using bit_SWAP64 [OF k] by simp
  also have "\<dots> = bit (bs ! (7 - n div 8)) (n mod 8)"
  proof -
    have "(8 * (7 - n div 8) + n mod 8) div 8 = 7 - n div 8" "8 * (7 - n div 8) + n mod 8 < 64"
      using k by simp_all
    then show ?thesis using k assms by (simp add: bit_le_word)
  qed
  also have "\<dots> = bit (le_word (rev bs)) n"
    using k assms \<open>n < LENGTH(64)\<close> by (simp add: bit_le_word rev_nth)
  finally show "bit (SWAP64 (le_word bs)) n = bit (le_word (rev bs)) n" .
qed
end
