(* ===== verification/Difficulty.thy ===== *)
theory Difficulty
  imports Int_Util "HOL-Library.Multiset"
begin

unbundle bit_operations_syntax

section \<open>Proof-of-work difficulty (\<open>src/cryptonote_basic/difficulty.cpp\<close>)\<close>

text \<open>
  \<open>difficulty_type\<close> is boost's unchecked \<open>uint128_t\<close>, a 128-bit word. A hash is its 32 bytes;
  \<open>((const uint64_t *) &hash)[i]\<close> read through \<open>swap64le\<close> is the little-endian word number \<open>i\<close>.
  Where the source asserts (a violated precondition, or an index out of range), the model returns
  \<open>None\<close>; \<open>Some 0\<close> is the source's own overflow report.
\<close>

type_synonym difficulty_type = "128 word"

definition DIFFICULTY_WINDOW :: nat where "DIFFICULTY_WINDOW = 720"
definition DIFFICULTY_CUT :: nat where "DIFFICULTY_CUT = 60"

definition hash_word :: "bytes \<Rightarrow> nat \<Rightarrow> u64" where
  "hash_word h i = le_word (take 8 (drop (8 * i) h))"

text \<open>\<open>mul\<close> has two bodies: the one for x86-64 calls \<open>mul128\<close>, the portable one is written out.\<close>

definition mul_x86_64 :: "u64 \<Rightarrow> u64 \<Rightarrow> u64 \<times> u64" where
  "mul_x86_64 a b = mul128 a b"

definition mul_portable :: "u64 \<Rightarrow> u64 \<Rightarrow> u64 \<times> u64" where
  "mul_portable a b =
     (let aLow = a AND 0xFFFFFFFF; aHigh = drop_bit 32 a;
          bLow = b AND 0xFFFFFFFF; bHigh = drop_bit 32 b;
          res = aLow * bLow;
          lowRes1 = res AND 0xFFFFFFFF; carry = drop_bit 32 res;
          res = aHigh * bLow + carry;
          highResHigh1 = drop_bit 32 res; highResLow1 = res AND 0xFFFFFFFF;
          res = aLow * bHigh;
          lowRes2 = res AND 0xFFFFFFFF; carry = drop_bit 32 res;
          res = aHigh * bHigh + carry;
          highResHigh2 = drop_bit 32 res; highResLow2 = res AND 0xFFFFFFFF;
          r = highResLow1 + lowRes2;
          carry = drop_bit 32 r;
          low = push_bit 32 r OR lowRes1;
          r = highResHigh1 + highResLow2 + carry;
          d3 = r AND 0xFFFFFFFF;
          carry = drop_bit 32 r;
          r = highResHigh2 + carry;
          high = d3 OR push_bit 32 r
      in (low, high))"

definition cadd :: "u64 \<Rightarrow> u64 \<Rightarrow> bool" where
  "cadd a b \<longleftrightarrow> a + b < a"

definition cadc :: "u64 \<Rightarrow> u64 \<Rightarrow> bool \<Rightarrow> bool" where
  "cadc a b c \<longleftrightarrow> a + b < a \<or> (c \<and> a + b = -1)"

definition check_hash_64 :: "bytes \<Rightarrow> u64 \<Rightarrow> bool" where
  "check_hash_64 hash difficulty =
     (let (top, high) = mul_x86_64 (hash_word hash 3) difficulty in
      if high \<noteq> 0 then False
      else let (low, cur) = mul_x86_64 (hash_word hash 0) difficulty;
               (low, high) = mul_x86_64 (hash_word hash 1) difficulty;
               carry = cadd cur low;
               cur = high;
               (low, high) = mul_x86_64 (hash_word hash 2) difficulty;
               carry = cadc cur low carry;
               carry = cadc high top carry
           in \<not> carry)"

text \<open>The loop of \<open>check_hash_128\<close> runs over \<open>i = 0, 1, 2, 3\<close> (\<open>FORCE_FULL_128_BITS\<close> is defined).\<close>

definition check_hash_128 :: "bytes \<Rightarrow> difficulty_type \<Rightarrow> bool" where
  "check_hash_128 hash difficulty =
     (let hashVal = fold (\<lambda>i v. push_bit 64 v OR ucast (hash_word hash (3 - i))) [0, 1, 2, 3]
                      (0 :: 512 word)
      in hashVal * ucast difficulty \<le> ucast (-1 :: 256 word))"

definition check_hash :: "bytes \<Rightarrow> difficulty_type \<Rightarrow> bool" where
  "check_hash hash difficulty =
     (if difficulty \<le> ucast (-1 :: u64) then check_hash_64 hash (ucast difficulty)
      else check_hash_128 hash difficulty)"

definition vector_resize :: "nat \<Rightarrow> 'a::zero list \<Rightarrow> 'a list" where
  "vector_resize n xs = take n xs @ replicate (n - length xs) 0"

definition cut_window :: "nat \<Rightarrow> nat \<times> nat" where
  "cut_window len =
     (if len \<le> DIFFICULTY_WINDOW - 2 * DIFFICULTY_CUT then (0, len)
      else let cut_begin = (len - (DIFFICULTY_WINDOW - 2 * DIFFICULTY_CUT) + 1) div 2
           in (cut_begin, cut_begin + (DIFFICULTY_WINDOW - 2 * DIFFICULTY_CUT)))"

definition next_difficulty_64 :: "u64 list \<Rightarrow> u64 list \<Rightarrow> u64 \<Rightarrow> u64 option" where
  "next_difficulty_64 timestamps cumulative_difficulties target_seconds =
     (let (timestamps, cumulative_difficulties) =
            (if DIFFICULTY_WINDOW < length timestamps
             then (vector_resize DIFFICULTY_WINDOW timestamps, vector_resize DIFFICULTY_WINDOW cumulative_difficulties)
             else (timestamps, cumulative_difficulties));
          len = length timestamps
      in if len \<noteq> length cumulative_difficulties then None
         else if len \<le> 1 then Some 1
         else let timestamps = sort timestamps;
                  (cut_begin, cut_end) = cut_window len;
                  span = timestamps ! (cut_end - 1) - timestamps ! cut_begin;
                  time_span = (if span = 0 then 1 else span);
                  total_work = cumulative_difficulties ! (cut_end - 1) - cumulative_difficulties ! cut_begin
              in if total_work = 0 then None
                 else let (low, high) = mul_x86_64 total_work target_seconds
                      in if high \<noteq> 0 \<or> low + time_span - 1 < low then Some 0
                         else Some ((low + time_span - 1) div time_span))"

definition next_difficulty :: "u64 list \<Rightarrow> difficulty_type list \<Rightarrow> u64 \<Rightarrow> difficulty_type option" where
  "next_difficulty timestamps cumulative_difficulties target_seconds =
     (let (timestamps, cumulative_difficulties) =
            (if DIFFICULTY_WINDOW < length timestamps
             then (vector_resize DIFFICULTY_WINDOW timestamps, vector_resize DIFFICULTY_WINDOW cumulative_difficulties)
             else (timestamps, cumulative_difficulties));
          len = length timestamps
      in if len \<noteq> length cumulative_difficulties then None
         else if len \<le> 1 then Some 1
         else let timestamps = sort timestamps;
                  (cut_begin, cut_end) = cut_window len;
                  span = timestamps ! (cut_end - 1) - timestamps ! cut_begin;
                  time_span = (if span = 0 then 1 else span);
                  total_work = cumulative_difficulties ! (cut_end - 1) - cumulative_difficulties ! cut_begin
              in if total_work = 0 then None
                 else let res = ((ucast total_work :: 256 word) * ucast target_seconds
                                   + ucast time_span - 1) div ucast time_span
                      in if ucast (-1 :: difficulty_type) < res then Some 0 else Some (ucast res))"

fun hex_digits :: "nat \<Rightarrow> difficulty_type \<Rightarrow> string" where
  "hex_digits 0 v = []"
| "hex_digits (Suc fuel) v =
     (if 0 < v then (''0123456789abcdef'' ! unat (v AND 0xf)) # hex_digits fuel (drop_bit 4 v) else [])"

text \<open>\<open>while (v > 0) ... v >>= 4\<close> ends after at most 32 rounds on 128 bits, the fuel given here.\<close>

definition hex :: "difficulty_type \<Rightarrow> string" where
  "hex v = (let s = hex_digits 32 v; s = (if s = [] then ''0'' else s) in ''0x'' @ rev s)"

subsection \<open>Reference quantities\<close>

text \<open>
  The value of a hash as a 256-bit little-endian number, and the time span and the work of the
  difficulty window as natural numbers.
\<close>

definition hash_value :: "bytes \<Rightarrow> nat" where
  "hash_value h = unat (hash_word h 0) + unat (hash_word h 1) * 2 ^ 64
     + unat (hash_word h 2) * 2 ^ 128 + unat (hash_word h 3) * 2 ^ 192"

definition window_span :: "u64 list \<Rightarrow> nat" where
  "window_span timestamps =
     (let ts = sort (take DIFFICULTY_WINDOW timestamps); (b, e) = cut_window (length ts)
      in max 1 (unat (ts ! (e - 1)) - unat (ts ! b)))"

definition window_work :: "'a::len word list \<Rightarrow> nat" where
  "window_work cumulative =
     (let cds = take DIFFICULTY_WINDOW cumulative; (b, e) = cut_window (length cds)
      in unat (cds ! (e - 1)) - unat (cds ! b))"

definition hex_digit_value :: "char \<Rightarrow> nat" where
  "hex_digit_value c = length (takeWhile (\<lambda>d. d \<noteq> c) ''0123456789abcdef'')"

definition hex_read :: "string \<Rightarrow> nat" where
  "hex_read s = foldl (\<lambda>n c. 16 * n + hex_digit_value c) 0 s"

subsection \<open>The two multiplications\<close>

lemma long_product_nat:
  fixes a b c d B :: nat
  assumes "B * c1 + l1 = b * d" "B * h1 + g1 = a * d + c1" "B * c2 + l2 = b * c"
    "B * h2 + g2 = a * c + c2" "B * c3 + r3 = g1 + l2" "B * c4 + d3 = h1 + g2 + c3"
  shows "(d3 + (h2 + c4) * B) * (B * B) + (r3 * B + l1) = (a * B + b) * (c * B + d)"
proof -
  have "(a * B + b) * (c * B + d) + B * c1 + B * B * c2
      = a * c * B * B + c2 * B * B + (a * d + c1) * B + b * c * B + b * d"
    by (simp add: algebra_simps)
  also have "\<dots> = (B * h2 + g2) * (B * B) + (B * h1 + g1) * B + (B * c2 + l2) * B + (B * c1 + l1)"
    unfolding assms(1-4) by (simp add: algebra_simps)
  also have "\<dots> = B * h2 * (B * B) + (h1 + g2) * (B * B) + (g1 + l2) * B + B * B * c2 + B * c1 + l1"
    by (simp add: algebra_simps)
  also have "\<dots> = B * h2 * (B * B) + (h1 + g2 + c3) * (B * B) + r3 * B + B * B * c2 + B * c1 + l1"
    unfolding assms(5) [symmetric] by (simp add: algebra_simps)
  also have "\<dots> = (d3 + (h2 + c4) * B) * (B * B) + (r3 * B + l1) + B * c1 + B * B * c2"
    unfolding assms(6) [symmetric] by (simp add: algebra_simps)
  finally show ?thesis by simp
qed

lemma lo_hi: "2 ^ 32 * unat (drop_bit 32 w) + unat (w AND 0xFFFFFFFF) = unat w" for w :: u64
  by (simp only: unat_drop_bit mask32 unat_and_mask mult_div_mod_eq)

lemma lo_lt: "unat (w AND 0xFFFFFFFF) < 2 ^ 32" and hi_lt: "unat (drop_bit 32 w) < 2 ^ 32" for w :: u64
  using hi_dword_lt [of w] lo_dword_lt [of w] by (simp_all add: hi_dword_def lo_dword_def)

lemma mul_add_exact:
  fixes x y c :: u64
  assumes "unat x < 2 ^ 32" "unat y < 2 ^ 32" "unat c < 2 ^ 32"
  shows "unat (x * y + c) = unat x * unat y + unat c"
proof -
  have "unat x * unat y \<le> (2 ^ 32 - 1) * (2 ^ 32 - 1)"
    using assms by (intro mult_le_mono) simp_all
  then have "unat x * unat y + unat c < 2 ^ 64" using assms(3) by simp
  then show ?thesis using dword_mult_exact [OF assms(1,2)] unat_plus_exact [of "x * y" c] by simp
qed

lemma dword_add_exact:
  fixes x y :: u64
  assumes "unat x < 2 ^ 32" "unat y < 2 ^ 32"
  shows "unat (x + y) = unat x + unat y"
  using assms by (intro unat_plus_exact) simp

lemma dword_add3_exact:
  fixes x y z :: u64
  assumes "unat x < 2 ^ 32" "unat y < 2 ^ 32" "unat z < 2 ^ 32"
  shows "unat (x + y + z) = unat x + unat y + unat z"
  using assms by (subst unat_plus_exact) (simp_all add: dword_add_exact)

lemma push32_or_lo:
  fixes a b :: u64
  assumes "unat b < 2 ^ 32"
  shows "unat (push_bit 32 a OR b) = unat (a AND 0xFFFFFFFF) * 2 ^ 32 + unat b"
proof -
  have "push_bit 32 a = push_bit 32 (a AND 0xFFFFFFFF)"
    unfolding mask32 by (rule bit_word_eqI) (auto simp: bit_simps)
  then show ?thesis using push32_or [OF lo_lt assms, of a] by simp
qed

lemma mul_portable_exact:
  assumes "mul_portable a b = (low, high)"
  shows "unat high * 2 ^ 64 + unat low = unat a * unat b"
proof -
  define aL aH bL bH where s: "aL = a AND 0xFFFFFFFF" "aH = drop_bit 32 a" "bL = b AND 0xFFFFFFFF" "bH = drop_bit 32 b"
  have lt: "unat aL < 2 ^ 32" "unat aH < 2 ^ 32" "unat bL < 2 ^ 32" "unat bH < 2 ^ 32"
    unfolding s by (rule lo_lt hi_lt)+
  define p1 where "p1 = aL * bL"
  define p2 where "p2 = aH * bL + drop_bit 32 p1"
  define p3 where "p3 = aL * bH"
  define p4 where "p4 = aH * bH + drop_bit 32 p3"
  define r1 where "r1 = (p2 AND 0xFFFFFFFF) + (p3 AND 0xFFFFFFFF)"
  define r2 where "r2 = drop_bit 32 p2 + (p4 AND 0xFFFFFFFF) + drop_bit 32 r1"
  define r3 where "r3 = drop_bit 32 p4 + drop_bit 32 r2"
  have low: "low = push_bit 32 r1 OR (p1 AND 0xFFFFFFFF)"
    and high: "high = (r2 AND 0xFFFFFFFF) OR push_bit 32 r3"
    using assms unfolding mul_portable_def Let_def
    by (simp_all add: s p1_def p2_def p3_def p4_def r1_def r2_def r3_def)
  have u: "unat p1 = unat aL * unat bL" "unat p2 = unat aH * unat bL + unat (drop_bit 32 p1)"
    "unat p3 = unat aL * unat bH" "unat p4 = unat aH * unat bH + unat (drop_bit 32 p3)"
    unfolding p1_def p2_def p3_def p4_def
    by (intro dword_mult_exact mul_add_exact lt hi_lt)+
  have v: "unat r1 = unat (p2 AND 0xFFFFFFFF) + unat (p3 AND 0xFFFFFFFF)"
    "unat r2 = unat (drop_bit 32 p2) + unat (p4 AND 0xFFFFFFFF) + unat (drop_bit 32 r1)"
    "unat r3 = unat (drop_bit 32 p4) + unat (drop_bit 32 r2)"
    unfolding r1_def r2_def r3_def by (intro dword_add_exact dword_add3_exact lo_lt hi_lt)+
  note prod = long_product_nat [OF lo_hi [of p1, unfolded u(1)] lo_hi [of p2, unfolded u(2)]
      lo_hi [of p3, unfolded u(3)] lo_hi [of p4, unfolded u(4)] lo_hi [of r1, unfolded v(1)] lo_hi [of r2, unfolded v(2)]]
  have split: "unat aH * 2 ^ 32 + unat aL = unat a" "unat bH * 2 ^ 32 + unat bL = unat b"
    using lo_hi [of a] lo_hi [of b] by (simp_all add: s mult.commute)
  have total: "(unat (r2 AND 0xFFFFFFFF) + unat r3 * 2 ^ 32) * (2 ^ 32 * 2 ^ 32)
      + (unat (r1 AND 0xFFFFFFFF) * 2 ^ 32 + unat (p1 AND 0xFFFFFFFF)) = unat a * unat b"
    using prod by (simp only: v(3) split)
  have "unat a * unat b < 2 ^ 64 * 2 ^ 64" by (intro mult_strict_mono) simp_all
  then have "unat r3 < 2 ^ 32" using total by simp
  then have "unat (r3 AND 0xFFFFFFFF) = unat r3" by (simp add: mask32 unat_and_mask)
  then have "unat high = unat (r2 AND 0xFFFFFFFF) + unat r3 * 2 ^ 32"
    using push32_or_lo [OF lo_lt, of r3 r2] by (simp add: high or.commute)
  moreover have "unat low = unat (r1 AND 0xFFFFFFFF) * 2 ^ 32 + unat (p1 AND 0xFFFFFFFF)"
    unfolding low by (rule push32_or_lo [OF lo_lt])
  ultimately show ?thesis using total by simp
qed

lemma mul_bodies_agree: "mul_portable a b = mul_x86_64 a b"
proof -
  obtain lo hi lo' hi' where m: "mul_portable a b = (lo, hi)" "mul128 a b = (lo', hi')"
    by (metis surj_pair)
  then have "lo = lo' \<and> hi = hi'"
    using mul_portable_exact [OF m(1)] mul128_exact [OF m(2)] two_words_unique by metis
  with m show ?thesis by (simp add: mul_x86_64_def)
qed

subsection \<open>Comparing a hash with a difficulty\<close>

lemma cadd_iff: "cadd a b \<longleftrightarrow> 2 ^ 64 \<le> unat a + unat b"
  by (simp only: cadd_def add_wraps_iff)

lemma cadc_iff: "cadc a b c \<longleftrightarrow> 2 ^ 64 \<le> unat a + unat b + of_bool c"
proof (cases "a + b < a")
  case True
  with cadd_iff [of a b] show ?thesis by (simp add: cadc_def cadd_def)
next
  case False
  with add_carry [of a b] have s: "unat a + unat b = unat (a + b)" by simp
  have "a + b = -1 \<longleftrightarrow> unat (a + b) = 2 ^ 64 - 1"
    using unat_max64 by (metis word_unat_eqI)
  with False show ?thesis
    using unat_u64_lt [of "a + b"] by (auto simp: cadc_def s simp del: unat_u64_lt)
qed

lemma carry_chain_nat:
  fixes B c1 c2 c3 :: nat
  assumes lt: "l0 < B" "h0 + l1 < 2 * B" "h1 + l2 + 1 < 2 * B" "h2 + l3 + 1 < 2 * B"
    and c1: "c1 = of_bool (B \<le> h0 + l1)"
    and c2: "c2 = of_bool (B \<le> h1 + l2 + c1)"
    and c3: "c3 = of_bool (B \<le> h2 + l3 + c2)"
  shows "((h2 + l3) * B + (h1 + l2)) * B * B + (h0 + l1) * B + l0 < B * B * B * B \<longleftrightarrow> c3 = 0"
proof -
  define s1 s2 s3 where "s1 = h0 + l1 - c1 * B" "s2 = h1 + l2 + c1 - c2 * B" "s3 = h2 + l3 + c2 - c3 * B"
  have s: "h0 + l1 = s1 + c1 * B" "h1 + l2 + c1 = s2 + c2 * B" "h2 + l3 + c2 = s3 + c3 * B"
    by (auto simp: s1_s2_s3_def c1 c2 c3)
  have b: "s1 < B" "s2 < B" "s3 < B"
    using lt by (auto simp: s1_s2_s3_def c1 c2 c3 of_bool_def split: if_splits)
  have "((h2 + l3) * B + (h1 + l2)) * B * B + (h0 + l1) * B + l0
      + (c2 * B * B * B + c1 * B * B)
    = (h2 + l3 + c2) * B * B * B + (h1 + l2 + c1) * B * B + (h0 + l1) * B + l0"
    by (simp add: algebra_simps)
  also have "\<dots> = c3 * B * B * B * B + (((s3 * B + s2) * B + s1) * B + l0) + (c2 * B * B * B + c1 * B * B)"
    unfolding s by (simp add: algebra_simps)
  finally have t: "((h2 + l3) * B + (h1 + l2)) * B * B + (h0 + l1) * B + l0
      = c3 * B * B * B * B + (((s3 * B + s2) * B + s1) * B + l0)" by linarith
  have "((s3 * B + s2) * B + s1) * B + l0 < B * B * B * B"
    by (intro digit_lt b lt(1))
  then show ?thesis unfolding t by (cases "c3 = 0") (auto simp: c3)
qed

lemma check_hash_64_iff: "check_hash_64 h d \<longleftrightarrow> hash_value h * unat d < 2 ^ 256"
proof -
  define w where "w = hash_word h"
  obtain l0 h0 l1 h1 l2 h2 l3 h3 where m: "mul128 (w 0) d = (l0, h0)" "mul128 (w 1) d = (l1, h1)"
    "mul128 (w 2) d = (l2, h2)" "mul128 (w 3) d = (l3, h3)"
    by (metis surj_pair)
  note e = mul128_exact [OF m(1)] mul128_exact [OF m(2)] mul128_exact [OF m(3)] mul128_exact [OF m(4)]
  let ?B = "2 ^ 64 :: nat"
  have v: "hash_value h * unat d = unat h3 * ?B * ?B * ?B * ?B
      + (((unat h2 + unat l3) * ?B + (unat h1 + unat l2)) * ?B * ?B + (unat h0 + unat l1) * ?B + unat l0)"
  proof -
    have "hash_value h * unat d = unat (w 0) * unat d + unat (w 1) * unat d * ?B
      + unat (w 2) * unat d * ?B * ?B + unat (w 3) * unat d * ?B * ?B * ?B"
      by (simp add: hash_value_def w_def algebra_simps)
    then show ?thesis unfolding e [symmetric] by (simp add: algebra_simps)
  qed
  have B4: "(2::nat) ^ 256 = ?B * ?B * ?B * ?B" by simp
  show ?thesis
  proof (cases "h3 = 0")
    case True
    have "check_hash_64 h d \<longleftrightarrow> \<not> cadc h2 l3 (cadc h1 l2 (cadd h0 l1))"
      using m True by (simp add: check_hash_64_def mul_x86_64_def w_def)
    also have "\<dots> \<longleftrightarrow> ((unat h2 + unat l3) * ?B + (unat h1 + unat l2)) * ?B * ?B
        + (unat h0 + unat l1) * ?B + unat l0 < ?B * ?B * ?B * ?B"
      using unat_u64_lt [of h0] unat_u64_lt [of l1] unat_u64_lt [of h1] unat_u64_lt [of l2]
        unat_u64_lt [of h2] unat_u64_lt [of l3] unat_u64_lt [of l0]
      by (subst carry_chain_nat [OF _ _ _ _ refl refl refl])
        (simp_all add: cadd_iff cadc_iff del: unat_u64_lt)
    finally show ?thesis using True by (simp only: v B4) simp
  next
    case False
    then have "1 \<le> unat h3" using unat_0_iff [of h3] by linarith
    then have "1 * ?B * ?B * ?B * ?B \<le> unat h3 * ?B * ?B * ?B * ?B" by (intro mult_le_mono1)
    then have "\<not> hash_value h * unat d < 2 ^ 256" unfolding v B4 by linarith
    moreover have "\<not> check_hash_64 h d"
      using m False by (simp add: check_hash_64_def mul_x86_64_def w_def)
    ultimately show ?thesis by simp
  qed
qed

lemma shift_in_word:
  fixes v :: "512 word" and w :: u64
  assumes "unat v < 2 ^ k" "k + 64 \<le> 512"
  shows "unat (push_bit 64 v OR ucast w) = unat v * 2 ^ 64 + unat w"
    and "unat (push_bit 64 v OR ucast w) < 2 ^ (k + 64)"
proof -
  have w: "unat (ucast w :: 512 word) = unat w" by (simp add: unat_ucast_up)
  have lt: "unat v * 2 ^ 64 + unat w < 2 ^ k * 2 ^ 64"
    using assms(1) by (intro digit_lt) simp_all
  also have "\<dots> \<le> 2 ^ 512" unfolding power_add [symmetric] by (intro power_increasing assms(2)) simp
  finally have "unat v * 2 ^ 64 + unat w < 2 ^ 512" .
  then have p: "unat (push_bit 64 v) = unat v * 2 ^ 64"
    by (simp add: unat_push_bit_mod)
  show e: "unat (push_bit 64 v OR ucast w) = unat v * 2 ^ 64 + unat w"
    using \<open>unat v * 2 ^ 64 + unat w < 2 ^ 512\<close> unat_plus_exact [of "push_bit 64 v" "ucast w"]
    by (simp add: or_is_plus w p)
  show "unat (push_bit 64 v OR ucast w) < 2 ^ (k + 64)"
    unfolding e power_add by (rule lt)
qed

lemma check_hash_128_iff: "check_hash_128 h d \<longleftrightarrow> hash_value h * unat d < 2 ^ 256"
proof -
  define v1 v2 v3 v4 :: "512 word" where
    "v1 = push_bit 64 0 OR ucast (hash_word h 3)" "v2 = push_bit 64 v1 OR ucast (hash_word h 2)"
    "v3 = push_bit 64 v2 OR ucast (hash_word h 1)" "v4 = push_bit 64 v3 OR ucast (hash_word h 0)"
  note v = v1_v2_v3_v4_def
  have e1: "unat v1 = unat (hash_word h 3)" "unat v1 < 2 ^ 64"
    using shift_in_word [of 0 0 "hash_word h 3"] by (simp_all add: v)
  have e2: "unat v2 = unat v1 * 2 ^ 64 + unat (hash_word h 2)" "unat v2 < 2 ^ 128"
    using shift_in_word [OF e1(2), of "hash_word h 2"] by (simp_all add: v)
  have e3: "unat v3 = unat v2 * 2 ^ 64 + unat (hash_word h 1)" "unat v3 < 2 ^ 192"
    using shift_in_word [OF e2(2), of "hash_word h 1"] by (simp_all add: v)
  have e4: "unat v4 = unat v3 * 2 ^ 64 + unat (hash_word h 0)" "unat v4 < 2 ^ 256"
    using shift_in_word [OF e3(2), of "hash_word h 0"] by (simp_all add: v)
  have hv: "unat v4 = hash_value h"
    by (simp add: hash_value_def e1(1) e2(1) e3(1) e4(1))
  have d: "unat (ucast d :: 512 word) = unat d" "unat d < 2 ^ 128"
    using unsigned_less [where ?'a = nat and w = d] by (simp_all add: unat_ucast_up)
  have "unat v4 * unat d < 2 ^ 256 * 2 ^ 128"
    by (intro mult_strict_mono e4(2) d(2)) simp_all
  also have "\<dots> < (2::nat) ^ 512" by simp
  finally have p: "unat (v4 * ucast d) = hash_value h * unat d"
    by (simp add: unat_times_exact d hv)
  have m: "unat (ucast (-1 :: 256 word) :: 512 word) = 2 ^ 256 - 1"
    by (simp add: unat_ucast_up unsigned_minus_1_eq_mask mask_eq_exp_minus_1)
  have "check_hash_128 h d \<longleftrightarrow> v4 * ucast d \<le> ucast (-1 :: 256 word)"
    by (simp add: check_hash_128_def v)
  then show ?thesis unfolding word_le_nat_alt p m by (auto simp: less_Suc_eq_le [symmetric])
qed

lemma check_hash_iff_aux: "check_hash h d \<longleftrightarrow> hash_value h * unat d < 2 ^ 256"
proof (cases "d \<le> ucast (-1 :: u64)")
  case True
  have "unat (ucast (-1 :: u64) :: difficulty_type) = 2 ^ 64 - 1"
    by (simp add: unat_ucast_up unat_max64)
  with True have "unat d \<le> 2 ^ 64 - 1" by (simp only: word_le_nat_alt)
  then have "unat (ucast d :: u64) = unat d" by (simp add: unat_ucast_mod)
  with True show ?thesis by (simp add: check_hash_def check_hash_64_iff)
qed (simp add: check_hash_def check_hash_128_iff)

subsection \<open>The next difficulty\<close>

lemma resize_take: "n \<le> length xs \<Longrightarrow> vector_resize n xs = take n xs"
  by (simp add: vector_resize_def)

lemma window_lists:
  "length cds = length ts \<Longrightarrow>
   (if DIFFICULTY_WINDOW < length ts then (vector_resize DIFFICULTY_WINDOW ts, vector_resize DIFFICULTY_WINDOW cds) else (ts, cds))
   = (take DIFFICULTY_WINDOW ts, take DIFFICULTY_WINDOW cds)"
  by (simp add: resize_take)

lemma cut_window_bounds:
  assumes "cut_window n = (b, e)" "2 \<le> n" "n \<le> DIFFICULTY_WINDOW"
  shows "b + 2 \<le> e" "e \<le> n"
  using assms by (auto simp: cut_window_def DIFFICULTY_WINDOW_def DIFFICULTY_CUT_def Let_def split: if_splits)

lemma time_span_exact:
  fixes ts :: "u64 list"
  assumes "sorted ts" "b \<le> e" "e < length ts"
  shows "unat (if ts ! e - ts ! b = 0 then 1 else ts ! e - ts ! b) = max 1 (unat (ts ! e) - unat (ts ! b))"
proof -
  have le: "ts ! b \<le> ts ! e" using assms by (simp add: sorted_nth_mono)
  then have s: "unat (ts ! e - ts ! b) = unat (ts ! e) - unat (ts ! b)" by (rule unat_sub)
  show ?thesis
  proof (cases "ts ! e - ts ! b = 0")
    case True
    then show ?thesis using s by simp
  next
    case False
    then have "unat (ts ! e - ts ! b) \<noteq> 0" by (simp add: unat_0_iff)
    with False s show ?thesis by simp
  qed
qed

lemma increasing_work:
  fixes cds :: "'a::len word list"
  assumes "sorted_wrt (<) cds" "b < e" "e < length cds"
  shows "unat (cds ! e - cds ! b) = unat (cds ! e) - unat (cds ! b)" "cds ! e - cds ! b \<noteq> 0"
    "0 < unat (cds ! e) - unat (cds ! b)"
proof -
  have lt: "cds ! b < cds ! e" using assms by (simp add: sorted_wrt_nth_less)
  then show "unat (cds ! e - cds ! b) = unat (cds ! e) - unat (cds ! b)" by (intro unat_sub) simp
  show "cds ! e - cds ! b \<noteq> 0" using lt by auto
  show "0 < unat (cds ! e) - unat (cds ! b)" using lt by (simp add: word_less_nat_alt)
qed

lemma ceil_div_bounds:
  fixes x s :: nat
  assumes "0 < s"
  shows "x \<le> (x + s - 1) div s * s" "(x + s - 1) div s * s < x + s"
proof -
  have "(x + s - 1) div s * s + (x + s - 1) mod s = x + s - 1" by simp
  moreover have "(x + s - 1) mod s < s" using assms by simp
  ultimately show "x \<le> (x + s - 1) div s * s" "(x + s - 1) div s * s < x + s"
    using assms by linarith+
qed

lemma window_span_pos: "0 < window_span ts"
  by (simp add: window_span_def Let_def less_max_iff_disj split: prod.splits)

lemma window_cut:
  fixes cds :: "'a::len word list"
  assumes "length cds = length ts" "2 \<le> length ts" "sorted_wrt (<) cds"
  obtains b e span work where "cut_window (min (length ts) DIFFICULTY_WINDOW) = (b, e)"
    "span = (let s = sort (take DIFFICULTY_WINDOW ts) ! (e - 1) - sort (take DIFFICULTY_WINDOW ts) ! b
             in if s = 0 then 1 else s)"
    "work = take DIFFICULTY_WINDOW cds ! (e - 1) - take DIFFICULTY_WINDOW cds ! b"
    "unat span = window_span ts" "unat work = window_work cds" "work \<noteq> 0"
proof -
  define n where "n = min (length ts) DIFFICULTY_WINDOW"
  define T where "T = sort (take DIFFICULTY_WINDOW ts)"
  define C where "C = take DIFFICULTY_WINDOW cds"
  obtain b e where c: "cut_window n = (b, e)" by (metis surj_pair)
  have n: "2 \<le> n" "n \<le> DIFFICULTY_WINDOW" using assms(2) by (simp_all add: n_def DIFFICULTY_WINDOW_def)
  note be = cut_window_bounds [OF c n]
  have len: "length T = n" "length C = n" using assms(1) by (simp_all add: n_def T_def C_def)
  define span where "span = (if T ! (e - 1) - T ! b = 0 then 1 else T ! (e - 1) - T ! b)"
  have s: "unat span = window_span ts"
    unfolding span_def using be len c
    by (subst time_span_exact) (auto simp: T_def window_span_def n_def Let_def)
  have "sorted_wrt (<) C" "b < e - 1" "e - 1 < length C"
    using assms(3) be len by (simp_all add: C_def sorted_wrt_take)
  note iw = increasing_work [OF this]
  show thesis
  proof (rule that [of b e span "C ! (e - 1) - C ! b"])
    show "unat (C ! (e - 1) - C ! b) = window_work cds"
      using iw c len by (simp add: window_work_def Let_def C_def [symmetric])
  qed (use c iw s in \<open>simp_all add: n_def span_def T_def C_def Let_def\<close>)
qed

lemma window_length: "2 \<le> length ts \<Longrightarrow> \<not> min (length ts) DIFFICULTY_WINDOW \<le> Suc 0"
  by (simp add: DIFFICULTY_WINDOW_def)

lemma next_difficulty_eq:
  fixes target :: u64
  assumes "length cds = length ts" "2 \<le> length ts" "sorted_wrt (<) cds"
  defines "q \<equiv> (window_work cds * unat target + window_span ts - 1) div window_span ts"
  shows "\<exists>d. next_difficulty ts cds target = Some d \<and> unat d = (if q < 2 ^ 128 then q else 0)"
proof -
  obtain b e span work where c: "cut_window (min (length ts) DIFFICULTY_WINDOW) = (b, e)"
    and sw: "span = (let s = sort (take DIFFICULTY_WINDOW ts) ! (e - 1) - sort (take DIFFICULTY_WINDOW ts) ! b
             in if s = 0 then 1 else s)"
      "work = take DIFFICULTY_WINDOW cds ! (e - 1) - take DIFFICULTY_WINDOW cds ! b"
    and s: "unat span = window_span ts" and w: "unat work = window_work cds" "work \<noteq> 0"
    using window_cut [OF assms(1-3)] .
  have s0: "0 < unat span" unfolding s by (rule window_span_pos)
  define res where "res = ((ucast work :: 256 word) * ucast target + ucast span - 1) div ucast span"
  have u: "unat (ucast work :: 256 word) = unat work" "unat (ucast target :: 256 word) = unat target"
    "unat (ucast span :: 256 word) = unat span"
    by (simp_all add: unat_ucast_up)
  have "unat work * unat target < 2 ^ 128 * 2 ^ 64"
    using unsigned_less [where ?'a = nat and w = work] by (intro mult_strict_mono) simp_all
  then have big: "unat work * unat target + unat span < 2 ^ 256"
    using unat_u64_lt [of span] by (simp del: unat_u64_lt)
  then have "unat ((ucast work :: 256 word) * ucast target) = unat work * unat target"
    by (simp add: unat_times_exact u)
  then have "unat ((ucast work :: 256 word) * ucast target + ucast span) = unat work * unat target + unat span"
    using big by (simp add: unat_plus_exact u)
  moreover then have "unat ((ucast work :: 256 word) * ucast target + ucast span - 1)
      = unat work * unat target + unat span - 1"
    using s0 by (subst unat_sub) (simp_all add: word_le_nat_alt)
  ultimately have "unat res = q"
    by (simp add: res_def unat_div_distrib u q_def s w)
  have "next_difficulty ts cds target = (if ucast (-1 :: difficulty_type) < res then Some 0 else Some (ucast res))"
    using assms(1) c w(2) window_length [OF assms(2)] unfolding next_difficulty_def window_lists [OF assms(1)]
    by (simp add: Let_def res_def sw)
  moreover have "ucast (-1 :: difficulty_type) < res \<longleftrightarrow> \<not> q < 2 ^ 128"
    by (auto simp: word_less_nat_alt \<open>unat res = q\<close> unat_ucast_up unsigned_minus_1_eq_mask
        mask_eq_exp_minus_1)
  moreover have "q < 2 ^ 128 \<Longrightarrow> unat (ucast res :: difficulty_type) = q"
    using \<open>unat res = q\<close> by (simp add: unat_ucast_mod)
  ultimately show ?thesis by simp
qed

lemma sum_minus_one_wraps:
  fixes low span :: u64
  assumes "0 < unat span"
  shows "low + span - 1 < low \<longleftrightarrow> 2 ^ 64 \<le> unat low + unat span - 1"
    and "unat low + unat span - 1 < 2 ^ 64 \<Longrightarrow> unat (low + span - 1) = unat low + unat span - 1"
proof -
  have e: "low + span - 1 = low + (span - 1)" by simp
  have s: "unat (span - 1) = unat span - 1"
    using assms by (subst unat_sub) (simp_all add: word_le_nat_alt)
  show "low + span - 1 < low \<longleftrightarrow> 2 ^ 64 \<le> unat low + unat span - 1"
    using assms cadd_iff [of low "span - 1"] by (simp add: e cadd_def s)
  show "unat (low + span - 1) = unat low + unat span - 1" if "unat low + unat span - 1 < 2 ^ 64"
    unfolding e using that assms by (subst unat_plus_exact) (simp_all add: s)
qed

lemma next_difficulty_64_eq:
  fixes target :: u64
  assumes "length cds = length ts" "2 \<le> length ts" "sorted_wrt (<) cds"
  defines "x \<equiv> window_work cds * unat target + window_span ts - 1"
  shows "\<exists>d. next_difficulty_64 ts cds target = Some d \<and>
    unat d = (if x < 2 ^ 64 then x div window_span ts else 0)"
proof -
  obtain b e span work where c: "cut_window (min (length ts) DIFFICULTY_WINDOW) = (b, e)"
    and sw: "span = (let s = sort (take DIFFICULTY_WINDOW ts) ! (e - 1) - sort (take DIFFICULTY_WINDOW ts) ! b
             in if s = 0 then 1 else s)"
      "work = take DIFFICULTY_WINDOW cds ! (e - 1) - take DIFFICULTY_WINDOW cds ! b"
    and s: "unat span = window_span ts" and w: "unat work = window_work cds" "work \<noteq> 0"
    using window_cut [OF assms(1-3)] .
  have s0: "0 < unat span" unfolding s by (rule window_span_pos)
  obtain low high where m: "mul128 work target = (low, high)" by (metis surj_pair)
  note p = mul128_exact [OF m, unfolded w(1)]
  have r: "next_difficulty_64 ts cds target = (if high \<noteq> 0 \<or> low + span - 1 < low then Some 0
      else Some ((low + span - 1) div span))"
    using assms(1) c w(2) m window_length [OF assms(2)] unfolding next_difficulty_64_def window_lists [OF assms(1)]
    by (simp add: Let_def sw mul_x86_64_def)
  show ?thesis
  proof (cases "high = 0")
    case True
    then have x: "x = unat low + unat span - 1" using p by (simp add: x_def s)
    show ?thesis
      using True r sum_minus_one_wraps [OF s0, of low] by (auto simp: x unat_div_distrib s)
  next
    case False
    then have "1 \<le> unat high" using unat_0_iff [of high] by linarith
    then have "2 ^ 64 \<le> window_work cds * unat target"
      unfolding p [symmetric] by simp
    then have "\<not> x < 2 ^ 64" using window_span_pos [of ts] by (simp add: x_def)
    with False r show ?thesis by simp
  qed
qed

lemma window_work_map_ucast:
  "window_work (map ucast cds :: difficulty_type list) = window_work cds"
  if "length cds = length ts" "2 \<le> length ts" for cds :: "u64 list"
proof -
  define n where "n = length (take DIFFICULTY_WINDOW cds)"
  obtain b e where c: "cut_window n = (b, e)" by (metis surj_pair)
  have n: "2 \<le> n" "n \<le> DIFFICULTY_WINDOW" using that by (simp_all add: n_def DIFFICULTY_WINDOW_def)
  have "b < length (take DIFFICULTY_WINDOW cds)" "e - 1 < length (take DIFFICULTY_WINDOW cds)"
    using cut_window_bounds [OF c n] unfolding n_def by linarith+
  then show ?thesis
    using c by (simp add: window_work_def Let_def n_def take_map [symmetric] unat_ucast_up)
qed

subsection \<open>Hexadecimal text\<close>

lemma hex_digit_value_nth: "n < 16 \<Longrightarrow> hex_digit_value (''0123456789abcdef'' ! n) = n"
proof -
  have "\<forall>n \<in> set [0..<16]. hex_digit_value (''0123456789abcdef'' ! n) = n" by code_simp
  then show "n < 16 \<Longrightarrow> hex_digit_value (''0123456789abcdef'' ! n) = n" by simp
qed

lemma nibble: "unat (v AND 0xf :: difficulty_type) = unat v mod 16"
proof -
  have m: "(0xf :: difficulty_type) = mask 4" by (simp add: mask_numeral)
  show ?thesis unfolding m by (simp add: unat_and_mask)
qed

lemma hex_digits_value:
  "unat v < 16 ^ n \<Longrightarrow> foldr (\<lambda>c a. 16 * a + hex_digit_value c) (hex_digits n v) 0 = unat v"
proof (induction n v rule: hex_digits.induct)
  case (2 n v)
  have "unat (drop_bit 4 v) < 16 ^ n" using "2.prems" by (simp add: unat_drop_bit)
  then show ?case
    using "2.IH" mult_div_mod_eq [of 16 "unat v"]
    by (cases "0 < v") (simp_all add: hex_digit_value_nth nibble unat_drop_bit word_greater_zero_iff)
qed simp

subsection \<open>Properties\<close>

text \<open>The portable 64 by 64 bit multiplication computes the same two words as the x86-64 one, and
  they are the exact 128-bit product.\<close>
lemma mul_correct:
  "mul_portable a b = mul_x86_64 a b \<and>
   unat (snd (mul_x86_64 a b)) * 2 ^ 64 + unat (fst (mul_x86_64 a b)) = unat a * unat b"
  using mul128_exact [of a b "fst (mul128 a b)" "snd (mul128 a b)"]
  by (simp add: mul_bodies_agree mul_x86_64_def)

text \<open>C3: a hash passes the proof-of-work check for a difficulty, on the 64-bit fast path as well as
  on the 128-bit path, exactly when its 256-bit value times the difficulty stays below \<open>2^256\<close>.\<close>
theorem check_hash_iff: "check_hash h d \<longleftrightarrow> hash_value h * unat d < 2 ^ 256"
  by (rule check_hash_iff_aux)

text \<open>C29: on a window of at least two blocks with increasing cumulative difficulty the next difficulty is
  the window's work times the target time, divided by the window's time span and rounded up, as
  long as the numerator of the rounding fits 128 bits.\<close>
theorem next_difficulty_ceiling:
  assumes "length cds = length ts" "2 \<le> length ts" "sorted_wrt (<) cds"
    and "window_work cds * unat target + window_span ts \<le> 2 ^ 128"
  shows "\<exists>d. next_difficulty ts cds target = Some d \<and>
    window_work cds * unat target \<le> unat d * window_span ts \<and>
    unat d * window_span ts < window_work cds * unat target + window_span ts"
proof -
  let ?q = "(window_work cds * unat target + window_span ts - 1) div window_span ts"
  have "?q \<le> window_work cds * unat target + window_span ts - 1" by simp
  also have "\<dots> < 2 ^ 128" using assms(4) window_span_pos [of ts] by linarith
  finally have "?q < 2 ^ 128" .
  then show ?thesis
    using next_difficulty_eq [OF assms(1-3), of target]
      ceil_div_bounds [OF window_span_pos [of ts], of "window_work cds * unat target"] by auto
qed

theorem next_difficulty_ceiling_witness:
  "\<exists>d. next_difficulty [100, 340, 220] [10, 20, 35] 120 = Some d \<and>
    window_work [10, 20, 35 :: difficulty_type] * unat (120 :: u64) \<le> unat d * window_span [100, 340, 220] \<and>
    unat d * window_span [100, 340, 220]
      < window_work [10, 20, 35 :: difficulty_type] * unat (120 :: u64) + window_span [100, 340, 220]"
  by (rule next_difficulty_ceiling)
    (simp_all add: window_work_def window_span_def cut_window_def DIFFICULTY_WINDOW_def DIFFICULTY_CUT_def)

text \<open>The order of the timestamps in the window has no influence on the next difficulty.\<close>
theorem next_difficulty_order_irrelevant:
  assumes "mset ts = mset ts'" "length ts \<le> DIFFICULTY_WINDOW"
  shows "next_difficulty ts cds target = next_difficulty ts' cds target"
proof -
  have "length ts = length ts'" using assms(1) by (metis size_mset)
  moreover have "sort ts = sort ts'" using assms(1) by (metis properties_for_sort mset_sort sorted_sort)
  ultimately show ?thesis using assms(2) by (simp add: next_difficulty_def Let_def)
qed

text \<open>C30: the 64-bit routine and the 128-bit routine agree wherever the 64-bit one does not report an
  overflow.\<close>
theorem next_difficulty_64_agrees:
  assumes "length cds = length ts" "2 \<le> length ts" "sorted_wrt (<) cds"
    and "next_difficulty_64 ts cds target = Some d" "d \<noteq> 0"
  shows "next_difficulty ts (map ucast cds) target = Some (ucast d)"
proof -
  let ?x = "window_work cds * unat target + window_span ts - 1"
  obtain d' where "next_difficulty_64 ts cds target = Some d'"
    "unat d' = (if ?x < 2 ^ 64 then ?x div window_span ts else 0)"
    using next_difficulty_64_eq [OF assms(1-3), of target] by blast
  with assms(4,5) have d: "unat d = ?x div window_span ts"
    by (auto split: if_splits simp: unat_0_iff)
  have srt: "sorted_wrt (<) (map ucast cds :: difficulty_type list)"
    using assms(3) unfolding sorted_wrt_map
    by (rule sorted_wrt_mono_rel [rotated]) (simp add: word_less_nat_alt unat_ucast_up)
  obtain e where "next_difficulty ts (map ucast cds) target = Some e"
    "unat e = (if ?x div window_span ts < 2 ^ 128 then ?x div window_span ts else 0)"
    using next_difficulty_eq [OF _ assms(2) srt, of target] assms(1)
    by (auto simp: window_work_map_ucast [OF assms(1,2)])
  moreover have "?x div window_span ts < 2 ^ 128"
    unfolding d [symmetric] by (rule order.strict_trans [OF unat_u64_lt]) simp
  ultimately have "next_difficulty ts (map ucast cds) target = Some e" "unat e = unat (ucast d :: difficulty_type)"
    by (simp_all add: d unat_ucast_up)
  then show ?thesis by (auto intro: word_unat_eqI)
qed

theorem next_difficulty_64_agrees_witness:
  "next_difficulty [100, 340, 220] (map ucast [10, 20, 35 :: u64]) 120 = Some (ucast (13 :: u64))"
proof (rule next_difficulty_64_agrees)
  show "next_difficulty_64 [100, 340, 220] [10, 20, 35] 120 = Some 13" by code_simp
qed simp_all

text \<open>The hexadecimal text of a difficulty is \<open>0x\<close> and digits that read back as its value, with no
  digit dropped for any 128-bit value.\<close>
lemma hex_roundtrip: "take 2 (hex v) = ''0x'' \<and> hex_read (drop 2 (hex v)) = unat v"
proof -
  have "unat v < 16 ^ 32" using unsigned_less [where ?'a = nat and w = v] by simp
  note d = hex_digits_value [OF this]
  have "hex_digit_value (CHR ''0'') = 0" by code_simp
  then show ?thesis
    using d by (auto simp: hex_def hex_read_def Let_def foldl_conv_foldr)
qed

end
