(* ===== verification/Misc_Language.thy ===== *)
theory Misc_Language
  imports Hidering_Prelude "HOL-Library.Multiset"
begin

section \<open>Averages and medians (\<open>contrib/epee/include/misc_language.h\<close>)\<close>

text \<open>The overflow-safe average and the median of a vector, at the type \<open>uint64_t\<close>.\<close>

definition get_mid :: "u64 \<Rightarrow> u64 \<Rightarrow> u64" where
  "get_mid a b = a div 2 + b div 2 + ((a - 2 * (a div 2)) + (b - 2 * (b div 2))) div 2"

definition median :: "u64 list \<Rightarrow> u64" where
  "median v =
     (if v = [] then 0
      else if length v = 1 then v ! 0
      else let n = length v div 2; v = sort v
           in if length v mod 2 \<noteq> 0 then v ! n else get_mid (v ! (n - 1)) (v ! n))"

lemma unat_half: "unat (a div 2 :: u64) = unat a div 2"
  by (simp add: unat_div_distrib)

lemma unat_parity: "unat (a - 2 * (a div 2) :: u64) = unat a mod 2"
proof -
  have "unat (2 * (a div 2)) = 2 * (unat a div 2)"
    using unat_u64_lt [of a] by (subst unat_times_exact) (simp_all add: unat_half del: unat_u64_lt)
  then show ?thesis
    by (subst unat_sub) (simp_all add: word_le_nat_alt minus_mult_div_eq_mod)
qed

lemma half_sum: "a div 2 + b div 2 + (a mod 2 + b mod 2) div 2 = (a + b) div (2 :: nat)"
  by (rule div_add1_eq [symmetric])

lemma get_mid_exact: "unat (get_mid a b) = (unat a + unat b) div 2"
proof -
  let ?p = "(a - 2 * (a div 2)) + (b - 2 * (b div 2))"
  have p: "unat ?p = unat a mod 2 + unat b mod 2"
    by (subst unat_plus_exact) (auto simp: unat_parity)
  have lt: "unat a div 2 + unat b div 2 + (unat a mod 2 + unat b mod 2) div 2 < 2 ^ 64"
    using unat_u64_lt [of a] unat_u64_lt [of b] by (simp add: half_sum del: unat_u64_lt)
  have h: "unat (a div 2 + b div 2) = unat a div 2 + unat b div 2"
    using lt by (subst unat_plus_exact) (simp_all add: unat_half)
  have "unat (get_mid a b) = unat a div 2 + unat b div 2 + (unat a mod 2 + unat b mod 2) div 2"
    unfolding get_mid_def using lt by (subst unat_plus_exact) (simp_all add: h p unat_half)
  also have "\<dots> = (unat a + unat b) div 2" by (rule half_sum)
  finally show ?thesis .
qed

lemma median_perm: "mset v = mset w \<Longrightarrow> median v = median w"
proof -
  assume m: "mset v = mset w"
  then have "length v = length w" "v = [] \<longleftrightarrow> w = []" by (metis size_mset, auto)
  moreover have "sort v = sort w" using m by (metis properties_for_sort mset_sort sorted_sort)
  moreover have "length v = 1 \<Longrightarrow> v ! 0 = w ! 0"
    using m by (cases v; cases w) auto
  ultimately show ?thesis by (simp add: median_def)
qed

lemma median_between:
  assumes "\<forall>x \<in> set v. lo \<le> x \<and> x \<le> hi" "v \<noteq> []"
  shows "lo \<le> median v \<and> median v \<le> hi"
proof -
  have s: "\<And>i. i < length v \<Longrightarrow> lo \<le> sort v ! i \<and> sort v ! i \<le> hi"
    using assms(1) by (metis length_sort nth_mem set_sort)
  have "lo \<le> get_mid a b \<and> get_mid a b \<le> hi" if "lo \<le> a \<and> a \<le> hi" "lo \<le> b \<and> b \<le> hi" for a b
    using that by (auto simp: word_le_nat_alt get_mid_exact)
  moreover have "length v div 2 - 1 < length v" "length v div 2 < length v"
    using assms(2) by (cases v; simp)+
  ultimately show ?thesis
    using s assms by (simp add: median_def Let_def)
qed

end
