(* ===== verification/Emission.thy ===== *)
theory Emission
  imports Int_Util Misc_Language
begin

section \<open>Coin emission (\<open>src/cryptonote_basic/cryptonote_basic_impl.cpp\<close>, \<open>src/cryptonote_core/blockchain.cpp\<close>)\<close>

text \<open>
  The block subsidy with its halvings and the penalty for heavy blocks, the checks a miner
  transaction has to pass, and the running total of generated coins that every accepted block
  updates. A \<open>bool\<close> result with a reference argument becomes a constructor with its value; a failed
  \<open>assert\<close> (or a division by zero inside it) has its own constructor.
\<close>

definition MONEY_SUPPLY :: u64 where "MONEY_SUPPLY = 18000000000000000000"
definition HALVING_INTERVAL_LOCAL :: u64 where "HALVING_INTERVAL_LOCAL = 210000"
definition INITIAL_REWARD_LOCAL :: u64 where "INITIAL_REWARD_LOCAL = 42857142857143"

definition get_min_block_weight :: "u8 \<Rightarrow> u64" where
  "get_min_block_weight version =
     (if version < 2 then 20000 else if version < 5 then 60000 else 300000)"

definition get_max_tx_size :: u64 where "get_max_tx_size = 1000000"

function halvings_loop :: "u64 \<Rightarrow> u64 \<Rightarrow> u64 \<Rightarrow> u64 \<Rightarrow> u64" where
  "halvings_loop already_generated_coins coins_counted period_reward halvings =
     (if 0 < period_reward then
        let period_coins = period_reward * HALVING_INTERVAL_LOCAL in
        if already_generated_coins < coins_counted + period_coins then halvings
        else halvings_loop already_generated_coins (coins_counted + period_coins)
               (drop_bit 1 period_reward) (halvings + 1)
      else halvings)"
  by pat_completeness auto
termination
  by (relation "measure (\<lambda>(_, _, p, _). unat p)") (auto simp: unat_drop_bit word_less_nat_alt)

declare halvings_loop.simps [simp del]

datatype reward_result = Reward u64 | Weight_too_big | Assert_failed

definition base_block_reward :: "u64 \<Rightarrow> u64" where
  "base_block_reward already_generated_coins =
     (let halvings = halvings_loop already_generated_coins 0 INITIAL_REWARD_LOCAL 0;
          base = drop_bit (unat halvings) INITIAL_REWARD_LOCAL
      in if MONEY_SUPPLY < already_generated_coins + base then MONEY_SUPPLY - already_generated_coins
         else base)"

definition get_block_reward :: "u64 \<Rightarrow> u64 \<Rightarrow> u64 \<Rightarrow> u8 \<Rightarrow> reward_result" where
  "get_block_reward median_weight current_block_weight already_generated_coins version =
     (if MONEY_SUPPLY \<le> already_generated_coins then Reward 0
      else let base = base_block_reward already_generated_coins in
        if base = 0 then Reward 0
        else let full_reward_zone = get_min_block_weight version;
                 median_weight = (if median_weight < full_reward_zone then full_reward_zone else median_weight)
             in if current_block_weight \<le> median_weight then Reward base
                else if 2 * median_weight < current_block_weight then Weight_too_big
                else let multiplicand = (2 * median_weight - current_block_weight) * current_block_weight;
                         (product_lo, product_hi) = mul128 base multiplicand
                     in case div128_64 product_hi product_lo median_weight of
                          None \<Rightarrow> Assert_failed
                        | Some (q_hi, q_lo, _, _) \<Rightarrow>
                            (case div128_64 q_hi q_lo median_weight of
                               None \<Rightarrow> Assert_failed
                             | Some (reward_hi, reward_lo, _, _) \<Rightarrow>
                                 if reward_hi = 0 \<and> reward_lo \<le> base then Reward reward_lo
                                 else Assert_failed))"

subsection \<open>Miner transactions\<close>

fun check_outs_overflow_from :: "u64 \<Rightarrow> u64 list \<Rightarrow> bool" where
  "check_outs_overflow_from money [] = True"
| "check_outs_overflow_from money (amount # vout) =
     (if amount + money < money then False else check_outs_overflow_from (money + amount) vout)"

definition check_outs_overflow :: "u64 list \<Rightarrow> bool" where
  "check_outs_overflow vout = check_outs_overflow_from 0 vout"

definition get_outs_money_amount :: "u64 list \<Rightarrow> u64" where
  "get_outs_money_amount vout = foldl (+) 0 vout"

text \<open>
  The loop \<open>while (amount % 10 == 0) amount /= 10\<close> is entered with a non-zero amount and keeps it
  non-zero; the guard written here makes the function total.
\<close>

function strip_zeros :: "u64 \<Rightarrow> u64" where
  "strip_zeros amount = (if amount \<noteq> 0 \<and> amount mod 10 = 0 then strip_zeros (amount div 10) else amount)"
  by pat_completeness auto
termination
  by (relation "measure unat") (auto simp: unat_div_distrib unat_gt_0 intro!: div_less_dividend)

declare strip_zeros.simps [simp del]

definition is_valid_decomposed_amount :: "u64 \<Rightarrow> bool" where
  "is_valid_decomposed_amount amount = (if 0 = amount then False else strip_zeros amount < 10)"

definition HF_VERSION_EFFECTIVE_SHORT_TERM_MEDIAN_IN_PENALTY :: u8 where
  "HF_VERSION_EFFECTIVE_SHORT_TERM_MEDIAN_IN_PENALTY = 12"
definition HF_VERSION_EXACT_COINBASE :: u8 where "HF_VERSION_EXACT_COINBASE = 13"

text \<open>
  \<open>validate_miner_transaction\<close> reads the chain's effective median and the weights of the last
  blocks; both are arguments. Its result is the base reward it leaves in the reference argument and
  the flag \<open>partial_block_reward\<close>.
\<close>

definition validate_miner_transaction ::
  "u64 list \<Rightarrow> u64 \<Rightarrow> u64 \<Rightarrow> u64 \<Rightarrow> u64 \<Rightarrow> u64 list \<Rightarrow> u8 \<Rightarrow> (u64 \<times> bool) option" where
  "validate_miner_transaction vout cumulative_block_weight fee already_generated_coins
     m_current_block_cumul_weight_median last_blocks_weights version =
     (let money_in_use = foldl (+) 0 vout in
      if version = 3 \<and> \<not> list_all is_valid_decomposed_amount vout then None
      else let median_weight = (if HF_VERSION_EFFECTIVE_SHORT_TERM_MEDIAN_IN_PENALTY \<le> version
                                then m_current_block_cumul_weight_median else median last_blocks_weights)
           in case get_block_reward median_weight cumulative_block_weight already_generated_coins version of
                Weight_too_big \<Rightarrow> None
              | Assert_failed \<Rightarrow> None
              | Reward base_reward \<Rightarrow>
                  if base_reward + fee < money_in_use then None
                  else if version < 2 \<or> HF_VERSION_EXACT_COINBASE \<le> version then
                    (if base_reward + fee \<noteq> money_in_use then None else Some (base_reward, False))
                  else if \<not> money_in_use - fee \<le> base_reward then None
                  else Some (money_in_use - fee, base_reward + fee \<noteq> money_in_use))"

definition add_generated_coins :: "u64 \<Rightarrow> u64 \<Rightarrow> u64" where
  "add_generated_coins already_generated_coins base_reward =
     (if base_reward < MONEY_SUPPLY - already_generated_coins then already_generated_coins + base_reward
      else MONEY_SUPPLY)"

subsection \<open>The halving schedule\<close>

text \<open>
  \<open>period_reward k\<close> is the subsidy after \<open>k\<close> halvings and \<open>issued_before k\<close> the number of coins issued
  by \<open>k\<close> full periods; both are plain naturals. From the 46th halving on the subsidy is 0.
\<close>

definition period_reward :: "nat \<Rightarrow> nat" where
  "period_reward k = 42857142857143 div 2 ^ k"

fun issued_before :: "nat \<Rightarrow> nat" where
  "issued_before 0 = 0"
| "issued_before (Suc k) = issued_before k + period_reward k * 210000"

lemma period_reward_pos: "0 < period_reward k \<longleftrightarrow> k < 46"
proof -
  have "0 < period_reward k \<longleftrightarrow> 2 ^ k \<le> (42857142857143 :: nat)"
    by (simp add: period_reward_def div_greater_zero_iff)
  also have "\<dots> \<longleftrightarrow> k < 46"
  proof
    assume "2 ^ k \<le> (42857142857143 :: nat)"
    also have "\<dots> < 2 ^ 46" by simp
    finally show "k < 46" using power_less_imp_less_exp [of "2 :: nat" k 46] by simp
  next
    assume "k < 46"
    then have "(2 :: nat) ^ k \<le> 2 ^ 45" by (intro power_increasing) simp_all
    then show "2 ^ k \<le> (42857142857143 :: nat)" by simp
  qed
  finally show ?thesis .
qed

lemma issued_before_mono: "j \<le> k \<Longrightarrow> issued_before j \<le> issued_before k"
  by (rule lift_Suc_mono_le) simp_all

lemma issued_before_numeral: "issued_before (numeral n)
   = issued_before (pred_numeral n) + period_reward (pred_numeral n) * 210000"
  by (simp add: numeral_eq_Suc [of n])

lemma issued_total: "issued_before 46 = 17999999999994180000"
  by (simp add: issued_before_numeral period_reward_def)

lemma issued_before_end: "46 \<le> k \<Longrightarrow> issued_before k = issued_before 46"
proof (induction rule: dec_induct)
  case (step n)
  then show ?case using period_reward_pos [of n] by simp
qed simp

lemma issued_before_le: "issued_before k \<le> 17999999999994180000"
proof (cases "k \<le> 46")
  case True
  then show ?thesis using issued_before_mono [of k 46] issued_total by simp
next
  case False
  then show ?thesis using issued_before_end [of k] issued_total by simp
qed

lemma unat_period_reward: "unat (drop_bit k INITIAL_REWARD_LOCAL) = period_reward k"
  by (simp add: INITIAL_REWARD_LOCAL_def unat_drop_bit period_reward_def)

lemma unat_period_end:
  "unat (of_nat (issued_before k) + drop_bit k INITIAL_REWARD_LOCAL * HALVING_INTERVAL_LOCAL :: u64) = issued_before (Suc k)"
proof -
  have le: "issued_before k + period_reward k * 210000 \<le> 17999999999994180000"
    using issued_before_le [of "Suc k"] by simp
  have p: "unat (drop_bit k INITIAL_REWARD_LOCAL * HALVING_INTERVAL_LOCAL) = period_reward k * 210000"
    using le by (subst unat_times_exact) (simp_all add: unat_period_reward HALVING_INTERVAL_LOCAL_def)
  have i: "unat (of_nat (issued_before k) :: u64) = issued_before k"
    using le by (simp add: unat_of_nat)
  show ?thesis using le by (subst unat_plus_exact) (simp_all add: p i)
qed

lemma period_end: "of_nat (issued_before k) + drop_bit k INITIAL_REWARD_LOCAL * HALVING_INTERVAL_LOCAL
    = (of_nat (issued_before (Suc k)) :: u64)"
  using issued_before_le [of "Suc k"] by (intro word_unat_eqI) (simp add: unat_period_end unat_of_nat del: issued_before.simps)

lemma halvings_loop_at:
  assumes "issued_before k \<le> unat g" "unat g < issued_before (Suc k) \<or> k = 46" "k \<le> 46" "j \<le> k"
  shows "halvings_loop g (of_nat (issued_before j)) (drop_bit j INITIAL_REWARD_LOCAL) (of_nat j) = of_nat k"
  using assms(4)
proof (induction rule: inc_induct)
  case base
  show ?case
  proof (cases "k = 46")
    case True
    have "drop_bit 46 INITIAL_REWARD_LOCAL = 0" by (simp add: INITIAL_REWARD_LOCAL_def)
    with True show ?thesis by (simp add: halvings_loop.simps)
  next
    case False
    then have "g < of_nat (issued_before k) + drop_bit k INITIAL_REWARD_LOCAL * HALVING_INTERVAL_LOCAL"
      using assms(2) by (simp add: word_less_nat_alt unat_period_end del: issued_before.simps)
    then show ?thesis by (subst halvings_loop.simps) (simp add: Let_def)
  qed
next
  case (step j)
  have "issued_before (Suc j) \<le> unat g"
    using issued_before_mono [of "Suc j" k] assms(1) step by simp
  then have "\<not> g < of_nat (issued_before j) + drop_bit j INITIAL_REWARD_LOCAL * HALVING_INTERVAL_LOCAL"
    by (simp add: word_less_nat_alt unat_period_end del: issued_before.simps)
  moreover have "0 < drop_bit j INITIAL_REWARD_LOCAL"
    using step(2) assms(3) period_reward_pos [of j] by (simp add: word_less_nat_alt unat_period_reward)
  ultimately have "halvings_loop g (of_nat (issued_before j)) (drop_bit j INITIAL_REWARD_LOCAL) (of_nat j)
      = halvings_loop g (of_nat (issued_before (Suc j))) (drop_bit (Suc j) INITIAL_REWARD_LOCAL) (of_nat (Suc j))"
    by (subst halvings_loop.simps) (simp add: Let_def period_end drop_bit_drop_bit add.commute del: issued_before.simps)
  with step show ?case by simp
qed

lemma halving_period:
  obtains k where "issued_before k \<le> g" "g < issued_before (Suc k) \<or> k = 46" "k \<le> 46"
proof (cases "issued_before 46 \<le> g")
  case False
  then obtain k where "k < 46" "\<forall>i\<le>k. \<not> g < issued_before i" "g < issued_before (Suc k)"
    using ex_least_nat_less [of "\<lambda>k. g < issued_before k" 46] by auto
  then show ?thesis using that [of k] by (simp add: not_less del: issued_before.simps)
qed (use that in blast)

lemma base_block_reward_exact:
  assumes "unat g < 18000000000000000000" "issued_before k \<le> unat g"
    "unat g < issued_before (Suc k) \<or> k = 46" "k \<le> 46"
  shows "unat (base_block_reward g) = min (period_reward k) (18000000000000000000 - unat g)"
proof -
  have "halvings_loop g 0 INITIAL_REWARD_LOCAL 0 = of_nat k"
    using halvings_loop_at [OF assms(2-4), of 0] by simp
  moreover have "unat (of_nat k :: u64) = k" using assms(4) by (simp add: unat_of_nat)
  moreover have p: "period_reward k \<le> 42857142857143" by (simp add: period_reward_def)
  then have "unat (g + drop_bit k INITIAL_REWARD_LOCAL) = unat g + period_reward k"
    using assms(1) by (subst unat_plus_exact) (simp_all add: unat_period_reward)
  moreover have "unat (MONEY_SUPPLY - g) = 18000000000000000000 - unat g"
    using assms(1) by (subst unat_sub) (simp_all add: MONEY_SUPPLY_def word_le_nat_alt)
  ultimately show ?thesis
    by (simp add: base_block_reward_def Let_def word_less_nat_alt unat_period_reward MONEY_SUPPLY_def)
qed

lemma base_block_reward_le:
  assumes "unat g < 18000000000000000000"
  shows "unat g + unat (base_block_reward g) \<le> 18000000000000000000"
proof -
  obtain k where "issued_before k \<le> unat g" "unat g < issued_before (Suc k) \<or> k = 46" "k \<le> 46"
    by (rule halving_period)
  from base_block_reward_exact [OF assms this] assms show ?thesis by simp
qed

subsection \<open>The weight penalty\<close>

definition effective_median :: "u64 \<Rightarrow> u8 \<Rightarrow> u64" where
  "effective_median m version = max (get_min_block_weight version) m"

lemma effective_median_pos: "effective_median m v \<noteq> 0"
  by (auto simp: effective_median_def get_min_block_weight_def max_def word_le_nat_alt word_less_nat_alt)

lemma effective_median_if:
  "(if m < get_min_block_weight v then get_min_block_weight v else m) = effective_median m v"
  by (auto simp: effective_median_def max_def)

lemma weight_product_le:
  fixes m c :: nat
  assumes "c \<le> 2 * m"
  shows "(2 * m - c) * c \<le> m * m"
proof -
  have "0 \<le> (int m - int c) ^ 2" by simp
  then have "(2 * int m - int c) * int c \<le> int m * int m" by (simp add: power2_eq_square algebra_simps)
  then have "int ((2 * m - c) * c) \<le> int (m * m)" using assms by (simp only: of_nat_mult of_nat_diff of_nat_numeral)
  then show ?thesis by (simp only: of_nat_le_iff)
qed

lemma penalty_le:
  fixes b m c :: nat
  assumes "0 < m" "c \<le> 2 * m"
  shows "b * ((2 * m - c) * c) div m div m \<le> b"
proof -
  have "b * ((2 * m - c) * c) div (m * m) \<le> b * (m * m) div (m * m)"
    by (intro div_le_mono mult_left_mono weight_product_le assms) simp
  also have "\<dots> = b" using assms(1) by simp
  finally show ?thesis by (simp add: div_mult2_eq)
qed

lemma penalty_product:
  fixes m c :: u64
  assumes "unat m < 2 ^ 32" "c \<le> 2 * m"
  shows "unat ((2 * m - c) * c) = (2 * unat m - unat c) * unat c" "unat (2 * m) = 2 * unat m"
proof -
  show m2: "unat (2 * m) = 2 * unat m" using assms(1) by (subst unat_times_exact) simp_all
  then have d: "unat (2 * m - c) = 2 * unat m - unat c" using assms(2) by (subst unat_sub) simp_all
  have c: "unat c \<le> 2 * unat m" using assms(2) by (simp add: word_le_nat_alt m2)
  have "(2 * unat m - unat c) * unat c \<le> unat m * unat m" by (rule weight_product_le [OF c])
  also have "\<dots> < 2 ^ 32 * 2 ^ 32" using assms(1) by (intro mult_strict_mono) simp_all
  finally show "unat ((2 * m - c) * c) = (2 * unat m - unat c) * unat c"
    by (subst unat_times_exact) (simp_all add: d)
qed

lemma get_block_reward_exact:
  fixes m c g :: u64 and v :: u8
  defines "M \<equiv> effective_median m v"
  assumes "g < MONEY_SUPPLY" "unat M < 2 ^ 32"
  shows "c \<le> M \<Longrightarrow> get_block_reward m c g v = Reward (base_block_reward g)"
    and "2 * M < c \<Longrightarrow> base_block_reward g \<noteq> 0 \<Longrightarrow> get_block_reward m c g v = Weight_too_big"
    and "M < c \<Longrightarrow> c \<le> 2 * M \<Longrightarrow> \<exists>r. get_block_reward m c g v = Reward r \<and>
      unat r = unat (base_block_reward g) * ((2 * unat M - unat c) * unat c) div (unat M * unat M)"
proof -
  note u = get_block_reward_def Let_def effective_median_if M_def [symmetric]
  have g: "\<not> MONEY_SUPPLY \<le> g" using assms(2) by (simp add: not_le)
  show "c \<le> M \<Longrightarrow> get_block_reward m c g v = Reward (base_block_reward g)"
    using g by (simp add: u)
  have "M \<noteq> 0" by (simp add: M_def effective_median_pos)
  then have "0 < unat M" by (simp add: unat_gt_0)
  note mm = penalty_product [OF assms(3), of c]
  show "2 * M < c \<Longrightarrow> base_block_reward g \<noteq> 0 \<Longrightarrow> get_block_reward m c g v = Weight_too_big"
  proof -
    assume c: "2 * M < c" and b: "base_block_reward g \<noteq> 0"
    have "2 * unat M < unat c"
      using c penalty_product(2) [OF assms(3), of 0] by (simp add: word_less_nat_alt)
    then have "\<not> c \<le> M" by (simp add: word_le_nat_alt)
    with g c b show ?thesis by (simp add: u)
  qed
  assume c: "M < c" "c \<le> 2 * M"
  let ?b = "base_block_reward g"
  obtain lo hi where mul: "mul128 ?b ((2 * M - c) * c) = (lo, hi)" by fastforce
  obtain qh ql x y where d1: "div128_64 hi lo M = Some (qh, ql, x, y)"
    using \<open>M \<noteq> 0\<close> div128_64_defined [of hi lo M] by (metis option.exhaust surj_pair)
  obtain rh rl z w where d2: "div128_64 qh ql M = Some (rh, rl, z, w)"
    using \<open>M \<noteq> 0\<close> div128_64_defined [of qh ql M] by (metis option.exhaust surj_pair)
  have c2: "unat c \<le> 2 * unat M" using c(2) mm(2) [OF c(2)] by (simp add: word_le_nat_alt)
  have r: "unat rh * 2 ^ 64 + unat rl = unat ?b * ((2 * unat M - unat c) * unat c) div unat M div unat M"
    using mul128_exact [OF mul] div128_64_exact(1) [OF d1] div128_64_exact(1) [OF d2] mm(1) [OF c(2)] by simp
  moreover have "\<dots> \<le> unat ?b" by (rule penalty_le [OF \<open>0 < unat M\<close> c2])
  ultimately have le: "unat rh * 2 ^ 64 + unat rl \<le> unat ?b" by simp
  then have "unat rh = 0" using unat_u64_lt [of ?b] by (cases "unat rh") (simp_all del: unat_u64_lt)
  then have "rh = 0" "rl \<le> ?b" using le by (simp_all add: unat_0_iff word_le_nat_alt)
  moreover have "\<not> 2 * M < c" "\<not> c \<le> M" using c by (simp_all add: not_less not_le)
  ultimately have "get_block_reward m c g v = (if ?b = 0 then Reward 0 else Reward rl)"
    using g mul d1 d2 by (simp add: u)
  moreover have "?b = 0 \<Longrightarrow> rl = 0" using \<open>rl \<le> ?b\<close> by simp
  ultimately show "\<exists>r. get_block_reward m c g v = Reward r \<and>
      unat r = unat ?b * ((2 * unat M - unat c) * unat c) div (unat M * unat M)"
    using r \<open>unat rh = 0\<close> by (auto simp: div_mult2_eq)
qed

subsection \<open>Outputs of a miner transaction\<close>

lemma check_outs_overflow_from_iff:
  "check_outs_overflow_from m vout \<longleftrightarrow> unat m + sum_list (map unat vout) < 2 ^ 64"
proof (induction m vout rule: check_outs_overflow_from.induct)
  case (2 money amount vout)
  have w: "amount + money < money \<longleftrightarrow> 2 ^ 64 \<le> unat money + unat amount"
    using add_wraps_iff [of money amount] by (simp add: add.commute)
  show ?case
  proof (cases "amount + money < money")
    case True
    then show ?thesis using w by simp
  next
    case False
    then have "unat (money + amount) = unat money + unat amount" using w by (simp add: unat_plus_exact)
    then show ?thesis using 2 False by (simp add: add.assoc)
  qed
qed simp

lemma foldl_plus_exact:
  "unat m + sum_list (map unat vout) < 2 ^ 64 \<Longrightarrow> unat (foldl (+) (m :: u64) vout) = unat m + sum_list (map unat vout)"
proof (induction vout arbitrary: m)
  case (Cons a vout)
  then have "unat (m + a) = unat m + unat a" by (intro unat_plus_exact) simp
  then show ?case using Cons by simp
qed simp

lemma get_outs_money_amount_exact:
  "check_outs_overflow vout \<Longrightarrow> unat (get_outs_money_amount vout) = sum_list (map unat vout)"
  using foldl_plus_exact [of 0 vout]
  by (simp add: check_outs_overflow_def check_outs_overflow_from_iff get_outs_money_amount_def)

lemma strip_zeros_form:
  "amount \<noteq> 0 \<Longrightarrow> strip_zeros amount \<noteq> 0 \<and> unat (strip_zeros amount) mod 10 \<noteq> 0 \<and>
     (\<exists>k. unat amount = unat (strip_zeros amount) * 10 ^ k)"
proof (induction amount rule: strip_zeros.induct)
  case (1 amount)
  have u: "unat (amount mod 10) = unat amount mod 10" by (simp add: unat_mod_distrib)
  show ?case
  proof (cases "amount mod 10 = 0")
    case True
    then have "unat amount mod 10 = 0" using u by simp
    then have d: "unat amount = 10 * unat (amount div 10)" by (simp add: unat_div_distrib) presburger
    then have "amount div 10 \<noteq> 0" using "1.prems" by (auto simp: unat_0_iff)
    with 1 True obtain k where "strip_zeros (amount div 10) \<noteq> 0" "unat (strip_zeros (amount div 10)) mod 10 \<noteq> 0"
      "unat (amount div 10) = unat (strip_zeros (amount div 10)) * 10 ^ k" by blast
    moreover have "strip_zeros amount = strip_zeros (amount div 10)"
      using True "1.prems" by (subst strip_zeros.simps) simp
    ultimately show ?thesis using d by (auto intro!: exI [of _ "Suc k"])
  next
    case False
    then have "strip_zeros amount = amount" by (subst strip_zeros.simps) simp
    moreover have "unat amount mod 10 \<noteq> 0"
      using False u by (metis unat_0_iff)
    ultimately show ?thesis using "1.prems" by (auto intro!: exI [of _ 0])
  qed
qed

subsection \<open>Accepted blocks\<close>

lemma get_block_reward_le_base:
  assumes "get_block_reward m c g v = Reward r" "g < MONEY_SUPPLY"
  shows "r \<le> base_block_reward g"
  using assms
  by (auto simp: get_block_reward_def Let_def split: if_splits option.splits prod.splits)

lemma get_block_reward_cap:
  assumes "g \<le> MONEY_SUPPLY" "get_block_reward m c g v = Reward r"
  shows "unat g + unat r \<le> 18000000000000000000"
proof (cases "g < MONEY_SUPPLY")
  case False
  with assms have "g = MONEY_SUPPLY" "r = 0" by (auto simp: get_block_reward_def)
  then show ?thesis by (simp add: MONEY_SUPPLY_def)
next
  case True
  then have g: "unat g < 18000000000000000000" by (simp add: MONEY_SUPPLY_def word_less_nat_alt)
  have "unat r \<le> unat (base_block_reward g)"
    using get_block_reward_le_base [OF assms(2) True] by (simp add: word_le_nat_alt)
  then show ?thesis using base_block_reward_le [OF g] by linarith
qed

lemma add_generated_coins_exact:
  assumes "g \<le> MONEY_SUPPLY" "unat g + unat r \<le> 18000000000000000000"
  shows "unat (add_generated_coins g r) = unat g + unat r"
proof -
  have d: "unat (MONEY_SUPPLY - g) = 18000000000000000000 - unat g"
    using assms(1) by (subst unat_sub) (simp_all add: MONEY_SUPPLY_def)
  have "unat (g + r) = unat g + unat r" using assms(2) by (intro unat_plus_exact) simp
  then show ?thesis
    using assms(2) by (auto simp: add_generated_coins_def word_less_nat_alt d [unfolded MONEY_SUPPLY_def] MONEY_SUPPLY_def)
qed

text \<open>
  An accepted block: its outputs pass the overflow check and the reward check; the fees are paid
  with coins that exist already, which is an assumption here: that a transaction spends existing coins is
  what its ring signatures and range proofs show, and they are not modelled.
\<close>

record chain_coins =
  already_generated :: u64
  circulating :: int

inductive accept_block :: "chain_coins \<Rightarrow> chain_coins \<Rightarrow> bool" where
  accept: "\<lbrakk>check_outs_overflow vout; int (unat fee) \<le> circulating s;
    validate_miner_transaction vout weight fee (already_generated s) med weights version = Some (reward, part)\<rbrakk>
   \<Longrightarrow> accept_block s \<lparr>already_generated = add_generated_coins (already_generated s) reward,
         circulating = circulating s - int (unat fee) + int (sum_list (map unat vout))\<rparr>"

definition coins_start :: "chain_coins \<Rightarrow> bool" where
  "coins_start s \<longleftrightarrow> already_generated s = 0 \<and> circulating s = 0"

definition coins_inv :: "chain_coins \<Rightarrow> bool" where
  "coins_inv s \<longleftrightarrow> circulating s = int (unat (already_generated s)) \<and> already_generated s \<le> MONEY_SUPPLY"

lemma validate_miner_transaction_exact:
  assumes "check_outs_overflow vout" "g \<le> MONEY_SUPPLY" "fee \<le> g"
    and "validate_miner_transaction vout weight fee g med weights version = Some (reward, part)"
  shows "sum_list (map unat vout) = unat reward + unat fee" "unat g + unat reward \<le> 18000000000000000000"
proof -
  define mu where "mu = foldl (+) 0 vout"
  have mu: "unat mu = sum_list (map unat vout)"
    using get_outs_money_amount_exact [OF assms(1)] by (simp add: mu_def get_outs_money_amount_def)
  obtain m b where r: "get_block_reward m weight g version = Reward b" and
    c: "b + fee = mu \<and> reward = b \<or> mu - fee \<le> b \<and> reward = mu - fee \<and> mu \<le> b + fee"
    using assms(4) unfolding validate_miner_transaction_def Let_def mu_def [symmetric]
    by (auto split: reward_result.splits if_splits simp: not_less)
  have cap: "unat g + unat b \<le> 18000000000000000000" by (rule get_block_reward_cap [OF assms(2) r])
  then have s: "unat (b + fee) = unat b + unat fee"
    using assms(3) by (intro unat_plus_exact) (simp add: word_le_nat_alt)
  show "sum_list (map unat vout) = unat reward + unat fee" "unat g + unat reward \<le> 18000000000000000000"
  proof -
    have "unat reward + unat fee = unat mu \<and> unat reward \<le> unat b"
      using c
    proof
      assume m: "mu - fee \<le> b \<and> reward = mu - fee \<and> mu \<le> b + fee"
      have "fee \<le> mu"
      proof (rule ccontr)
        assume "\<not> fee \<le> mu"
        then have "unat (mu - fee) = 2 ^ 64 + unat mu - unat fee"
          by (simp add: unat_sub_if' word_le_nat_alt)
        then have "2 ^ 64 + unat mu - unat fee \<le> unat b" using m by (simp add: word_le_nat_alt)
        with cap assms(3) show False by (simp add: word_le_nat_alt)
      qed
      then show ?thesis using m by (simp add: word_le_nat_alt unat_sub)
    qed (use s in auto)
    then show "sum_list (map unat vout) = unat reward + unat fee" "unat g + unat reward \<le> 18000000000000000000"
      using mu cap by simp_all
  qed
qed

lemma coins_inv_step: "coins_inv s \<Longrightarrow> accept_block s t \<Longrightarrow> coins_inv t"
proof (erule accept_block.cases)
  fix vout fee s' weight med weights version reward part
  assume inv: "coins_inv s" and s: "s = s'" and o: "check_outs_overflow vout"
    and fee: "int (unat fee) \<le> circulating s'"
    and val: "validate_miner_transaction vout weight fee (already_generated s') med weights version = Some (reward, part)"
    and t: "t = \<lparr>already_generated = add_generated_coins (already_generated s') reward,
         circulating = circulating s' - int (unat fee) + int (sum_list (map unat vout))\<rparr>"
  let ?g = "already_generated s"
  have g: "?g \<le> MONEY_SUPPLY" and c: "circulating s = int (unat ?g)" using inv by (simp_all add: coins_inv_def)
  have "int (unat fee) \<le> int (unat ?g)" using fee s c by simp
  then have "unat fee \<le> unat ?g" by (simp only: of_nat_le_iff)
  then have "fee \<le> ?g" by (simp add: word_le_nat_alt)
  note ex = validate_miner_transaction_exact [OF o g this val [folded s]]
  have "unat (add_generated_coins ?g reward) = unat ?g + unat reward"
    by (rule add_generated_coins_exact [OF g ex(2)])
  then show "coins_inv t"
    using ex c by (simp add: coins_inv_def t s [symmetric] word_le_nat_alt MONEY_SUPPLY_def)
qed

interpretation coins: transition_system coins_start accept_block coins_inv
  by unfold_locales (simp add: coins_start_def coins_inv_def, fact coins_inv_step)

subsection \<open>A chain of light blocks\<close>

text \<open>The heights of a chain whose blocks all stay within the full reward zone, with the coins recorded for
  its last block. The check of the miner transaction is skipped for the genesis block, at height 0,
  whose base reward stays 0.\<close>

inductive light_chain :: "nat \<Rightarrow> u64 \<Rightarrow> bool" where
  genesis: "light_chain 0 (add_generated_coins 0 0)"
| connect: "\<lbrakk>light_chain h g; c \<le> effective_median m v; get_block_reward m c g v = Reward r\<rbrakk>
   \<Longrightarrow> light_chain (Suc h) (add_generated_coins g r)"

lemma light_bound:
  "issued_before q + (n mod 210000) * period_reward q + period_reward q \<le> 17999999999994180000"
proof -
  have "(n mod 210000 + 1) * period_reward q \<le> 210000 * period_reward q"
    by (intro mult_le_mono1) (simp add: Suc_leI)
  then have "issued_before q + (n mod 210000) * period_reward q + period_reward q \<le> issued_before (Suc q)"
    by simp
  also have "\<dots> \<le> 17999999999994180000" by (rule issued_before_le)
  finally show ?thesis .
qed

lemma light_reward:
  assumes "unat g = issued_before (n div 210000) + (n mod 210000) * period_reward (n div 210000)"
    and "c \<le> effective_median m v"
  shows "\<exists>r. get_block_reward m c g v = Reward r \<and> unat r = period_reward (n div 210000)"
proof -
  let ?q = "n div 210000"
  define k where "k = min ?q 46"
  note le = light_bound [of ?q n]
  have k: "issued_before k \<le> unat g" "unat g < issued_before (Suc k) \<or> k = 46" "k \<le> 46"
    "period_reward k = period_reward ?q"
  proof -
    show "issued_before k \<le> unat g"
      using issued_before_mono [of k ?q] assms(1) by (simp add: k_def)
    show "period_reward k = period_reward ?q"
      using period_reward_pos [of ?q] period_reward_pos [of k] by (cases "?q < 46") (auto simp: k_def)
    have "unat g < issued_before (Suc ?q)" if "?q < 46"
      using that period_reward_pos [of ?q] assms(1) by simp
    then show "unat g < issued_before (Suc k) \<or> k = 46"
      by (cases "?q < 46") (simp_all add: k_def del: issued_before.simps)
  qed (simp add: k_def)
  have g: "g < MONEY_SUPPLY" "unat g < 18000000000000000000"
    using le assms(1) by (simp_all add: word_less_nat_alt MONEY_SUPPLY_def)
  have "get_block_reward m c g v = Reward (base_block_reward g)"
    using g(1) assms(2) by (auto simp: get_block_reward_def Let_def effective_median_if not_le)
  moreover have "unat g + period_reward ?q \<le> 17999999999994180000" using le assms(1) by simp
  then have "unat (base_block_reward g) = period_reward ?q"
    using base_block_reward_exact [OF g(2) k(1-3)] k(4) by simp
  ultimately show ?thesis by blast
qed

lemma light_chain_exact:
  "light_chain h g \<Longrightarrow> unat g = issued_before (h div 210000) + (h mod 210000) * period_reward (h div 210000)"
proof (induction rule: light_chain.induct)
  case (connect h g c m v r)
  have r: "unat r = period_reward (h div 210000)"
    using light_reward [OF connect.IH connect.hyps(2)] connect.hyps(3) by simp
  have g: "g \<le> MONEY_SUPPLY"
    using connect.IH light_bound [of "h div 210000" h] by (simp add: word_le_nat_alt MONEY_SUPPLY_def)
  have "unat (add_generated_coins g r) = unat g + unat r"
    by (rule add_generated_coins_exact [OF g get_block_reward_cap [OF g connect.hyps(3)]])
  then show ?case
    using connect.IH r by (cases "Suc (h mod 210000) = 210000") (simp_all add: div_Suc mod_Suc)
qed (simp add: add_generated_coins_def MONEY_SUPPLY_def)

lemma light_chain_exists: "\<exists>g. light_chain h g"
proof (induction h)
  case (Suc h)
  then obtain g where g: "light_chain h g" ..
  have "0 \<le> effective_median 0 16" by simp
  with light_reward [OF light_chain_exact [OF g] this] connect [OF g this] show ?case by blast
qed (blast intro: genesis)

subsection \<open>Properties\<close>

text \<open>C24: on a chain whose blocks stay within the full reward zone, the subsidy of the block at a height from 1
  on, if it stays within the zone as well, is the initial reward halved once per 210000 blocks since
  height 1, whatever the weights and versions: heights 1 to 210000 get the full reward, height 210001
  the first half.\<close>
theorem halving_schedule:
  assumes "1 \<le> height" "light_chain (height - 1) g" "c \<le> effective_median m v"
  shows "\<exists>r. get_block_reward m c g v = Reward r \<and> unat r = 42857142857143 div 2 ^ ((height - 1) div 210000)"
  using light_reward [OF light_chain_exact [OF assms(2)] assms(3)] by (simp add: period_reward_def)

theorem halving_schedule_witness:
  "(\<exists>g r. light_chain 209999 g \<and> get_block_reward 0 1000 g 16 = Reward r \<and> unat r = 42857142857143) \<and>
   (\<exists>g r. light_chain 210000 g \<and> get_block_reward 0 1000 g 16 = Reward r \<and> unat r = 21428571428571)"
proof -
  have z: "1000 \<le> effective_median 0 16" by (simp add: effective_median_def get_min_block_weight_def max_def)
  obtain g g' where g: "light_chain 209999 g" "light_chain 210000 g'" using light_chain_exists by blast
  show ?thesis
    using halving_schedule [of 210000 g, OF _ _ z] halving_schedule [of 210001 g', OF _ _ z] g by auto
qed

text \<open>A light chain pays exactly 17999999999994180000 atomic units over its 46 halving periods and
  nothing afterwards, which is below the cap of 18 million coins.\<close>
lemma total_emission:
  assumes "light_chain h g"
  shows "unat g \<le> 17999999999994180000 \<and> (unat g = 17999999999994180000 \<longleftrightarrow> 46 * 210000 \<le> h)"
proof -
  let ?q = "h div 210000"
  have c: "unat g = issued_before ?q + (h mod 210000) * period_reward ?q" by (rule light_chain_exact [OF assms])
  have le: "issued_before ?q + (h mod 210000) * period_reward ?q + period_reward ?q \<le> 17999999999994180000"
    by (rule light_bound)
  show ?thesis
  proof (cases "?q < 46")
    case True
    then have "0 < period_reward ?q" by (simp only: period_reward_pos)
    moreover from True have "h < 46 * 210000" by (simp add: div_less_iff_less_mult)
    ultimately show ?thesis using le c by simp
  next
    case False
    then have "period_reward ?q = 0" using period_reward_pos [of ?q] by simp
    moreover have "issued_before ?q = 17999999999994180000"
      using False issued_before_end [of ?q] issued_total by simp
    moreover have "46 * 210000 \<le> h" using False by (simp add: not_less less_eq_div_iff_mult_less_eq)
    ultimately show ?thesis using c by simp
  qed
qed

text \<open>C1: whatever blocks are accepted, with whatever weights, outputs and fees paid from existing coins, the coins in circulation
  are exactly the generated coins the chain has recorded, and they never exceed the cap.\<close>
theorem supply_cap:
  assumes "coins_start s" "reaches accept_block s t"
  shows "circulating t = int (unat (already_generated t)) \<and> circulating t \<le> 18000000000000000000"
proof -
  have "coins_inv t" using assms by (rule coins.inv_reachable)
  then have "circulating t = int (unat (already_generated t))" "unat (already_generated t) \<le> 18000000000000000000"
    by (simp_all add: coins_inv_def word_le_nat_alt MONEY_SUPPLY_def)
  moreover then have "int (unat (already_generated t)) \<le> int 18000000000000000000"
    by (simp only: of_nat_le_iff)
  ultimately show ?thesis by (simp only: of_nat_numeral)
qed

theorem supply_cap_witness:
  "\<exists>t. reaches accept_block \<lparr>already_generated = 0, circulating = 0\<rparr> t \<and> circulating t = 42857142857143 \<and>
    circulating t \<le> 18000000000000000000"
proof -
  let ?s = "\<lparr>already_generated = 0, circulating = 0\<rparr>"
  let ?t = "\<lparr>already_generated = 42857142857143, circulating = 42857142857143\<rparr> :: chain_coins"
  have "validate_miner_transaction [42857142857143] 80 0 0 0 [] 16 = Some (42857142857143, False)" by code_simp
  then have "accept_block ?s ?t"
    using accept [of "[42857142857143]" 0 ?s 80 0 "[]" 16 42857142857143 False]
    by (simp add: check_outs_overflow_def add_generated_coins_def MONEY_SUPPLY_def)
  then have r: "reaches accept_block ?s ?t" by (blast intro: reaches.intros)
  have "coins_start ?s" by (simp add: coins_start_def)
  from supply_cap [OF this r] r show ?thesis by (intro exI [of _ ?t]) simp
qed

text \<open>C28: with an effective median below \<open>2^32\<close> the reward computation never fails an assertion, and gives on
  every branch: once the supply is generated or the base reward has become 0, the reward 0 for a block
  of any weight; otherwise the base reward for a block in the zone, the exactly rounded quadratic
  penalty for a block up to twice the median, and a refusal for a heavier block.\<close>
theorem reward_penalty:
  assumes "unat (effective_median m v) < 2 ^ 32"
  shows "get_block_reward m c g v =
    (let M = unat (effective_median m v); b = unat (base_block_reward g) in
     if MONEY_SUPPLY \<le> g \<or> b = 0 then Reward 0
     else if unat c \<le> M then Reward (base_block_reward g)
     else if unat c \<le> 2 * M then Reward (of_nat (b * ((2 * M - unat c) * unat c) div (M * M)))
     else Weight_too_big)"
proof (cases "MONEY_SUPPLY \<le> g \<or> base_block_reward g = 0")
  case True
  then show ?thesis by (auto simp: get_block_reward_def Let_def)
next
  case False
  let ?M = "effective_median m v"
  have g: "g < MONEY_SUPPLY" and b: "base_block_reward g \<noteq> 0" "unat (base_block_reward g) \<noteq> 0"
    using False by (simp_all add: not_le unat_0_iff)
  note ex = get_block_reward_exact [OF g assms, of c]
  have m2: "unat (2 * ?M) = 2 * unat ?M" by (rule penalty_product(2) [OF assms, of 0]) simp
  consider "c \<le> ?M" | "?M < c" "c \<le> 2 * ?M" | "2 * ?M < c" by (meson not_le)
  then show ?thesis
  proof cases
    case 1
    then show ?thesis using ex(1) False b by (simp add: word_le_nat_alt Let_def)
  next
    case 2
    then obtain r where "get_block_reward m c g v = Reward r"
      "unat r = unat (base_block_reward g) * ((2 * unat ?M - unat c) * unat c) div (unat ?M * unat ?M)"
      using ex(3) by blast
    moreover have "r = of_nat (unat r)" by simp
    ultimately show ?thesis using 2 m2 False b by (simp add: Let_def word_le_nat_alt word_less_nat_alt)
  next
    case 3
    then show ?thesis using ex(2) False b m2 by (simp add: Let_def word_le_nat_alt word_less_nat_alt)
  qed
qed

theorem reward_penalty_witness:
  "get_block_reward 0 300000 0 16 = Reward 42857142857143 \<and> get_block_reward 0 450000 0 16 = Reward 32142857142857 \<and>
   get_block_reward 0 600001 0 16 = Weight_too_big \<and> get_block_reward 0 600001 MONEY_SUPPLY 16 = Reward 0"
proof -
  have b: "base_block_reward 0 = 42857142857143" by code_simp
  show ?thesis
    using reward_penalty [of 0 16 300000 0] reward_penalty [of 0 16 450000 0] reward_penalty [of 0 16 600001 0]
      reward_penalty [of 0 16 600001 MONEY_SUPPLY]
    by (simp add: MONEY_SUPPLY_def effective_median_def get_min_block_weight_def max_def b Let_def)
qed

end
