(* ===== verification/Pruning.thy ===== *)
theory Pruning
  imports Hidering_Prelude
begin

unbundle bit_operations_syntax

section \<open>Pruning seeds (\<open>src/common/pruning.h\<close>, \<open>src/common/pruning.cpp\<close>)\<close>

text \<open>
  A pruned node keeps the prunable data of every block of one stripe and of the tip. The two
  overloads of \<open>get_pruning_stripe\<close> are \<open>get_pruning_stripe_of_seed\<close> and \<open>get_pruning_stripe\<close>; a
  throwing \<open>make_pruning_seed\<close> returns \<open>None\<close>; \<open>CHECK_AND_ASSERT_MES\<close> returns the value it names.
\<close>

definition CRYPTONOTE_PRUNING_STRIPE_SIZE :: u64 where "CRYPTONOTE_PRUNING_STRIPE_SIZE = 4096"
definition CRYPTONOTE_PRUNING_LOG_STRIPES :: u32 where "CRYPTONOTE_PRUNING_LOG_STRIPES = 3"
definition CRYPTONOTE_PRUNING_TIP_BLOCKS :: u64 where "CRYPTONOTE_PRUNING_TIP_BLOCKS = 5500"
definition CRYPTONOTE_MAX_BLOCK_NUMBER :: u64 where "CRYPTONOTE_MAX_BLOCK_NUMBER = 500000000"

definition get_pruning_log_stripes :: "u32 \<Rightarrow> u32" where
  "get_pruning_log_stripes pruning_seed = drop_bit 7 pruning_seed AND 0x7"

definition get_pruning_stripe_of_seed :: "u32 \<Rightarrow> u32" where
  "get_pruning_stripe_of_seed pruning_seed =
     (if pruning_seed = 0 then 0 else 1 + (drop_bit 0 pruning_seed AND 0x7f))"

definition make_pruning_seed :: "u32 \<Rightarrow> u32 \<Rightarrow> u32 option" where
  "make_pruning_seed stripe log_stripes =
     (if \<not> log_stripes \<le> 0x7 then None
      else if \<not> (0 < stripe \<and> ucast stripe \<le> (push_bit (unat log_stripes) 1 :: u64)) then None
      else Some (push_bit 7 log_stripes OR push_bit 0 (stripe - 1)))"

definition get_pruning_stripe :: "u64 \<Rightarrow> u64 \<Rightarrow> u32 \<Rightarrow> u32" where
  "get_pruning_stripe block_height blockchain_height log_stripes =
     (if blockchain_height \<le> block_height + CRYPTONOTE_PRUNING_TIP_BLOCKS then 0
      else ucast (((block_height div CRYPTONOTE_PRUNING_STRIPE_SIZE)
                     AND (push_bit (unat log_stripes) 1 - 1)) + 1))"

definition has_unpruned_block :: "u64 \<Rightarrow> u64 \<Rightarrow> u32 \<Rightarrow> bool" where
  "has_unpruned_block block_height blockchain_height pruning_seed =
     (let stripe = get_pruning_stripe_of_seed pruning_seed in
      if stripe = 0 then True
      else let log_stripes = get_pruning_log_stripes pruning_seed;
               block_stripe = get_pruning_stripe block_height blockchain_height log_stripes
           in block_stripe = 0 \<or> block_stripe = stripe)"

definition get_pruning_seed :: "u64 \<Rightarrow> u64 \<Rightarrow> u32 \<Rightarrow> u32 option" where
  "get_pruning_seed block_height blockchain_height log_stripes =
     (let stripe = get_pruning_stripe block_height blockchain_height log_stripes in
      if stripe = 0 then Some 0 else make_pruning_seed stripe log_stripes)"

definition get_next_unpruned_block_height :: "u64 \<Rightarrow> u64 \<Rightarrow> u32 \<Rightarrow> u64" where
  "get_next_unpruned_block_height block_height blockchain_height pruning_seed =
     (if \<not> block_height \<le> CRYPTONOTE_MAX_BLOCK_NUMBER + 1 then block_height
      else if \<not> blockchain_height \<le> CRYPTONOTE_MAX_BLOCK_NUMBER + 1 then block_height
      else let stripe = get_pruning_stripe_of_seed pruning_seed in
        if stripe = 0 then block_height
        else if blockchain_height \<le> block_height + CRYPTONOTE_PRUNING_TIP_BLOCKS then block_height
        else let seed_log_stripes = get_pruning_log_stripes pruning_seed;
                 log_stripes = unat (if seed_log_stripes \<noteq> 0 then seed_log_stripes
                                     else CRYPTONOTE_PRUNING_LOG_STRIPES);
                 mask = push_bit log_stripes 1 - 1;
                 block_pruning_stripe =
                   ucast (((block_height div CRYPTONOTE_PRUNING_STRIPE_SIZE) AND mask) + 1)
             in if block_pruning_stripe = stripe then block_height
                else let cycles = drop_bit log_stripes (block_height div CRYPTONOTE_PRUNING_STRIPE_SIZE);
                         cycle_start = cycles + (if block_pruning_stripe < stripe then 0 else 1);
                         h = cycle_start * push_bit log_stripes CRYPTONOTE_PRUNING_STRIPE_SIZE
                             + ucast (stripe - 1) * CRYPTONOTE_PRUNING_STRIPE_SIZE
                     in if blockchain_height < h + CRYPTONOTE_PRUNING_TIP_BLOCKS
                        then (if blockchain_height < CRYPTONOTE_PRUNING_TIP_BLOCKS then 0
                              else blockchain_height - CRYPTONOTE_PRUNING_TIP_BLOCKS)
                        else if \<not> block_height \<le> h then block_height
                        else h)"

definition get_next_pruned_block_height :: "u64 \<Rightarrow> u64 \<Rightarrow> u32 \<Rightarrow> u64 option" where
  "get_next_pruned_block_height block_height blockchain_height pruning_seed =
     (let stripe = get_pruning_stripe_of_seed pruning_seed in
      if stripe = 0 then Some blockchain_height
      else if blockchain_height \<le> block_height + CRYPTONOTE_PRUNING_TIP_BLOCKS then Some blockchain_height
      else let seed_log_stripes = get_pruning_log_stripes pruning_seed;
               log_stripes = (if seed_log_stripes \<noteq> 0 then seed_log_stripes
                              else CRYPTONOTE_PRUNING_LOG_STRIPES);
               mask = push_bit (unat log_stripes) 1 - 1;
               block_pruning_seed =
                 ucast (((block_height div CRYPTONOTE_PRUNING_STRIPE_SIZE) AND mask) + 1)
           in if block_pruning_seed \<noteq> stripe then Some block_height
              else let next_stripe = 1 + ucast (ucast block_pruning_seed AND mask)
                   in map_option (get_next_unpruned_block_height block_height blockchain_height)
                        (make_pruning_seed next_stripe log_stripes))"

text \<open>\<open>crypto::rand<uint8_t>()\<close> is the argument.\<close>

definition get_random_stripe :: "u8 \<Rightarrow> u32" where
  "get_random_stripe rand =
     1 + ucast ((ucast rand :: u64) mod push_bit (unat CRYPTONOTE_PRUNING_LOG_STRIPES) 1)"

subsection \<open>Seeds\<close>

lemmas pruning_consts = CRYPTONOTE_PRUNING_STRIPE_SIZE_def CRYPTONOTE_PRUNING_LOG_STRIPES_def
  CRYPTONOTE_PRUNING_TIP_BLOCKS_def CRYPTONOTE_MAX_BLOCK_NUMBER_def

lemma mask_lits: "(0x7 :: u32) = mask 3" "(0x7f :: u32) = mask 7"
  by (simp_all add: mask_numeral)

lemma shift_mask: "n < 64 \<Longrightarrow> push_bit n 1 - 1 = (mask n :: u64)"
  by (simp add: push_bit_of_1 mask_eq_exp_minus_1)

lemma unat_log_stripes: "unat (get_pruning_log_stripes seed) = unat seed div 128 mod 8"
  unfolding get_pruning_log_stripes_def mask_lits by (simp add: unat_and_mask unat_drop_bit)

lemma unat_seed_stripe: "seed \<noteq> 0 \<Longrightarrow> unat (get_pruning_stripe_of_seed seed) = unat seed mod 128 + 1"
  unfolding get_pruning_stripe_of_seed_def mask_lits
  by (simp add: unat_plus_exact unat_and_mask del: mask_numeral)

lemma make_pruning_seed_fields:
  assumes "make_pruning_seed stripe log = Some seed"
  shows "unat log \<le> 7" "1 \<le> unat stripe" "unat stripe \<le> 2 ^ unat log"
    "unat seed = 128 * unat log + (unat stripe - 1)"
proof -
  have log: "unat log \<le> 7" using assms by (auto simp: make_pruning_seed_def word_le_nat_alt split: if_splits)
  have p: "unat (push_bit (unat log) 1 :: u64) = 2 ^ unat log"
    using log power_strict_increasing [of "unat log" 64 "2 :: nat"] by (subst unat_push_bit_mod) simp
  have st: "1 \<le> unat stripe" "unat stripe \<le> 2 ^ unat log"
    using assms p by (auto simp: make_pruning_seed_def word_le_nat_alt word_less_nat_alt unat_ucast_up Suc_leI split: if_splits)
  have "(2 :: nat) ^ unat log \<le> 2 ^ 7" using log by (intro power_increasing) simp_all
  then have s1: "unat (stripe - 1) = unat stripe - 1" "unat stripe - 1 < 2 ^ 7"
    using st by (simp_all add: unat_sub word_le_nat_alt)
  have "seed = push_bit 7 log OR (stripe - 1)" using assms by (simp add: make_pruning_seed_def split: if_splits)
  also have "\<dots> = push_bit 7 log + (stripe - 1)" using s1 by (intro or_is_plus) simp
  finally have "seed = push_bit 7 log + (stripe - 1)" .
  moreover have "unat (push_bit 7 log) = 128 * unat log"
    using log by (simp add: unat_push_bit_mod len32)
  ultimately show "unat seed = 128 * unat log + (unat stripe - 1)"
    using log s1 by (simp only:) (subst unat_plus_exact, simp_all)
  show "unat log \<le> 7" "1 \<le> unat stripe" "unat stripe \<le> 2 ^ unat log" by (fact log, fact st(1), fact st(2))
qed

lemma make_pruning_seed_read:
  assumes "make_pruning_seed stripe log = Some seed"
  shows "get_pruning_log_stripes seed = log" "seed = 0 \<longleftrightarrow> log = 0"
    "seed \<noteq> 0 \<Longrightarrow> get_pruning_stripe_of_seed seed = stripe"
proof -
  note f = make_pruning_seed_fields [OF assms]
  have "(2 :: nat) ^ unat log \<le> 2 ^ 7" using f(1) by (intro power_increasing) simp_all
  then have lt: "unat stripe - 1 < 128" using f(2,3) by simp
  obtain q where q: "unat stripe = Suc q" using f(2) by (cases "unat stripe") simp_all
  show "get_pruning_log_stripes seed = log"
    using f lt by (intro word_unat_eqI) (simp add: unat_log_stripes)
  show "get_pruning_stripe_of_seed seed = stripe" if "seed \<noteq> 0"
    using f lt that q by (intro word_unat_eqI) (simp add: unat_seed_stripe)
  have "unat log = 0 \<Longrightarrow> unat stripe - 1 = 0" using f(3) by simp
  then have "unat seed = 0 \<longleftrightarrow> unat log = 0" using f(4) by auto
  then show "seed = 0 \<longleftrightarrow> log = 0" by (simp add: unat_0_iff)
qed

lemma make_pruning_seed_defined:
  assumes "unat log \<le> 7" "1 \<le> unat stripe" "unat stripe \<le> 2 ^ unat log"
  shows "\<exists>seed. make_pruning_seed stripe log = Some seed"
proof -
  have p: "unat (push_bit (unat log) 1 :: u64) = 2 ^ unat log"
    using assms(1) power_strict_increasing [of "unat log" 64 "2 :: nat"] by (subst unat_push_bit_mod) simp
  then show ?thesis
    using assms by (auto simp: make_pruning_seed_def word_le_nat_alt word_less_nat_alt unat_ucast_up)
qed

subsection \<open>Stripes of block heights\<close>

text \<open>The stripe of a height, in plain arithmetic, for \<open>2 ^ l\<close> stripes numbered from 0.\<close>

definition stripe_index :: "nat \<Rightarrow> nat \<Rightarrow> nat" where
  "stripe_index l h = h div 4096 mod 2 ^ l"

lemma stripe_word:
  fixes h :: u64
  assumes "n \<le> 7"
  shows "unat (ucast ((h div CRYPTONOTE_PRUNING_STRIPE_SIZE AND (push_bit n 1 - 1)) + 1) :: u32)
    = stripe_index n (unat h) + 1"
proof -
  have "stripe_index n (unat h) < 2 ^ n" by (simp add: stripe_index_def)
  also have "(2 :: nat) ^ n \<le> 2 ^ 7" using assms by (intro power_increasing) simp_all
  finally have "stripe_index n (unat h) < 128" by simp
  moreover have "unat (h div CRYPTONOTE_PRUNING_STRIPE_SIZE AND (push_bit n 1 - 1)) = stripe_index n (unat h)"
    using assms by (simp only: shift_mask unat_and_mask) (simp add: stripe_index_def pruning_consts unat_div_distrib shift_mask unat_and_mask)
  ultimately show ?thesis by (simp add: unat_ucast_mod unat_plus_exact)
qed

lemma next_stripe_nat:
  fixes h t L :: nat
  defines "b \<equiv> h div 4096"
  defines "n \<equiv> (b div L + (if b mod L < t then 0 else 1)) * L + t"
  assumes "t < L" "b mod L \<noteq> t"
  shows "h < n * 4096" "n mod L = t" "\<And>k. h \<le> k \<Longrightarrow> k < n * 4096 \<Longrightarrow> k div 4096 mod L \<noteq> t"
proof -
  have bl: "b = b div L * L + b mod L" by simp
  have "b < n"
  proof (cases "b mod L < t")
    case True
    then have "n = b div L * L + t" by (simp add: n_def)
    then show ?thesis using bl True by linarith
  next
    case False
    then have "n = b div L * L + L + t" by (simp add: n_def algebra_simps)
    moreover have "b mod L < L" using assms(3) by simp
    ultimately show ?thesis using bl by linarith
  qed
  then show "h < n * 4096" unfolding b_def by (simp add: div_less_iff_less_mult)
  show "n mod L = t" using assms(3) by (simp add: n_def)
  fix k assume k: "h \<le> k" "k < n * 4096"
  define c where "c = k div 4096 div L"
  have bk: "b \<le> k div 4096" "k div 4096 < n" using k by (simp_all add: b_def div_le_mono div_less_iff_less_mult)
  show "k div 4096 mod L \<noteq> t"
  proof
    assume "k div 4096 mod L = t"
    then have kc: "k div 4096 = c * L + t" unfolding c_def by (metis div_mult_mod_eq)
    let ?m = "b div L + (if b mod L < t then 0 else 1)"
    have "c < ?m" using bk(2) kc by (simp add: n_def)
    have "b div L \<le> c" unfolding c_def using bk(1) by (rule div_le_mono)
    with \<open>c < ?m\<close> have "c = b div L" "t \<le> b mod L" by (auto split: if_splits)
    then have "b \<le> b div L * L + t" using bk(1) kc by simp
    then show False using \<open>t \<le> b mod L\<close> assms(4) bl by linarith
  qed
qed

text \<open>The seed of a node and what its functions compute, for a seed made by \<open>make_pruning_seed\<close>.\<close>

lemma has_unpruned_block_iff:
  assumes "make_pruning_seed stripe log = Some seed" "log \<noteq> 0" "unat h \<le> 500000001" "unat H \<le> 500000001"
  shows "has_unpruned_block h H seed \<longleftrightarrow>
    unat H \<le> unat h + 5500 \<or> stripe_index (unat log) (unat h) = unat stripe - 1"
proof -
  note f = make_pruning_seed_fields [OF assms(1)] and r = make_pruning_seed_read [OF assms(1)]
  have s: "seed \<noteq> 0" using r(2) assms(2) by simp
  have st: "stripe \<noteq> 0" using f(2) by auto
  have t: "unat (h + CRYPTONOTE_PRUNING_TIP_BLOCKS) = unat h + 5500"
    using assms(3) by (subst unat_plus_exact) (simp_all add: pruning_consts)
  note w = stripe_word [OF f(1), of h]
  have "get_pruning_stripe h H log = 0 \<longleftrightarrow> unat H \<le> unat h + 5500"
    using w by (auto simp: get_pruning_stripe_def word_le_nat_alt t)
  moreover have "\<not> unat H \<le> unat h + 5500 \<Longrightarrow>
      get_pruning_stripe h H log = stripe \<longleftrightarrow> stripe_index (unat log) (unat h) + 1 = unat stripe"
    using w by (auto simp: get_pruning_stripe_def word_le_nat_alt t word_unat_eqI)
  ultimately show ?thesis
    using s st f(2) r by (auto simp: has_unpruned_block_def Let_def)
qed

text \<open>The block number, in stripes, where stripe \<open>t\<close> begins next after height \<open>h\<close>.\<close>

definition next_stripe_start :: "nat \<Rightarrow> nat \<Rightarrow> nat \<Rightarrow> nat" where
  "next_stripe_start l t h =
     ((h div 4096) div 2 ^ l + (if stripe_index l h < t then 0 else 1)) * 2 ^ l + t"

lemma next_height_word:
  fixes h :: u64 and stripe :: u32
  assumes "l \<le> 7" "unat stripe = t + 1" "t < 2 ^ l" "unat h \<le> 500000001" "unat bs = stripe_index l (unat h) + 1"
  shows "unat ((drop_bit l (h div CRYPTONOTE_PRUNING_STRIPE_SIZE) + (if bs < stripe then 0 else 1))
      * push_bit l CRYPTONOTE_PRUNING_STRIPE_SIZE + ucast (stripe - 1) * CRYPTONOTE_PRUNING_STRIPE_SIZE)
    = next_stripe_start l t (unat h) * 4096" "next_stripe_start l t (unat h) * 4096 < 2000000000"
proof -
  define L :: nat where "L = 2 ^ l"
  let ?S = CRYPTONOTE_PRUNING_STRIPE_SIZE
  have L: "L \<le> 128" using power_increasing [OF assms(1), of "2 :: nat"] by (simp add: L_def)
  have tL: "t < L" using assms(3) by (simp add: L_def)
  define m where "m = unat h div 4096 div L + (if stripe_index l (unat h) < t then 0 else 1)"
  have "unat h div 4096 div L * (4096 * L) \<le> unat h"
    by (metis div_mult2_eq div_times_less_eq_dividend)
  moreover have "m * (4096 * L) \<le> unat h div 4096 div L * (4096 * L) + 4096 * L" by (simp add: m_def)
  ultimately have mb: "m * (4096 * L) + t * 4096 < 2000000000" "m * (4096 * L) < 2000000000"
    using assms(4) L tL by linarith+
  have n: "next_stripe_start l t (unat h) * 4096 = m * (4096 * L) + t * 4096"
    by (simp add: next_stripe_start_def m_def L_def algebra_simps)
  have "unat (drop_bit l (h div ?S)) = unat h div 4096 div L"
    by (simp add: unat_drop_bit unat_div_distrib pruning_consts L_def)
  moreover have "unat h div 4096 div L \<le> 500000001"
    by (rule le_trans [OF div_le_dividend], rule le_trans [OF div_le_dividend], rule assms(4))
  ultimately have cs: "unat (drop_bit l (h div ?S) + (if bs < stripe then 0 else 1)) = m"
    by (auto simp: m_def word_less_nat_alt assms(2,5) unat_plus_exact)
  have P: "unat (push_bit l ?S) = 4096 * L"
    using L by (subst unat_push_bit_mod) (simp add: pruning_consts L_def [symmetric])
  have sS: "unat (ucast (stripe - 1) * ?S) = t * 4096"
    using L tL assms(2) by (subst unat_times_exact) (simp_all add: unat_ucast_up unat_sub word_le_nat_alt pruning_consts)
  show "unat ((drop_bit l (h div ?S) + (if bs < stripe then 0 else 1)) * push_bit l ?S + ucast (stripe - 1) * ?S)
    = next_stripe_start l t (unat h) * 4096"
    using mb unfolding n by (subst unat_plus_exact) (simp_all add: unat_times_exact cs P sS)
  show "next_stripe_start l t (unat h) * 4096 < 2000000000" using mb n by simp
qed

lemma next_unpruned_exact:
  assumes "make_pruning_seed stripe log = Some seed" "log \<noteq> 0" "unat h \<le> 500000001" "unat H \<le> 500000001"
    "unat h + 5500 < unat H"
  defines "t \<equiv> unat stripe - 1" and "l \<equiv> unat log"
  shows "unat (get_next_unpruned_block_height h H seed) =
    (if stripe_index l (unat h) = t then unat h
     else if unat H < next_stripe_start l t (unat h) * 4096 + 5500 then unat H - 5500
     else next_stripe_start l t (unat h) * 4096)"
proof -
  note f = make_pruning_seed_fields [OF assms(1)] and r = make_pruning_seed_read [OF assms(1)]
  have s: "seed \<noteq> 0" using r(2) assms(2) by simp
  have st: "stripe \<noteq> 0" using f(2) by auto
  have t: "unat stripe = t + 1" "t < 2 ^ l" using f(2,3) by (simp_all add: t_def l_def)
  define bs :: u32 where
    "bs = ucast ((h div CRYPTONOTE_PRUNING_STRIPE_SIZE AND (push_bit l 1 - 1)) + 1)"
  have bs: "unat bs = stripe_index l (unat h) + 1"
    using stripe_word [OF f(1), of h] by (simp add: bs_def l_def)
  define hh where "hh = (drop_bit l (h div CRYPTONOTE_PRUNING_STRIPE_SIZE) + (if bs < stripe then 0 else 1))
      * push_bit l CRYPTONOTE_PRUNING_STRIPE_SIZE + ucast (stripe - 1) * CRYPTONOTE_PRUNING_STRIPE_SIZE"
  have hh: "unat hh = next_stripe_start l t (unat h) * 4096" "next_stripe_start l t (unat h) * 4096 < 2000000000"
    using next_height_word [OF f(1) [folded l_def] t assms(3) bs] by (simp_all add: hh_def)
  have tip: "unat (h + CRYPTONOTE_PRUNING_TIP_BLOCKS) = unat h + 5500"
    "unat (hh + CRYPTONOTE_PRUNING_TIP_BLOCKS) = unat hh + 5500"
    using assms(3) hh by (simp_all add: unat_plus_exact pruning_consts)
  have H: "h \<le> CRYPTONOTE_MAX_BLOCK_NUMBER + 1" "H \<le> CRYPTONOTE_MAX_BLOCK_NUMBER + 1"
    "\<not> H \<le> h + CRYPTONOTE_PRUNING_TIP_BLOCKS" "\<not> H < CRYPTONOTE_PRUNING_TIP_BLOCKS"
    using assms(3-5) tip by (simp_all add: word_le_nat_alt word_less_nat_alt pruning_consts)
  have e: "get_next_unpruned_block_height h H seed = (if bs = stripe then h
     else if H < hh + CRYPTONOTE_PRUNING_TIP_BLOCKS then H - CRYPTONOTE_PRUNING_TIP_BLOCKS
     else if \<not> h \<le> hh then h else hh)"
    using H s st assms(2) unfolding get_next_unpruned_block_height_def Let_def r(1) r(3) [OF s]
    by (simp add: hh_def bs_def l_def)
  have eq: "bs = stripe \<longleftrightarrow> stripe_index l (unat h) = t"
    using bs t(1) by (metis add_right_cancel word_unat_eqI)
  have gt: "h \<le> hh" if "stripe_index l (unat h) \<noteq> t"
    using next_stripe_nat(1) [of t "2 ^ l" "unat h"] that t(2) hh(1)
    by (simp add: word_le_nat_alt next_stripe_start_def stripe_index_def)
  have sub: "unat (H - CRYPTONOTE_PRUNING_TIP_BLOCKS) = unat H - 5500"
    using H(4) by (subst unat_sub) (simp_all add: not_less pruning_consts)
  show ?thesis
    unfolding e eq using gt sub by (simp add: word_less_nat_alt tip hh(1))
qed

lemma next_stripe_start_spec:
  assumes "t < 2 ^ l" "stripe_index l h \<noteq> t"
  shows "h < next_stripe_start l t h * 4096" "stripe_index l (next_stripe_start l t h * 4096) = t"
    "h \<le> k \<Longrightarrow> k < next_stripe_start l t h * 4096 \<Longrightarrow> stripe_index l k \<noteq> t"
proof -
  have n: "next_stripe_start l t h
      = (h div 4096 div 2 ^ l + (if h div 4096 mod 2 ^ l < t then 0 else 1)) * 2 ^ l + t"
    by (simp add: next_stripe_start_def stripe_index_def)
  have ne: "h div 4096 mod 2 ^ l \<noteq> t" using assms(2) by (simp add: stripe_index_def)
  note s = next_stripe_nat [OF assms(1) ne, folded n]
  show "h < next_stripe_start l t h * 4096" by (rule s(1))
  show "stripe_index l (next_stripe_start l t h * 4096) = t" using s(2) by (simp add: stripe_index_def)
  show "h \<le> k \<Longrightarrow> k < next_stripe_start l t h * 4096 \<Longrightarrow> stripe_index l k \<noteq> t"
    unfolding stripe_index_def by (rule s(3))
qed

lemma next_stripe_adjacent:
  assumes "0 < l" "t = stripe_index l h"
  shows "next_stripe_start l ((t + 1) mod 2 ^ l) h = h div 4096 + 1" "(t + 1) mod 2 ^ l \<noteq> t"
proof -
  define L :: nat where "L = 2 ^ l"
  have L: "2 \<le> L" using power_increasing [of 1 l "2 :: nat"] assms(1) by (simp add: L_def)
  have t: "t < L" "t = h div 4096 mod L" using assms(2) by (simp_all add: stripe_index_def L_def)
  have b: "h div 4096 div L * L + t = h div 4096" using t(2) by simp
  show "next_stripe_start l ((t + 1) mod 2 ^ l) h = h div 4096 + 1"
  proof (cases "t + 1 = L")
    case True
    then show ?thesis using b t(1) by (simp add: next_stripe_start_def L_def [symmetric] algebra_simps)
  next
    case False
    with t have "(t + 1) mod L = t + 1" by simp
    then show ?thesis using b assms(2) by (simp add: next_stripe_start_def L_def [symmetric])
  qed
  show "(t + 1) mod 2 ^ l \<noteq> t" using L t(1) by (cases "t + 1 = L") (auto simp: L_def [symmetric])
qed

lemma next_pruned_below_tip:
  assumes "make_pruning_seed stripe log = Some seed" "h \<le> 500000001" "H \<le> 500000001"
    and log: "log \<noteq> 0" and tip: "unat h + 5500 < unat H"
  shows "\<exists>r. get_next_pruned_block_height h H seed = Some r \<and>
    (\<forall>k. h \<le> k \<and> k < r \<longrightarrow> has_unpruned_block k H seed) \<and>
    (\<not> has_unpruned_block r H seed \<or> seed = 0 \<or> H \<le> r + 5500)"
proof -
  let ?t = "unat stripe - 1" and ?l = "unat log"
  have hH: "unat h \<le> 500000001" "unat H \<le> 500000001" using assms(2,3) by (simp_all add: word_le_nat_alt)
  note f = make_pruning_seed_fields [OF assms(1)] and r = make_pruning_seed_read [OF assms(1)]
  have s: "seed \<noteq> 0" "stripe \<noteq> 0" using r(2) log f(2) by auto
  note un = has_unpruned_block_iff [OF assms(1) log _ hH(2)]
  define bs :: u32 where
    "bs = ucast ((h div CRYPTONOTE_PRUNING_STRIPE_SIZE AND (push_bit ?l 1 - 1)) + 1)"
  have bs: "unat bs = stripe_index ?l (unat h) + 1" using stripe_word [OF f(1), of h] by (simp add: bs_def)
  have "unat (h + CRYPTONOTE_PRUNING_TIP_BLOCKS) = unat h + 5500"
    using hH by (subst unat_plus_exact) (simp_all add: pruning_consts)
  then have e: "get_next_pruned_block_height h H seed = (if bs \<noteq> stripe then Some h
      else map_option (get_next_unpruned_block_height h H)
        (make_pruning_seed (1 + ucast (ucast bs AND (push_bit ?l 1 - 1 :: u64))) log))"
    using s log tip unfolding get_next_pruned_block_height_def Let_def r(1) r(3) [OF s(1)]
    by (simp add: bs_def word_le_nat_alt)
  show ?thesis
  proof (cases "bs = stripe")
    case False
    then have "stripe_index ?l (unat h) \<noteq> ?t" using bs f(2) by (auto intro: word_unat_eqI)
    then have "\<not> has_unpruned_block h H seed" using un [OF hH(1)] tip by simp
    with False show ?thesis by (auto simp: e)
  next
    case True
    define t' where "t' = (?t + 1) mod 2 ^ ?l"
    have i: "stripe_index ?l (unat h) = ?t" using True bs by simp
    have l: "0 < ?l" using log by (simp add: unat_gt_0)
    note adj = next_stripe_adjacent [OF l i [symmetric], folded t'_def]
    define ns :: u32 where "ns = 1 + ucast (ucast bs AND (push_bit ?l 1 - 1 :: u64))"
    have t'L: "t' < 2 ^ ?l" by (simp add: t'_def)
    have "(2 :: nat) ^ ?l \<le> 2 ^ 7" using f(1) by (intro power_increasing) simp_all
    then have "t' < 128" using t'L by simp
    moreover have "unat (ucast bs AND (push_bit ?l 1 - 1) :: u64) = t'"
      using True f(1,2) by (simp only: shift_mask unat_and_mask) (simp add: unat_ucast_up t'_def shift_mask unat_and_mask)
    ultimately have ns: "unat ns = t' + 1" by (simp add: ns_def unat_plus_exact unat_ucast_mod)
    obtain seed' where s': "make_pruning_seed ns log = Some seed'"
      using make_pruning_seed_defined [of log ns] f(1) ns t'L by auto
    define n where "n = get_next_unpruned_block_height h H seed'"
    have n: "unat n = (if unat H < (unat h div 4096 + 1) * 4096 + 5500 then unat H - 5500
        else (unat h div 4096 + 1) * 4096)"
      using next_unpruned_exact [OF s' log hH tip] ns adj i by (simp add: n_def)
    have "has_unpruned_block k H seed" if k: "h \<le> k" "k < n" for k
    proof -
      have k': "unat h \<le> unat k" "unat k < unat n" using k by (simp_all add: word_le_nat_alt word_less_nat_alt)
      then have "unat k < (unat h div 4096 + 1) * 4096" using n by (auto split: if_splits)
      then have "unat k div 4096 = unat h div 4096" using k'(1) div_le_mono [of "unat h" "unat k" 4096]
        by (simp add: le_antisym less_Suc_eq_le div_less_iff_less_mult)
      then have "stripe_index ?l (unat k) = ?t" using i by (simp add: stripe_index_def)
      moreover have "unat k \<le> 500000001" using k'(2) n hH(2) tip by (auto split: if_splits)
      ultimately show ?thesis using un by simp
    qed
    moreover have "\<not> has_unpruned_block n H seed \<or> H \<le> n + 5500"
    proof -
      have nb: "unat n \<le> 500000001" using n hH(2) by (auto split: if_splits)
      then have n5: "unat (n + 5500) = unat n + 5500" by (simp add: unat_plus_exact)
      show ?thesis
      proof (cases "unat H \<le> unat n + 5500")
        case False
        then have "unat n = next_stripe_start ?l t' (unat h) * 4096" using n adj(1) tip by (auto split: if_splits)
        then have "stripe_index ?l (unat n) = t'" using next_stripe_start_spec(2) [OF t'L] adj(2) i by simp
        then show ?thesis using un [OF nb] False adj(2) by simp
      qed (simp add: word_le_nat_alt n5)
    qed
    moreover have "get_next_pruned_block_height h H seed = Some n"
      unfolding e ns_def [symmetric] s' n_def using True by simp
    ultimately show ?thesis by blast
  qed
qed

subsection \<open>Properties\<close>

text \<open>C4: for every seed that can be made and all heights up to the protocol's maximum, the next unpruned
  height is the least height from the given one on whose block the node keeps.\<close>
theorem next_unpruned_least:
  assumes "make_pruning_seed stripe log = Some seed" "h \<le> 500000001" "H \<le> 500000001"
  shows "h \<le> get_next_unpruned_block_height h H seed \<and>
    has_unpruned_block (get_next_unpruned_block_height h H seed) H seed \<and>
    (\<forall>k. h \<le> k \<and> k < get_next_unpruned_block_height h H seed \<longrightarrow> \<not> has_unpruned_block k H seed)"
proof (cases "log = 0 \<or> unat H \<le> unat h + 5500")
  case True
  have t: "unat (h + CRYPTONOTE_PRUNING_TIP_BLOCKS) = unat h + 5500"
    using assms(2) by (subst unat_plus_exact) (simp_all add: pruning_consts word_le_nat_alt)
  have "get_next_unpruned_block_height h H seed = h" "has_unpruned_block h H seed"
    using True make_pruning_seed_read(2) [OF assms(1)] t
    by (auto simp: get_next_unpruned_block_height_def has_unpruned_block_def get_pruning_stripe_def
        get_pruning_stripe_of_seed_def Let_def word_le_nat_alt)
  then show ?thesis by auto
next
  case False
  let ?n = "get_next_unpruned_block_height h H seed" and ?t = "unat stripe - 1" and ?l = "unat log"
  have hH: "unat h \<le> 500000001" "unat H \<le> 500000001" using assms(2,3) by (simp_all add: word_le_nat_alt)
  have log: "log \<noteq> 0" and tip: "unat h + 5500 < unat H" using False by simp_all
  note f = make_pruning_seed_fields [OF assms(1)]
  have tl: "?t < 2 ^ ?l" using f(2,3) by simp
  note n = next_unpruned_exact [OF assms(1) log hH tip]
  note un = has_unpruned_block_iff [OF assms(1) log _ hH(2)]
  note sp = next_stripe_start_spec [OF tl, of "unat h"]
  have le: "unat h \<le> unat ?n" "unat ?n \<le> 500000001"
    using n sp(1) tip hH by (auto split: if_splits)
  have "has_unpruned_block ?n H seed"
    using un [OF le(2)] n sp(2) tip by (auto split: if_splits)
  moreover have "\<not> has_unpruned_block k H seed" if k: "h \<le> k" "k < ?n" for k
  proof -
    have k': "unat h \<le> unat k" "unat k < unat ?n" using k by (simp_all add: word_le_nat_alt word_less_nat_alt)
    then have "unat k \<le> 500000001" using le(2) by linarith
    then show ?thesis using un [of k] n sp(3) [of "unat k"] k' tip by (auto split: if_splits)
  qed
  ultimately show ?thesis using le(1) by (auto simp: word_le_nat_alt)
qed

theorem next_unpruned_least_witness:
  "get_next_unpruned_block_height 100 100000 386 = 8192 \<and> has_unpruned_block 8192 100000 386 \<and>
   \<not> has_unpruned_block 8191 100000 386"
proof -
  have "make_pruning_seed 3 3 = Some 386" by code_simp
  note l = next_unpruned_least [OF this, of 100 100000]
  have "get_next_unpruned_block_height 100 100000 386 = 8192" by code_simp
  then show ?thesis using l by simp
qed

text \<open>The next pruned height never throws for a seed that can be made, skips only blocks the node keeps,
  and stops either at a block it does not keep or inside the tip, where it keeps everything.\<close>
lemma next_pruned_spec:
  assumes "make_pruning_seed stripe log = Some seed" "h \<le> 500000001" "H \<le> 500000001"
  shows "\<exists>r. get_next_pruned_block_height h H seed = Some r \<and>
    (\<forall>k. h \<le> k \<and> k < r \<longrightarrow> has_unpruned_block k H seed) \<and>
    (\<not> has_unpruned_block r H seed \<or> seed = 0 \<or> H \<le> r + 5500)"
proof (cases "log = 0 \<or> unat H \<le> unat h + 5500")
  case True
  have "has_unpruned_block k H seed" if "h \<le> k" "k < H" for k
  proof -
    have "unat (k + CRYPTONOTE_PRUNING_TIP_BLOCKS) = unat k + 5500"
      using that assms(3) by (subst unat_plus_exact) (simp_all add: pruning_consts word_le_nat_alt word_less_nat_alt)
    then show ?thesis
      using that True make_pruning_seed_read(2) [OF assms(1)]
      by (auto simp: has_unpruned_block_def get_pruning_stripe_def get_pruning_stripe_of_seed_def Let_def
          word_le_nat_alt word_less_nat_alt)
  qed
  moreover have "unat (h + CRYPTONOTE_PRUNING_TIP_BLOCKS) = unat h + 5500"
    using assms(2) by (subst unat_plus_exact) (simp_all add: pruning_consts word_le_nat_alt)
  then have "get_next_pruned_block_height h H seed = Some H"
    using True make_pruning_seed_read(2) [OF assms(1)]
    by (auto simp: get_next_pruned_block_height_def get_pruning_stripe_of_seed_def Let_def word_le_nat_alt)
  moreover have "H \<le> H + 5500"
    using assms(3) by (simp add: word_le_nat_alt unat_plus_exact)
  ultimately show ?thesis by blast
next
  case False
  then show ?thesis by (intro next_pruned_below_tip [OF assms]) auto
qed

lemma next_pruned_spec_example:
  "\<exists>r. get_next_pruned_block_height 8200 100000 386 = Some r \<and> r = 12288 \<and> has_unpruned_block 12287 100000 386 \<and>
    \<not> has_unpruned_block r 100000 386"
proof -
  have "make_pruning_seed 3 3 = Some 386" by code_simp
  note l = next_pruned_spec [OF this, of 8200 100000]
  have "get_next_pruned_block_height 8200 100000 386 = Some 12288" by code_simp
  then show ?thesis using l by simp
qed

text \<open>The stripe and the number of stripes can be read back from every seed that can be made with at
  least two stripes, and every stripe in range can be made.\<close>
lemma pruning_seed_roundtrip:
  assumes "1 \<le> log" "log \<le> 7" "1 \<le> stripe" "unat stripe \<le> 2 ^ unat log"
  shows "\<exists>seed. make_pruning_seed stripe log = Some seed \<and> get_pruning_stripe_of_seed seed = stripe \<and>
    get_pruning_log_stripes seed = log"
proof -
  obtain seed where s: "make_pruning_seed stripe log = Some seed"
    using make_pruning_seed_defined [of log stripe] assms by (auto simp: word_le_nat_alt)
  moreover have "log \<noteq> 0" using assms(1) by auto
  ultimately show ?thesis using make_pruning_seed_read [OF s] by auto
qed

lemma pruning_seed_roundtrip_example:
  "\<exists>seed. make_pruning_seed 5 3 = Some seed \<and> get_pruning_stripe_of_seed seed = 5 \<and> get_pruning_log_stripes seed = 3"
  by (rule pruning_seed_roundtrip) simp_all

end
