(* ===== verification/Hard_Fork.thy ===== *)
theory Hard_Fork
  imports Hidering_Prelude "HOL-Library.Sublist"
begin

section \<open>Hard forks (\<open>src/cryptonote_basic/hardfork.cpp\<close>, \<open>src/hardforks/hardforks.cpp\<close>)\<close>

text \<open>
  The object \<open>HardFork\<close> together with what it reads and writes in the block database: the version
  fields of the stored blocks and the table of recorded fork versions. An operation that can throw,
  fail an assertion or run off a container returns \<open>None\<close> there. The vector index
  \<open>current_fork_index\<close> is a natural number; \<open>uint8_t voted\<close> keeps its 8 bits.
\<close>

record hardfork_t =
  hf_version :: u8
  hf_height :: u64
  hf_threshold :: u8
  hf_time :: int

record block_header =
  major_version :: u8
  minor_version :: u8

record hard_fork =
  db_blocks :: "block_header list"
  db_versions :: "u64 \<rightharpoonup> u8"
  forked_time :: int
  update_time :: int
  window_size :: u64
  default_threshold_percent :: u8
  original_version :: u8
  original_version_till_height :: u64
  heights :: "hardfork_t list"
  versions :: "u8 list"
  last_versions :: "u8 \<Rightarrow> u32"
  current_fork_index :: nat

datatype fork_state = LikelyForked | UpdateNeeded | Ready

definition db_height :: "hard_fork \<Rightarrow> u64" where
  "db_height s = of_nat (length (db_blocks s))"

definition get_block_vote :: "block_header \<Rightarrow> u8" where
  "get_block_vote b = (if minor_version b = 0 then 1 else minor_version b)"

definition HardFork_new ::
  "block_header list \<Rightarrow> (u64 \<rightharpoonup> u8) \<Rightarrow> u8 \<Rightarrow> u64 \<Rightarrow> int \<Rightarrow> int \<Rightarrow> u64 \<Rightarrow> u8 \<Rightarrow> hard_fork option" where
  "HardFork_new blocks dbv original till forked update window percent =
     (if window = 0 then None
      else if 100 < percent then None
      else Some \<lparr>db_blocks = blocks, db_versions = dbv, forked_time = forked, update_time = update,
        window_size = window, default_threshold_percent = percent, original_version = original,
        original_version_till_height = till, heights = [], versions = [], last_versions = (\<lambda>_. 0),
        current_fork_index = 0\<rparr>)"

definition add_fork :: "u8 \<Rightarrow> u64 \<Rightarrow> u8 \<Rightarrow> int \<Rightarrow> hard_fork \<Rightarrow> bool \<times> hard_fork" where
  "add_fork version height threshold time s =
     (if version = 0 then (False, s)
      else if heights s \<noteq> [] \<and> version \<le> hf_version (last (heights s)) then (False, s)
      else if heights s \<noteq> [] \<and> height \<le> hf_height (last (heights s)) then (False, s)
      else if heights s \<noteq> [] \<and> time \<le> hf_time (last (heights s)) then (False, s)
      else if 100 < threshold then (False, s)
      else (True, s\<lparr>heights := heights s @
        [\<lparr>hf_version = version, hf_height = height, hf_threshold = threshold, hf_time = time\<rparr>]\<rparr>))"

definition add_fork_default :: "u8 \<Rightarrow> u64 \<Rightarrow> int \<Rightarrow> hard_fork \<Rightarrow> bool \<times> hard_fork" where
  "add_fork_default version height time s = add_fork version height (default_threshold_percent s) time s"

definition get_effective_version :: "hard_fork \<Rightarrow> u8 \<Rightarrow> u8" where
  "get_effective_version s voting_version =
     (if heights s \<noteq> [] \<and> hf_version (last (heights s)) < voting_version
      then hf_version (last (heights s)) else voting_version)"

fun voted_loop :: "hard_fork \<Rightarrow> u64 \<Rightarrow> nat \<Rightarrow> u32 \<Rightarrow> nat" where
  "voted_loop s height 0 accumulated_votes = current_fork_index s"
| "voted_loop s height (Suc n) accumulated_votes =
     (let f = heights s ! n;
          accumulated_votes = accumulated_votes + last_versions s (hf_version f);
          threshold = (ucast ((window_size s * ucast (hf_threshold f) + 99) div 100) :: u32)
      in if hf_height f \<le> height \<and> threshold \<le> accumulated_votes then n
         else voted_loop s height n accumulated_votes)"

definition get_voted_fork_index :: "hard_fork \<Rightarrow> u64 \<Rightarrow> nat" where
  "get_voted_fork_index s height = voted_loop s height (length (heights s)) 0"

definition do_check :: "hard_fork \<Rightarrow> u8 \<Rightarrow> u8 \<Rightarrow> bool" where
  "do_check s block_version voting_version \<longleftrightarrow>
     block_version = hf_version (heights s ! current_fork_index s) \<and>
     hf_version (heights s ! current_fork_index s) \<le> voting_version"

definition check :: "hard_fork \<Rightarrow> block_header \<Rightarrow> bool" where
  "check s b = do_check s (major_version b) (get_block_vote b)"

definition do_check_for_height :: "hard_fork \<Rightarrow> u8 \<Rightarrow> u8 \<Rightarrow> u64 \<Rightarrow> bool" where
  "do_check_for_height s block_version voting_version height =
     (let fork_index = get_voted_fork_index s height
      in block_version = hf_version (heights s ! fork_index) \<and>
         hf_version (heights s ! fork_index) \<le> voting_version)"

definition check_for_height :: "hard_fork \<Rightarrow> block_header \<Rightarrow> u64 \<Rightarrow> bool" where
  "check_for_height s b height = do_check_for_height s (major_version b) (get_block_vote b) height"

text \<open>\<open>while (versions.size() >= window_size)\<close> drops the oldest vote, with its assertion.\<close>

fun shrink_window :: "u64 \<Rightarrow> u8 list \<Rightarrow> (u8 \<Rightarrow> u32) \<Rightarrow> (u8 list \<times> (u8 \<Rightarrow> u32)) option" where
  "shrink_window window [] counts = (if window = 0 then None else Some ([], counts))"
| "shrink_window window (old_version # vs) counts =
     (if window \<le> of_nat (length (old_version # vs))
      then if 1 \<le> counts old_version
           then shrink_window window vs (counts(old_version := counts old_version - 1))
           else None
      else Some (old_version # vs, counts))"

definition push_vote :: "u8 \<Rightarrow> hard_fork \<Rightarrow> hard_fork" where
  "push_vote v s = s\<lparr>last_versions := (last_versions s)(v := last_versions s v + 1), versions := versions s @ [v]\<rparr>"

definition advance_index :: "u64 \<Rightarrow> hard_fork \<Rightarrow> hard_fork" where
  "advance_index height s =
     (let voted = get_voted_fork_index s height mod 256
      in if current_fork_index s < voted then s\<lparr>current_fork_index := voted\<rparr> else s)"

definition add_versions :: "u8 \<Rightarrow> u8 \<Rightarrow> u64 \<Rightarrow> hard_fork \<Rightarrow> (bool \<times> hard_fork) option" where
  "add_versions block_version voting_version height s =
     (if \<not> do_check s block_version voting_version then Some (False, s)
      else let s = s\<lparr>db_versions := (db_versions s)(height \<mapsto> hf_version (heights s ! current_fork_index s))\<rparr>;
               voting_version = get_effective_version s voting_version
           in case shrink_window (window_size s) (versions s) (last_versions s) of
                None \<Rightarrow> None
              | Some (vs, counts) \<Rightarrow>
                  let s = push_vote voting_version (s\<lparr>versions := vs, last_versions := counts\<rparr>)
                  in Some (True, advance_index (height + 1) s))"

definition add_block :: "block_header \<Rightarrow> u64 \<Rightarrow> hard_fork \<Rightarrow> (bool \<times> hard_fork) option" where
  "add_block b height s = add_versions (major_version b) (get_block_vote b) height s"

definition clear_votes :: "hard_fork \<Rightarrow> hard_fork" where
  "clear_votes s = s\<lparr>versions := [], last_versions := (\<lambda>_. 0)\<rparr>"

definition scan_vote :: "nat \<Rightarrow> hard_fork \<Rightarrow> hard_fork" where
  "scan_vote h s = push_vote (get_effective_version s (get_block_vote (db_blocks s ! h))) s"

definition scan_votes :: "nat \<Rightarrow> nat \<Rightarrow> hard_fork \<Rightarrow> hard_fork" where
  "scan_votes from to s = fold scan_vote [from..<to] s"

fun find_fork :: "hardfork_t list \<Rightarrow> u8 \<Rightarrow> nat" where
  "find_fork (f # g # fs) v = (if hf_version f \<noteq> v then Suc (find_fork (g # fs) v) else 0)"
| "find_fork _ v = 0"

definition rescan_from_block_height :: "u64 \<Rightarrow> hard_fork \<Rightarrow> (bool \<times> hard_fork) option" where
  "rescan_from_block_height height s =
     (if db_height s \<le> height then Some (False, s)
      else let s = scan_votes (unat height) (length (db_blocks s)) (clear_votes s)
           in case db_versions s (db_height s - 1) of
                None \<Rightarrow> None
              | Some lastv \<Rightarrow>
                  Some (True, advance_index (db_height s) (s\<lparr>current_fork_index := find_fork (heights s) lastv\<rparr>)))"

definition rescan_from_chain_height :: "u64 \<Rightarrow> hard_fork \<Rightarrow> (bool \<times> hard_fork) option" where
  "rescan_from_chain_height height s =
     (if height = 0 then Some (False, s) else rescan_from_block_height (height - 1) s)"

definition init :: "hard_fork \<Rightarrow> hard_fork option" where
  "init s =
     (let s = (if heights s = [] then s\<lparr>heights :=
                 [\<lparr>hf_version = original_version s, hf_height = 0, hf_threshold = 0, hf_time = 0\<rparr>]\<rparr> else s);
          s = (clear_votes s)\<lparr>current_fork_index := 0\<rparr>;
          height = db_height s;
          height = (if window_size s < height then height - (window_size s - 1) else 1)
      in map_option snd (rescan_from_chain_height height s))"

definition get_block_version :: "hard_fork \<Rightarrow> u64 \<Rightarrow> u8 option" where
  "get_block_version s height =
     (if height \<le> original_version_till_height s then Some (original_version s)
      else if unat height < length (db_blocks s) then Some (major_version (db_blocks s ! unat height))
      else None)"

fun lower_index :: "hardfork_t list \<Rightarrow> u8 \<Rightarrow> nat \<Rightarrow> nat" where
  "lower_index hs start_version 0 = 0"
| "lower_index hs start_version (Suc n) =
     (if start_version < hf_version (hs ! Suc n) then lower_index hs start_version n else Suc n)"

fun add_range :: "nat list \<Rightarrow> hard_fork \<Rightarrow> hard_fork option" where
  "add_range [] s = Some s"
| "add_range (h # hs) s =
     (case add_block (db_blocks s ! h) (of_nat h) s of None \<Rightarrow> None | Some (_, s) \<Rightarrow> add_range hs s)"

definition reorganize_from_block_height :: "u64 \<Rightarrow> hard_fork \<Rightarrow> (bool \<times> hard_fork) option" where
  "reorganize_from_block_height height s =
     (if db_height s \<le> height then Some (False, s)
      else let s = clear_votes s;
               rescan_height = (if window_size s - 1 \<le> height then height - (window_size s - 1) else 0)
           in case (if height = 0 then Some (original_version s) else db_versions s height) of
                None \<Rightarrow> None
              | Some start_version \<Rightarrow>
                  let s = s\<lparr>current_fork_index := lower_index (heights s) start_version (current_fork_index s)\<rparr>;
                      s = scan_votes (unat rescan_height) (Suc (unat height)) s;
                      s = advance_index (height + 1) s
                  in map_option (\<lambda>s. (True, s)) (add_range [Suc (unat height)..<length (db_blocks s)] s))"

definition reorganize_from_chain_height :: "u64 \<Rightarrow> hard_fork \<Rightarrow> (bool \<times> hard_fork) option" where
  "reorganize_from_chain_height height s =
     (if height = 0 then Some (False, s) else reorganize_from_block_height (height - 1) s)"

fun scheduled_from :: "hardfork_t list \<Rightarrow> u64 \<Rightarrow> nat \<Rightarrow> nat" where
  "scheduled_from hs height 0 = 0"
| "scheduled_from hs height (Suc n) =
     (if hf_height (hs ! Suc n) \<le> height then Suc n else scheduled_from hs height n)"

text \<open>
  One round of the loop of \<open>on_block_popped\<close>; the loop runs down from the old top to the new chain
  height. With a new chain height of 0 its condition \<open>height >= new_chain_height\<close> is always true.
\<close>

definition pop_vote :: "nat \<Rightarrow> hard_fork \<Rightarrow> hard_fork option" where
  "pop_vote height s =
     (if versions s = [] then None
      else let version = last (versions s);
               s = s\<lparr>last_versions := (last_versions s)(version := last_versions s version - 1),
                     versions := butlast (versions s)\<rparr>
           in case db_versions s (of_nat height) of
                None \<Rightarrow> None
              | Some version \<Rightarrow>
                  Some (s\<lparr>versions := version # versions s,
                          last_versions := (last_versions s)(version := last_versions s version + 1)\<rparr>))"

fun pop_votes :: "nat list \<Rightarrow> hard_fork \<Rightarrow> hard_fork option" where
  "pop_votes [] s = Some s"
| "pop_votes (h # hs) s = (case pop_vote h s of None \<Rightarrow> None | Some s \<Rightarrow> pop_votes hs s)"

definition on_block_popped :: "nat \<Rightarrow> hard_fork \<Rightarrow> hard_fork option" where
  "on_block_popped nblocks s =
     (let new_chain_height = length (db_blocks s) in
      if nblocks = 0 \<or> new_chain_height = 0 then None
      else map_option (\<lambda>s. s\<lparr>current_fork_index :=
               scheduled_from (heights s) (of_nat new_chain_height) (length (heights s) - 1)\<rparr>)
             (pop_votes (rev [new_chain_height..<new_chain_height + nblocks]) s))"

definition get_state :: "hard_fork \<Rightarrow> int \<Rightarrow> fork_state" where
  "get_state s t =
     (if length (heights s) \<le> 1 then Ready
      else let t_last_fork = hf_time (last (heights s))
           in if t_last_fork + forked_time s \<le> t then LikelyForked
              else if t_last_fork + update_time s \<le> t then UpdateNeeded
              else Ready)"

definition get_current_version :: "hard_fork \<Rightarrow> u8" where
  "get_current_version s = hf_version (heights s ! current_fork_index s)"

definition get_version :: "hard_fork \<Rightarrow> u64 \<Rightarrow> u8 option" where
  "get_version s height =
     (if db_height s < height then None
      else if height = db_height s then Some (get_current_version s)
      else db_versions s height)"

definition get_ideal_version_latest :: "hard_fork \<Rightarrow> u8" where
  "get_ideal_version_latest s = hf_version (last (heights s))"

fun ideal_loop :: "hard_fork \<Rightarrow> u64 \<Rightarrow> nat \<Rightarrow> u8" where
  "ideal_loop s height 0 = original_version s"
| "ideal_loop s height (Suc n) =
     (if hf_height (heights s ! Suc n) \<le> height then hf_version (heights s ! Suc n)
      else ideal_loop s height n)"

definition get_ideal_version :: "hard_fork \<Rightarrow> u64 \<Rightarrow> u8" where
  "get_ideal_version s height = ideal_loop s height (length (heights s) - 1)"

fun earliest_loop :: "u8 \<Rightarrow> hardfork_t list \<Rightarrow> u64 \<Rightarrow> u64" where
  "earliest_loop version [] height = height"
| "earliest_loop version (f # fs) height =
     (if version \<le> hf_version f then earliest_loop version fs (hf_height f) else height)"

definition get_earliest_ideal_height_for_version :: "hard_fork \<Rightarrow> u8 \<Rightarrow> u64" where
  "get_earliest_ideal_height_for_version s version = earliest_loop version (rev (heights s)) (-1)"

fun next_loop :: "u64 \<Rightarrow> u8 \<Rightarrow> hardfork_t option \<Rightarrow> hardfork_t list \<Rightarrow> u8" where
  "next_loop height original later [] = original"
| "next_loop height original later (f # fs) =
     (if hf_height f \<le> height then hf_version (case later of None \<Rightarrow> f | Some g \<Rightarrow> g)
      else next_loop height original (Some f) fs)"

definition get_next_version :: "hard_fork \<Rightarrow> u8" where
  "get_next_version s = next_loop (db_height s) (original_version s) None (rev (heights s))"

definition get_voting_info :: "hard_fork \<Rightarrow> u8 \<Rightarrow> bool \<times> u32 \<times> u32 \<times> u32 \<times> u64 \<times> u8" where
  "get_voting_info s version =
     (let current_version = hf_version (heights s ! current_fork_index s);
          enabled = (version \<le> current_version);
          window = of_nat (length (versions s));
          votes = foldl (\<lambda>a n. a + last_versions s (of_nat n)) 0 [unat version..<256];
          threshold = (window * ucast (hf_threshold (heights s ! current_fork_index s)) + 99) div 100;
          earliest_height = get_earliest_ideal_height_for_version s version;
          voting = hf_version (last (heights s))
      in (enabled, window, votes, threshold, earliest_height, voting))"

subsection \<open>The fork tables and their use\<close>

definition fork_row :: "u8 \<Rightarrow> u64 \<Rightarrow> u8 \<Rightarrow> int \<Rightarrow> hardfork_t" where
  "fork_row v h t time = \<lparr>hf_version = v, hf_height = h, hf_threshold = t, hf_time = time\<rparr>"

definition mainnet_hard_forks :: "hardfork_t list" where
  "mainnet_hard_forks =
     [fork_row 1 0 0 1713700000, fork_row 15 1 0 1713700001, fork_row 16 2000000 0 1713700002]"

definition testnet_hard_forks :: "hardfork_t list" where
  "testnet_hard_forks = [fork_row 1 0 0 1713700000, fork_row 15 1 0 1713700001]"

definition stagenet_hard_forks :: "hardfork_t list" where
  "stagenet_hard_forks = [fork_row 1 0 0 1713700000, fork_row 15 1 0 1713700001]"

definition register_forks :: "hardfork_t list \<Rightarrow> hard_fork \<Rightarrow> hard_fork" where
  "register_forks table s =
     fold (\<lambda>f s. snd (add_fork (hf_version f) (hf_height f) (hf_threshold f) (hf_time f) s)) table s"

text \<open>
  What storing a block (\<open>BlockchainDB::add_block\<close>) and popping one
  (\<open>Blockchain::pop_block_from_blockchain\<close>) do to the fork object and to the blocks it reads.
\<close>

definition connect_block :: "block_header \<Rightarrow> hard_fork \<Rightarrow> (bool \<times> hard_fork) option" where
  "connect_block b s =
     (let prev_height = db_height s in add_block b prev_height (s\<lparr>db_blocks := db_blocks s @ [b]\<rparr>))"

definition pop_block_from_blockchain :: "hard_fork \<Rightarrow> hard_fork option" where
  "pop_block_from_blockchain s =
     (if \<not> 1 < length (db_blocks s) then None else on_block_popped 1 (s\<lparr>db_blocks := butlast (db_blocks s)\<rparr>))"

subsection \<open>Fork tables\<close>

definition fork_before :: "hardfork_t \<Rightarrow> hardfork_t \<Rightarrow> bool" where
  "fork_before f g \<longleftrightarrow> hf_version f < hf_version g \<and> hf_height f < hf_height g \<and> hf_time f < hf_time g"

definition forks_ok :: "hardfork_t list \<Rightarrow> bool" where
  "forks_ok hs \<longleftrightarrow> sorted_wrt fork_before hs \<and> (\<forall>f \<in> set hs. 0 < hf_version f \<and> hf_threshold f \<le> 100)"

lemma sorted_wrt_snoc_last:
  assumes "sorted_wrt P xs" "transp P" "xs \<noteq> [] \<Longrightarrow> P (last xs) x"
  shows "sorted_wrt P (xs @ [x])"
  using assms by (cases xs rule: rev_cases) (auto simp: sorted_wrt_append dest: transpD)

lemma transp_fork_before: "transp fork_before"
  by (rule transpI) (auto simp: fork_before_def)

lemma add_fork_ok: "forks_ok (heights s) \<Longrightarrow> forks_ok (heights (snd (add_fork v h t time s)))"
  by (auto simp: add_fork_def forks_ok_def fork_before_def not_le word_neq_0_conv
      intro!: sorted_wrt_snoc_last transp_fork_before)

lemma add_fork_accepts_iff:
  "forks_ok (heights s) \<Longrightarrow>
   fst (add_fork v h t time s) \<longleftrightarrow> forks_ok (heights s @ [fork_row v h t time])"
proof
  assume ok: "forks_ok (heights s)" and a: "fst (add_fork v h t time s)"
  then have "heights (snd (add_fork v h t time s)) = heights s @ [fork_row v h t time]"
    by (auto simp: add_fork_def fork_row_def split: if_splits)
  then show "forks_ok (heights s @ [fork_row v h t time])" using add_fork_ok [OF ok, of v h t time] by simp
next
  assume "forks_ok (heights s @ [fork_row v h t time])"
  then have "0 < v" "t \<le> 100" "\<forall>f \<in> set (heights s). fork_before f (fork_row v h t time)"
    by (auto simp: forks_ok_def sorted_wrt_append fork_row_def)
  then show "fst (add_fork v h t time s)"
    by (auto simp: add_fork_def fork_before_def fork_row_def not_le not_less dest: bspec [OF _ last_in_set])
qed

subsection \<open>The voting window\<close>

definition votes_ok :: "hard_fork \<Rightarrow> bool" where
  "votes_ok s \<longleftrightarrow> (\<forall>v. last_versions s v = of_nat (count_list (versions s) v))"

definition window_ok :: "hard_fork \<Rightarrow> bool" where
  "window_ok s \<longleftrightarrow> 0 < unat (window_size s) \<and> unat (window_size s) < 2 ^ 32 \<and>
     length (versions s) \<le> unat (window_size s)"

lemma push_vote_ok: "votes_ok s \<Longrightarrow> votes_ok (push_vote v s)"
  by (auto simp: votes_ok_def push_vote_def)

lemma shrink_window_ok:
  assumes "\<forall>v. counts v = of_nat (count_list vs v)" "0 < unat w" "length vs < 2 ^ 32"
  shows "\<exists>vs' counts'. shrink_window w vs counts = Some (vs', counts') \<and>
    (\<forall>v. counts' v = of_nat (count_list vs' v)) \<and> length vs' < unat w \<and> suffix vs' vs"
  using assms
proof (induction w vs counts rule: shrink_window.induct)
  case (2 w old vs counts)
  have c: "counts old = of_nat (count_list vs old + 1)" using "2.prems"(1) by simp
  have "count_list vs old + 1 < 2 ^ 32" using count_le_length [of vs old] "2.prems"(3) by simp
  then have "unat (counts old) = count_list vs old + 1" unfolding c by (simp only: unat_of_nat) simp
  then have one: "1 \<le> counts old" by (simp add: word_le_nat_alt)
  have len: "w \<le> of_nat (length (old # vs)) \<longleftrightarrow> unat w \<le> length (old # vs)"
    using "2.prems"(3) by (simp only: word_le_nat_alt) (subst unat_of_nat64, simp_all)
  show ?case
  proof (cases "unat w \<le> length (old # vs)")
    case True
    have "\<forall>v. (counts(old := counts old - 1)) v = of_nat (count_list vs v)" using "2.prems"(1) by simp
    moreover have "length vs < 2 ^ 32" using "2.prems"(3) by simp
    ultimately have IH: "\<exists>vs' counts'. shrink_window w vs (counts(old := counts old - 1)) = Some (vs', counts') \<and>
        (\<forall>v. counts' v = of_nat (count_list vs' v)) \<and> length vs' < unat w \<and> suffix vs' vs"
      using "2.IH" [OF True [folded len] one] "2.prems"(2) by blast
    obtain vs' counts' where "shrink_window w vs (counts(old := counts old - 1)) = Some (vs', counts')"
      "\<forall>v. counts' v = of_nat (count_list vs' v)" "length vs' < unat w" "suffix vs' vs"
      using IH by blast
    then show ?thesis using True one by (auto simp: len suffix_ConsI simp del: of_nat_Suc list.size)
  next
    case False
    then show ?thesis using "2.prems"(1) by (auto simp: len simp del: of_nat_Suc list.size)
  qed
qed auto

lemma shrink_window_keeps:
  "votes_ok s \<Longrightarrow> window_ok s \<Longrightarrow>
   \<exists>vs counts. shrink_window (window_size s) (versions s) (last_versions s) = Some (vs, counts) \<and>
     votes_ok (s\<lparr>versions := vs, last_versions := counts\<rparr>) \<and> length vs < unat (window_size s)"
  using shrink_window_ok [of "last_versions s" "versions s" "window_size s"]
  by (auto simp: votes_ok_def window_ok_def)

lemma add_versions_ok:
  assumes "do_check s bv vv" "votes_ok s" "window_ok s"
  shows "\<exists>vs counts. let s' = push_vote (get_effective_version s vv) (s\<lparr>db_versions := (db_versions s)(h \<mapsto> get_current_version s),
        versions := vs, last_versions := counts\<rparr>)
     in add_versions bv vv h s = Some (True, advance_index (h + 1) s') \<and> votes_ok s' \<and> window_ok s'"
proof -
  obtain vs counts where sh: "shrink_window (window_size s) (versions s) (last_versions s) = Some (vs, counts)"
    "votes_ok (s\<lparr>versions := vs, last_versions := counts\<rparr>)" "length vs < unat (window_size s)"
    using shrink_window_keeps [OF assms(2,3)] by blast
  let ?s = "push_vote (get_effective_version s vv) (s\<lparr>db_versions := (db_versions s)(h \<mapsto> get_current_version s),
        versions := vs, last_versions := counts\<rparr>)"
  have "votes_ok ?s" using sh(2) by (intro push_vote_ok) (simp add: votes_ok_def)
  moreover have "window_ok ?s" using sh(3) assms(3) by (simp add: window_ok_def push_vote_def)
  moreover have "add_versions bv vv h s = Some (True, advance_index (h + 1) ?s)"
    using assms(1) sh(1)
    by (simp add: add_versions_def Let_def get_effective_version_def get_current_version_def)
  ultimately show ?thesis by (auto simp: Let_def intro!: exI [of _ vs] exI [of _ counts])
qed

subsection \<open>Counting votes\<close>

text \<open>The votes in the window for one of the forks from index \<open>n\<close> on, and the votes fork \<open>n\<close> needs.\<close>

definition votes_from :: "hard_fork \<Rightarrow> nat \<Rightarrow> nat" where
  "votes_from s n = length (filter (\<lambda>v. v \<in> hf_version ` set (drop n (heights s))) (versions s))"

definition votes_needed :: "hard_fork \<Rightarrow> nat \<Rightarrow> nat" where
  "votes_needed s n = (unat (window_size s) * unat (hf_threshold (heights s ! n)) + 99) div 100"

definition eligible :: "hard_fork \<Rightarrow> u64 \<Rightarrow> nat \<Rightarrow> bool" where
  "eligible s height n \<longleftrightarrow> n < length (heights s) \<and> hf_height (heights s ! n) \<le> height \<and>
     votes_needed s n \<le> votes_from s n"

lemma length_filter_insert:
  "v \<notin> A \<Longrightarrow> length (filter (\<lambda>x. x = v \<or> x \<in> A) xs) = count_list xs v + length (filter (\<lambda>x. x \<in> A) xs)"
  by (induction xs) auto

lemma votes_from_step:
  assumes "forks_ok (heights s)" "n < length (heights s)"
  shows "votes_from s n = count_list (versions s) (hf_version (heights s ! n)) + votes_from s (Suc n)"
proof -
  have d: "drop n (heights s) = heights s ! n # drop (Suc n) (heights s)"
    using assms(2) by (rule Cons_nth_drop_Suc [symmetric])
  have "sorted_wrt fork_before (drop n (heights s))" using assms(1) by (simp add: forks_ok_def sorted_wrt_drop)
  then have "hf_version (heights s ! n) \<notin> hf_version ` set (drop (Suc n) (heights s))"
    unfolding d by (auto simp: fork_before_def)
  then show ?thesis unfolding votes_from_def d by (simp add: length_filter_insert)
qed

lemma threshold_word:
  assumes "unat w < 2 ^ 32" "t \<le> 100"
  shows "unat (ucast ((w * ucast t + 99) div 100 :: u64) :: u32) = (unat w * unat (t :: u8) + 99) div 100"
proof -
  have t: "unat (ucast t :: u64) = unat t" "unat t \<le> 100"
    using assms(2) by (simp_all add: unat_ucast_up word_le_nat_alt)
  have p: "unat w * unat t \<le> 2 ^ 32 * 100" using assms(1) t(2) by (intro mult_le_mono) simp_all
  then have "unat (w * ucast t) = unat w * unat t" by (subst unat_times_exact) (simp_all add: t)
  then have "unat (w * ucast t + 99) = unat w * unat t + 99" using p by (subst unat_plus_exact) simp_all
  then have "unat ((w * ucast t + 99) div 100) = (unat w * unat t + 99) div 100" by (simp add: unat_div_distrib)
  moreover have "(unat w * unat t + 99) div 100 < 2 ^ 32"
  proof -
    have "unat w * unat t \<le> unat w * 100" using t(2) by simp
    then have "(unat w * unat t + 99) div 100 \<le> (unat w * 100 + 99) div 100" by (intro div_le_mono) simp
    also have "\<dots> = unat w" by simp
    finally show ?thesis using assms(1) by simp
  qed
  ultimately show ?thesis by (simp add: unat_ucast_mod)
qed

lemma voted_loop_spec:
  assumes "forks_ok (heights s)" "votes_ok s" "window_ok s" "n \<le> length (heights s)"
    "unat acc = votes_from s n"
  shows "voted_loop s height n acc =
    (if \<exists>m < n. eligible s height m then GREATEST m. m < n \<and> eligible s height m else current_fork_index s)"
  using assms(4,5)
proof (induction n arbitrary: acc)
  case (Suc n)
  let ?f = "heights s ! n"
  have n: "n < length (heights s)" using Suc.prems by simp
  have f: "?f \<in> set (heights s)" using n by simp
  have wl: "length (versions s) < 2 ^ 32" using assms(3) by (simp add: window_ok_def)
  have c: "unat (last_versions s (hf_version ?f)) = count_list (versions s) (hf_version ?f)"
    using assms(2) wl count_le_length [of "versions s" "hf_version ?f"]
    by (simp add: votes_ok_def unat_of_nat)
  have le: "votes_from s n \<le> length (versions s)" by (simp add: votes_from_def)
  have acc: "unat (acc + last_versions s (hf_version ?f)) = votes_from s n"
    using votes_from_step [OF assms(1) n] Suc.prems(2) c le wl by (subst unat_plus_exact) simp_all
  have th: "unat (ucast ((window_size s * ucast (hf_threshold ?f) + 99) div 100) :: u32) = votes_needed s n"
    unfolding votes_needed_def using assms(1,3) f by (intro threshold_word) (auto simp: forks_ok_def window_ok_def)
  have e: "voted_loop s height (Suc n) acc =
      (if eligible s height n then n else voted_loop s height n (acc + last_versions s (hf_version ?f)))"
    using n by (simp add: Let_def eligible_def word_le_nat_alt acc th)
  show ?case
  proof (cases "eligible s height n")
    case True
    then have "(GREATEST m. m < Suc n \<and> eligible s height m) = n"
      by (intro Greatest_equality) auto
    then show ?thesis using True e by auto
  next
    case False
    then have "\<And>m. m < Suc n \<and> eligible s height m \<longleftrightarrow> m < n \<and> eligible s height m"
      by (auto simp: less_Suc_eq)
    moreover from this have "(\<exists>m < Suc n. eligible s height m) \<longleftrightarrow> (\<exists>m < n. eligible s height m)" by blast
    ultimately show ?thesis unfolding e using False Suc.IH [OF _ acc] n by auto
  qed
qed simp

subsection \<open>Properties\<close>

text \<open>C33: the fork index the votes select is the highest fork whose height has been reached and that has
  enough votes for it and its successors in the window; without one it is the current fork.\<close>
theorem voted_fork_index:
  fixes s :: hard_fork and height :: u64
  assumes "forks_ok (heights s)" "votes_ok s" "window_ok s"
  defines "n \<equiv> get_voted_fork_index s height"
  shows "eligible s height n \<and> (\<forall>m > n. \<not> eligible s height m) \<or>
    n = current_fork_index s \<and> (\<forall>m. \<not> eligible s height m)"
proof -
  let ?P = "\<lambda>m. m < length (heights s) \<and> eligible s height m"
  have n: "n = (if \<exists>m < length (heights s). eligible s height m then GREATEST m. ?P m else current_fork_index s)"
    unfolding n_def get_voted_fork_index_def
    using voted_loop_spec [OF assms(1-3) order_refl, of 0 height] by (simp add: votes_from_def)
  have el: "eligible s height m \<Longrightarrow> m < length (heights s)" for m by (simp add: eligible_def)
  show ?thesis
  proof (cases "\<exists>m. eligible s height m")
    case True
    then obtain m where m: "?P m" using el by blast
    have b: "\<And>k. ?P k \<Longrightarrow> k \<le> length (heights s)" by simp
    have "n = (GREATEST m. ?P m)" using n m by auto
    then have "?P n" "\<And>k. ?P k \<Longrightarrow> k \<le> n"
      using GreatestI_nat [of ?P, OF m b] Greatest_le_nat [of ?P _ "length (heights s)", OF _ b] by auto
    then show ?thesis using el by (meson not_le)
  qed (use n in auto)
qed

text \<open>C40: if the counters are the numbers of votes in a window of at most \<open>window_size\<close> votes, then counting a
  block never fails the assertion on the counters: it succeeds exactly when the version check does, and
  afterwards the window and the counters are again so.\<close>
theorem add_keeps_window:
  assumes "votes_ok s" "window_ok s"
  shows "\<exists>r t. add_versions bv vv h s = Some (r, t) \<and> (r \<longleftrightarrow> do_check s bv vv) \<and> votes_ok t \<and> window_ok t"
proof (cases "do_check s bv vv")
  case True
  then obtain t where "add_versions bv vv h s = Some (True, advance_index (h + 1) t)" "votes_ok t" "window_ok t"
    using add_versions_ok [OF _ assms, of bv vv h] by (auto simp: Let_def)
  with True show ?thesis by (auto simp: votes_ok_def window_ok_def advance_index_def Let_def)
qed (use assms in \<open>auto simp: add_versions_def\<close>)

definition demo_fork :: hard_fork where
  "demo_fork = \<lparr>db_blocks = [], db_versions = Map.empty, forked_time = 0, update_time = 0, window_size = 3,
     default_threshold_percent = 80, original_version = 1, original_version_till_height = 0,
     heights = [fork_row 1 0 0 10, fork_row 2 5 60 20], versions = [1, 2, 2],
     last_versions = (\<lambda>v. of_nat (count_list [1, 2, 2] v)), current_fork_index = 0\<rparr>"

lemma demo_fork_ok: "forks_ok (heights demo_fork)" "votes_ok demo_fork" "window_ok demo_fork"
  by (simp_all add: demo_fork_def forks_ok_def fork_before_def fork_row_def votes_ok_def window_ok_def)

theorem voted_fork_index_witness:
  "get_voted_fork_index demo_fork 7 = 1 \<and> eligible demo_fork 7 1"
proof -
  have "get_voted_fork_index demo_fork 7 = 1" by code_simp
  with voted_fork_index [OF demo_fork_ok, of 7] show ?thesis by (auto simp: demo_fork_def)
qed

theorem add_keeps_window_witness:
  "\<exists>t. add_versions 1 2 6 demo_fork = Some (True, t) \<and> votes_ok t \<and> window_ok t"
proof -
  have "do_check demo_fork 1 2" by code_simp
  with add_keeps_window [OF demo_fork_ok(2,3), of 1 2 6] show ?thesis by auto
qed

end
