(* ===== verification/Hard_Fork_Schedule.thy ===== *)
theory Hard_Fork_Schedule
  imports Hard_Fork
begin

section \<open>Hard forks on schedule\<close>

text \<open>
  All fork tables of the repository have threshold 0, so forks happen at their heights. The theory
  follows the fork object through connected, popped and reorganised blocks and shows that the
  version in force is the scheduled one throughout.
\<close>

subsection \<open>Forks on schedule\<close>

text \<open>
  The fork a height falls in when no fork waits for votes, which is how all three tables of the
  repository are written.
\<close>

definition scheduled_index :: "hardfork_t list \<Rightarrow> u64 \<Rightarrow> nat" where
  "scheduled_index hs height = scheduled_from hs height (length hs - 1)"

definition scheduled_version :: "hardfork_t list \<Rightarrow> u64 \<Rightarrow> u8" where
  "scheduled_version hs height = hf_version (hs ! scheduled_index hs height)"

definition table_ok :: "hard_fork \<Rightarrow> bool" where
  "table_ok s \<longleftrightarrow> heights s \<noteq> [] \<and> forks_ok (heights s) \<and> (\<forall>f \<in> set (heights s). hf_threshold f = 0) \<and>
     hf_height (heights s ! 0) = 0 \<and> original_version s = hf_version (heights s ! 0)"

lemma scheduled_from_le: "scheduled_from hs h n \<le> n"
  by (induction n) auto

lemma scheduled_from_mono: "h \<le> h' \<Longrightarrow> scheduled_from hs h n \<le> scheduled_from hs h' n"
  by (induction n) (auto intro: le_trans [OF scheduled_from_le] dest: order_trans)

lemma scheduled_index_less: "hs \<noteq> [] \<Longrightarrow> scheduled_index hs h < length hs"
  using scheduled_from_le [of hs h "length hs - 1"] by (cases hs) (auto simp: scheduled_index_def)

lemma scheduled_index_mono: "h \<le> h' \<Longrightarrow> scheduled_index hs h \<le> scheduled_index hs h'"
  by (simp add: scheduled_index_def scheduled_from_mono)

lemma scheduled_index_0:
  assumes "forks_ok hs" "hs \<noteq> []"
  shows "scheduled_index hs 0 = 0"
proof -
  have "scheduled_from hs 0 n = 0" if "n < length hs" for n
    using that
  proof (induction n)
    case (Suc n)
    have "fork_before (hs ! 0) (hs ! Suc n)"
      using assms(1) Suc.prems by (auto simp: forks_ok_def intro: sorted_wrt_nth_less)
    then have "\<not> hf_height (hs ! Suc n) \<le> 0" by (auto simp: fork_before_def word_less_nat_alt word_le_nat_alt)
    then show ?case using Suc by simp
  qed simp
  then show ?thesis using assms(2) by (simp add: scheduled_index_def)
qed

lemma forks_ok_length: "forks_ok hs \<Longrightarrow> length hs < 257"
proof -
  assume ok: "forks_ok hs"
  have "distinct (map hf_version hs)"
  proof -
    have "sorted_wrt (<) (map hf_version hs)"
      using ok by (auto simp: forks_ok_def sorted_wrt_map fork_before_def elim: sorted_wrt_mono_rel [rotated])
    then show ?thesis by (simp add: strict_sorted_iff)
  qed
  then have "length hs = card (hf_version ` set hs)" by (metis distinct_card length_map set_map)
  also have "\<dots> \<le> card (UNIV :: u8 set)" by (rule card_mono) simp_all
  also have "\<dots> = 256" by (simp add: card_word)
  finally show ?thesis by simp
qed

lemma voted_loop_zero:
  assumes "\<forall>f \<in> set (heights s). hf_threshold f = 0" "hf_height (heights s ! 0) = 0" "n < length (heights s)"
  shows "voted_loop s h (Suc n) acc = scheduled_from (heights s) h n"
  using assms(3)
proof (induction n arbitrary: acc)
  case 0
  then have "hf_threshold (heights s ! 0) = 0" using assms(1) by simp
  then show ?case using assms(2) by (simp add: Let_def)
next
  case (Suc n)
  then have "hf_threshold (heights s ! Suc n) = 0" using assms(1) by simp
  then show ?case using Suc by (simp only: voted_loop.simps(2) [of _ _ "Suc n"] Let_def) (simp del: voted_loop.simps)
qed

lemma get_voted_zero: "table_ok s \<Longrightarrow> get_voted_fork_index s h = scheduled_index (heights s) h"
  using voted_loop_zero [of s "length (heights s) - 1" h 0]
  by (auto simp: table_ok_def get_voted_fork_index_def scheduled_index_def simp del: voted_loop.simps)


lemma advance_index_zero:
  assumes "table_ok s" "current_fork_index s = scheduled_index (heights s) h0" "h0 \<le> h"
  shows "advance_index h s = s\<lparr>current_fork_index := scheduled_index (heights s) h\<rparr>"
proof -
  have ne: "heights s \<noteq> []" "forks_ok (heights s)" using assms(1) by (simp_all add: table_ok_def)
  have "scheduled_index (heights s) h < 256"
    using scheduled_index_less [OF ne(1), of h] forks_ok_length [OF ne(2)] by simp
  then have "get_voted_fork_index s h mod 256 = scheduled_index (heights s) h"
    by (simp add: get_voted_zero [OF assms(1)])
  then show ?thesis
    using scheduled_index_mono [OF assms(3), of "heights s"] assms(2) by (auto simp: advance_index_def Let_def)
qed

text \<open>
  A chain on schedule: the blocks carry the scheduled versions, the database has recorded the
  versions of the first \<open>m\<close> of them, and the object stands before block \<open>k\<close>.
\<close>

definition chain_ok :: "hard_fork \<Rightarrow> nat \<Rightarrow> bool" where
  "chain_ok s m \<longleftrightarrow> table_ok s \<and> length (db_blocks s) < 2 ^ 64 \<and>
     (\<forall>b k. k < length (db_blocks s) \<and> b = db_blocks s ! k \<longrightarrow>
        major_version b = scheduled_version (heights s) (of_nat k) \<and>
        scheduled_version (heights s) (of_nat k) \<le> get_block_vote b) \<and>
     (\<forall>k < m. db_versions s (of_nat k) = Some (scheduled_version (heights s) (of_nat k)))"

definition standing_before :: "hard_fork \<Rightarrow> nat \<Rightarrow> nat \<Rightarrow> bool" where
  "standing_before s k m \<longleftrightarrow> chain_ok s m \<and> votes_ok s \<and> window_ok s \<and>
     current_fork_index s = scheduled_index (heights s) (of_nat k)"

definition fork_inv :: "hard_fork \<Rightarrow> bool" where
  "fork_inv s \<longleftrightarrow> standing_before s (length (db_blocks s)) (length (db_blocks s)) \<and>
     (db_blocks s \<noteq> [] \<longrightarrow> versions s \<noteq> [])"

lemma of_nat_u64_le: "j \<le> k \<Longrightarrow> k < 2 ^ 64 \<Longrightarrow> (of_nat j :: u64) \<le> of_nat k"
  by (simp add: word_le_nat_alt unat_of_nat64)

lemma of_nat_u64_eq: "j < 2 ^ 64 \<Longrightarrow> k < 2 ^ 64 \<Longrightarrow> (of_nat j :: u64) = of_nat k \<longleftrightarrow> j = k"
  by (metis unat_of_nat64)

lemma add_block_on_schedule:
  assumes "standing_before s k m" "k < length (db_blocks s)" "k \<le> m" "m \<le> length (db_blocks s)"
  shows "\<exists>s'. add_block (db_blocks s ! k) (of_nat k) s = Some (True, s') \<and> standing_before s' (Suc k) (max m (Suc k)) \<and>
    db_blocks s' = db_blocks s \<and> heights s' = heights s \<and> versions s' \<noteq> []"
proof -
  let ?b = "db_blocks s ! k"
  have ch: "chain_ok s m" and cur: "current_fork_index s = scheduled_index (heights s) (of_nat k)"
    using assms(1) by (simp_all add: standing_before_def)
  have v: "get_current_version s = scheduled_version (heights s) (of_nat k)"
    by (simp add: get_current_version_def scheduled_version_def cur)
  have "do_check s (major_version ?b) (get_block_vote ?b)"
    using ch assms(2) v by (auto simp: do_check_def chain_ok_def get_current_version_def)
  then obtain vs counts where a: "let s' = push_vote (get_effective_version s (get_block_vote ?b)) (s\<lparr>db_versions :=
        (db_versions s)(of_nat k \<mapsto> get_current_version s), versions := vs, last_versions := counts\<rparr>)
     in add_versions (major_version ?b) (get_block_vote ?b) (of_nat k) s = Some (True, advance_index (of_nat k + 1) s') \<and>
        votes_ok s' \<and> window_ok s'"
    using add_versions_ok assms(1) by (metis standing_before_def)
  define s' where "s' = push_vote (get_effective_version s (get_block_vote ?b)) (s\<lparr>db_versions :=
        (db_versions s)(of_nat k \<mapsto> get_current_version s), versions := vs, last_versions := counts\<rparr>)"
  have s': "db_blocks s' = db_blocks s" "heights s' = heights s" "current_fork_index s' = current_fork_index s"
    "original_version s' = original_version s" "versions s' \<noteq> []"
    "db_versions s' = (db_versions s)(of_nat k \<mapsto> scheduled_version (heights s) (of_nat k))"
    by (simp_all add: s'_def push_vote_def v)
  have t: "table_ok s'" using ch s' by (simp add: chain_ok_def table_ok_def)
  have k1: "Suc k < 2 ^ 64" "k < 2 ^ 64" using ch assms(2) by (simp_all add: chain_ok_def)
  have le: "(of_nat k :: u64) \<le> of_nat k + 1" using of_nat_u64_le [of k "Suc k"] k1 by (simp add: add.commute)
  have "advance_index (of_nat k + 1) s' = s'\<lparr>current_fork_index := scheduled_index (heights s') (of_nat k + 1)\<rparr>"
    by (rule advance_index_zero [OF t _ le]) (simp add: s' cur)
  then have r: "add_block ?b (of_nat k) s =
      Some (True, s'\<lparr>current_fork_index := scheduled_index (heights s) (of_nat (Suc k))\<rparr>)"
    using a by (simp add: add_block_def s'_def [symmetric] Let_def s' add.commute)
  have "db_versions s' (of_nat j) = Some (scheduled_version (heights s) (of_nat j))" if "j < max m (Suc k)" for j
  proof (cases "j = k")
    case False
    with that assms(3,4) ch have "j < m" "j < 2 ^ 64" by (auto simp: chain_ok_def)
    with False k1 ch show ?thesis by (simp add: s' of_nat_u64_eq chain_ok_def)
  qed (simp add: s')
  then have "standing_before (s'\<lparr>current_fork_index := scheduled_index (heights s) (of_nat (Suc k))\<rparr>) (Suc k) (max m (Suc k))"
    using a ch t by (auto simp: standing_before_def chain_ok_def s' s'_def [symmetric] Let_def table_ok_def votes_ok_def window_ok_def)
  then show ?thesis using r s' by auto
qed

lemma connect_block_inv:
  assumes "fork_inv s" "check s b" "Suc (length (db_blocks s)) < 2 ^ 64"
  shows "\<exists>t. connect_block b s = Some (True, t) \<and> fork_inv t \<and> heights t = heights s \<and>
    db_blocks t = db_blocks s @ [b]"
proof -
  let ?n = "length (db_blocks s)" and ?s = "s\<lparr>db_blocks := db_blocks s @ [b]\<rparr>"
  have mid: "standing_before s ?n ?n" using assms(1) by (simp add: fork_inv_def)
  then have "major_version b = scheduled_version (heights s) (of_nat ?n)"
    "scheduled_version (heights s) (of_nat ?n) \<le> get_block_vote b"
    using assms(2) by (simp_all add: check_def do_check_def standing_before_def scheduled_version_def)
  then have "standing_before ?s ?n ?n"
    using mid assms(3)
    by (auto simp: standing_before_def chain_ok_def table_ok_def votes_ok_def window_ok_def nth_append less_Suc_eq)
  from add_block_on_schedule [OF this] obtain t where
    "add_block b (of_nat ?n) ?s = Some (True, t)" "standing_before t (Suc ?n) (max ?n (Suc ?n))"
    "db_blocks t = db_blocks s @ [b]" "heights t = heights s" "versions t \<noteq> []"
    by auto
  then show ?thesis by (simp add: connect_block_def db_height_def fork_inv_def)
qed

lemma pop_vote_ok:
  assumes "votes_ok s" "versions s \<noteq> []" "db_versions s (of_nat h) = Some v"
  shows "\<exists>t. pop_vote h s = Some t \<and> votes_ok t \<and> length (versions t) = length (versions s) \<and>
    t = s\<lparr>versions := versions t, last_versions := last_versions t\<rparr>"
proof -
  obtain vs w where vs: "versions s = vs @ [w]" using assms(2) by (metis rev_exhaust)
  then show ?thesis
    using assms by (auto simp: pop_vote_def votes_ok_def Let_def)
qed

lemma chain_ok_versions:
  "chain_ok s m \<Longrightarrow> k < m \<Longrightarrow> db_versions s (of_nat k) = Some (scheduled_version (heights s) (of_nat k))"
  by (simp add: chain_ok_def)

lemma pop_block_inv:
  assumes "fork_inv s" "2 \<le> length (db_blocks s)"
  shows "\<exists>t. pop_block_from_blockchain s = Some t \<and> fork_inv t \<and> heights t = heights s \<and>
    db_blocks t = butlast (db_blocks s)"
proof -
  let ?n = "length (db_blocks s)" and ?s = "s\<lparr>db_blocks := butlast (db_blocks s)\<rparr>"
  have ch: "chain_ok s ?n" "votes_ok s" "window_ok s" "versions s \<noteq> []"
    using assms by (auto simp: fork_inv_def standing_before_def)
  define k where "k = ?n - 1"
  have "k < ?n" using assms(2) by (simp add: k_def)
  then have v: "db_versions ?s (of_nat k) = Some (scheduled_version (heights s) (of_nat k))"
    using chain_ok_versions [OF ch(1)] by simp
  obtain t where t: "pop_vote k ?s = Some t" "votes_ok t" "length (versions t) = length (versions s)"
    "t = ?s\<lparr>versions := versions t, last_versions := last_versions t\<rparr>"
    using pop_vote_ok [OF _ _ v] ch by (auto simp: votes_ok_def)
  have f: "heights t = heights s" "db_blocks t = butlast (db_blocks s)" "db_versions t = db_versions s"
    "window_size t = window_size s" "original_version t = original_version s"
    by (subst t(4), simp)+
  let ?t = "t\<lparr>current_fork_index := scheduled_index (heights s) (of_nat k)\<rparr>"
  have "[?n - 1..<?n] = [k]" using assms(2) by (simp add: k_def upt_rec)
  then have "pop_block_from_blockchain s = Some ?t"
    using t(1) assms(2) f
    by (auto simp: pop_block_from_blockchain_def on_block_popped_def Let_def scheduled_index_def k_def)
  moreover have "fork_inv ?t"
    using ch t(2,3) f \<open>k < ?n\<close> by (auto simp: k_def fork_inv_def standing_before_def chain_ok_def table_ok_def votes_ok_def window_ok_def nth_butlast)
  ultimately show ?thesis using f by auto
qed

lemma lower_index_scheduled:
  assumes "forks_ok hs" "i \<le> n" "n < length hs"
  shows "lower_index hs (hf_version (hs ! i)) n = i"
  using assms(2,3)
proof (induction n)
  case (Suc n)
  show ?case
  proof (cases "i = Suc n")
    case False
    then have "fork_before (hs ! i) (hs ! Suc n)"
      using Suc.prems assms(1) by (auto simp: forks_ok_def intro: sorted_wrt_nth_less)
    then show ?thesis using Suc False by (simp add: fork_before_def)
  qed simp
qed simp

definition fork_frame :: "hard_fork \<Rightarrow> _" where
  "fork_frame s = (db_blocks s, db_versions s, window_size s, heights s, original_version s, current_fork_index s)"

lemma scan_vote_ok:
  "votes_ok s \<Longrightarrow> votes_ok (scan_vote h s)" "length (versions (scan_vote h s)) = Suc (length (versions s))"
  "fork_frame (scan_vote h s) = fork_frame s"
  by (simp_all add: scan_vote_def push_vote_ok) (simp_all add: push_vote_def fork_frame_def)

lemma scan_votes_ok:
  assumes "votes_ok s"
  shows "votes_ok (scan_votes a b s)" "length (versions (scan_votes a b s)) = length (versions s) + (b - a)"
    "fork_frame (scan_votes a b s) = fork_frame s"
proof -
  have "votes_ok s \<Longrightarrow> votes_ok (fold scan_vote hs s) \<and>
      length (versions (fold scan_vote hs s)) = length (versions s) + length hs \<and>
      fork_frame (fold scan_vote hs s) = fork_frame s" for hs and s :: hard_fork
    by (induction hs arbitrary: s) (simp_all add: scan_vote_ok)
  from this [OF assms, of "[a..<b]"] show "votes_ok (scan_votes a b s)"
    "length (versions (scan_votes a b s)) = length (versions s) + (b - a)"
    "fork_frame (scan_votes a b s) = fork_frame s"
    by (simp_all add: scan_votes_def)
qed

lemma add_range_on_schedule:
  assumes "standing_before s k m" "k \<le> m" "m = length (db_blocks s)" "versions s \<noteq> []"
  shows "\<exists>t. add_range [k..<m] s = Some t \<and> fork_inv t \<and> heights t = heights s \<and> db_blocks t = db_blocks s"
  using assms
proof (induction "m - k" arbitrary: k s)
  case (Suc x)
  then have k: "k < m" by simp
  then have e: "[k..<m] = k # [Suc k..<m]" by (rule upt_conv_Cons)
  from Suc k obtain s' where s': "add_block (db_blocks s ! k) (of_nat k) s = Some (True, s')"
    "standing_before s' (Suc k) m" "db_blocks s' = db_blocks s" "heights s' = heights s" "versions s' \<noteq> []"
    using add_block_on_schedule [of s k m] max_absorb1 [of "Suc k" m] by auto
  have "x = m - Suc k" using Suc.hyps(2) by simp
  then obtain t where "add_range [Suc k..<m] s' = Some t" "fork_inv t" "heights t = heights s" "db_blocks t = db_blocks s"
    using Suc.hyps(1) [of "Suc k" s'] s' Suc.prems k by auto
  then show ?case using s'(1) by (simp add: e)
qed (simp add: fork_inv_def)


lemma reorganize_inv:
  assumes "fork_inv s" "unat height < length (db_blocks s)"
  shows "\<exists>t. reorganize_from_block_height height s = Some (True, t) \<and> fork_inv t \<and> heights t = heights s \<and>
    db_blocks t = db_blocks s"
proof -
  let ?n = "length (db_blocks s)" and ?hs = "heights s" and ?h = "unat height"
  have ch: "chain_ok s ?n" "window_ok s" "current_fork_index s = scheduled_index ?hs (of_nat ?n)"
    using assms by (auto simp: fork_inv_def standing_before_def)
  then have tab: "table_ok s" "forks_ok ?hs" "?hs \<noteq> []" "?n < 2 ^ 64" by (auto simp: chain_ok_def table_ok_def)
  define i where "i = scheduled_index ?hs height"
  have hn: "height \<le> of_nat ?n" "\<not> db_height s \<le> height"
    using assms(2) tab(4) by (simp_all add: word_le_nat_alt unat_of_nat64 db_height_def)
  have start: "(if height = 0 then Some (original_version s) else db_versions s height) = Some (hf_version (?hs ! i))"
  proof (cases "height = 0")
    case True
    then show ?thesis using tab scheduled_index_0 [of ?hs] by (simp add: i_def table_ok_def)
  next
    case False
    then show ?thesis
      using chain_ok_versions [OF ch(1) assms(2)] by (simp add: i_def scheduled_version_def)
  qed
  have low: "lower_index ?hs (hf_version (?hs ! i)) (current_fork_index s) = i"
    unfolding ch(3) i_def using tab hn
    by (intro lower_index_scheduled scheduled_index_mono scheduled_index_less)
  define r where "r = (if window_size s - 1 \<le> height then height - (window_size s - 1) else 0)"
  define s1 where "s1 = (clear_votes s)\<lparr>current_fork_index := i\<rparr>"
  define s2 where "s2 = scan_votes (unat r) (Suc ?h) s1"
  have v1: "votes_ok s1" by (simp add: s1_def votes_ok_def clear_votes_def)
  note s2 = scan_votes_ok [OF v1, of "unat r" "Suc ?h", folded s2_def]
  have f2: "db_blocks s2 = db_blocks s" "heights s2 = ?hs" "db_versions s2 = db_versions s"
    "original_version s2 = original_version s" "window_size s2 = window_size s" "current_fork_index s2 = i"
    using s2(3) by (simp_all add: fork_frame_def s1_def clear_votes_def)
  have w: "unat (window_size s - 1) = unat (window_size s) - 1"
    using ch(2) by (subst unat_sub) (simp_all add: window_ok_def word_le_nat_alt)
  have rl: "unat r \<le> ?h \<and> Suc ?h - unat r \<le> unat (window_size s)"
  proof (cases "window_size s - 1 \<le> height")
    case True
    then have "unat r = ?h - (unat (window_size s) - 1)" "unat (window_size s) - 1 \<le> ?h"
      using w by (simp_all add: r_def unat_sub word_le_nat_alt)
    moreover have "0 < unat (window_size s)" using ch(2) by (simp add: window_ok_def)
    ultimately show ?thesis by linarith
  next
    case False
    then show ?thesis using w by (simp add: r_def word_le_nat_alt)
  qed
  have wk: "window_ok s2" using ch(2) s2(2) rl by (simp add: window_ok_def f2 s1_def clear_votes_def)
  have ne: "versions s2 \<noteq> []" using s2(2) rl by (auto simp: s1_def clear_votes_def)
  have t2: "table_ok s2" using tab(1) f2 by (simp add: table_ok_def)
  have h1: "height + 1 = of_nat (Suc ?h)" by (simp add: add.commute)
  have "height \<le> height + 1" unfolding h1 using assms(2) tab(4)
    by (simp add: word_le_nat_alt unat_of_nat64 del: of_nat_Suc)
  then have adv: "advance_index (height + 1) s2 = s2\<lparr>current_fork_index := scheduled_index ?hs (of_nat (Suc ?h))\<rparr>"
    using advance_index_zero [OF t2, of height "height + 1"] f2 h1 by (simp add: i_def del: of_nat_Suc)
  define s3 where "s3 = advance_index (height + 1) s2"
  have sb: "standing_before s3 (Suc ?h) ?n"
    using s2(1) wk t2 ch(1) unfolding s3_def adv
    by (auto simp: standing_before_def chain_ok_def f2 table_ok_def votes_ok_def window_ok_def simp del: of_nat_Suc)
  have s3: "versions s3 \<noteq> []" "db_blocks s3 = db_blocks s" "heights s3 = ?hs"
    using ne f2 by (simp_all add: s3_def adv)
  have "\<exists>t. add_range [Suc ?h..<?n] s3 = Some t \<and> fork_inv t \<and> heights t = heights s3 \<and> db_blocks t = db_blocks s3"
    by (rule add_range_on_schedule [OF sb _ _ s3(1)]) (use assms(2) s3 in simp_all)
  then obtain t where t: "add_range [Suc ?h..<?n] s3 = Some t" "fork_inv t" "heights t = ?hs" "db_blocks t = db_blocks s"
    using s3 by auto
  moreover have "reorganize_from_block_height height s = Some (True, t)"
  proof -
    have c: "window_size (clear_votes s) = window_size s" "original_version (clear_votes s) = original_version s"
      "db_versions (clear_votes s) = db_versions s" "heights (clear_votes s) = ?hs"
      "current_fork_index (clear_votes s) = current_fork_index s"
      by (simp_all add: clear_votes_def)
    show ?thesis
      unfolding reorganize_from_block_height_def Let_def c r_def [symmetric] start option.case low
        s1_def [symmetric] s2_def [symmetric] s3_def [symmetric] s3(2) t(1) using hn(2) by simp
  qed
  ultimately show ?thesis by blast
qed


subsection \<open>The chain as a transition system\<close>

inductive fork_step :: "hard_fork \<Rightarrow> hard_fork \<Rightarrow> bool" where
  connect: "\<lbrakk>check s b; Suc (length (db_blocks s)) < 2 ^ 64; connect_block b s = Some (r, t)\<rbrakk> \<Longrightarrow> fork_step s t"
| pop: "pop_block_from_blockchain s = Some t \<Longrightarrow> fork_step s t"
| reorganize: "reorganize_from_chain_height h s = Some (r, t) \<Longrightarrow> fork_step s t"

definition fork_start :: "hardfork_t list \<Rightarrow> hard_fork \<Rightarrow> bool" where
  "fork_start table s \<longleftrightarrow> Some s = Option.bind
     (HardFork_new [] Map.empty 1 0 31557600 (31557600 div 2) 10080 80) (\<lambda>s. init (register_forks table s))"

definition fork_table_inv :: "hardfork_t list \<Rightarrow> hard_fork \<Rightarrow> bool" where
  "fork_table_inv table s \<longleftrightarrow> fork_inv s \<and> heights s = table"

lemma fork_step_inv:
  assumes "fork_table_inv table s" "fork_step s t"
  shows "fork_table_inv table t"
  using assms(2,1)
proof (cases rule: fork_step.cases)
  case (connect b r)
  then show ?thesis using connect_block_inv [of s b] assms(1) by (auto simp: fork_table_inv_def)
next
  case pop
  then have "2 \<le> length (db_blocks s)" by (simp add: pop_block_from_blockchain_def split: if_splits)
  then show ?thesis using pop pop_block_inv [of s] assms(1) by (auto simp: fork_table_inv_def)
next
  case (reorganize h r)
  have "length (db_blocks s) < 2 ^ 64"
    using assms(1) by (simp add: fork_table_inv_def fork_inv_def standing_before_def chain_ok_def)
  then have "db_height s \<le> h - 1 \<longleftrightarrow> length (db_blocks s) \<le> unat (h - 1)"
    by (simp add: db_height_def word_le_nat_alt unat_of_nat64)
  then show ?thesis
    using reorganize reorganize_inv [of s "h - 1"] assms(1)
    by (auto simp: fork_table_inv_def reorganize_from_chain_height_def reorganize_from_block_height_def not_le split: if_splits)
qed

definition repository_tables :: "hardfork_t list list" where
  "repository_tables = [mainnet_hard_forks, testnet_hard_forks, stagenet_hard_forks]"

definition fork_initial :: "hardfork_t list \<Rightarrow> hard_fork" where
  "fork_initial table = \<lparr>db_blocks = [], db_versions = Map.empty, forked_time = 31557600,
     update_time = 31557600 div 2, window_size = 10080, default_threshold_percent = 80, original_version = 1,
     original_version_till_height = 0, heights = table, versions = [], last_versions = (\<lambda>_. 0),
     current_fork_index = 0\<rparr>"

lemma register_mainnet: "register_forks mainnet_hard_forks (fork_initial []) = fork_initial mainnet_hard_forks"
  by (simp add: register_forks_def mainnet_hard_forks_def fork_row_def add_fork_def fork_initial_def word_le_nat_alt word_less_nat_alt)

lemma register_testnet: "register_forks testnet_hard_forks (fork_initial []) = fork_initial testnet_hard_forks"
  by (simp add: register_forks_def testnet_hard_forks_def fork_row_def add_fork_def fork_initial_def word_le_nat_alt word_less_nat_alt)

lemma register_stagenet: "register_forks stagenet_hard_forks (fork_initial []) = fork_initial stagenet_hard_forks"
  by (simp add: register_forks_def stagenet_hard_forks_def fork_row_def add_fork_def fork_initial_def word_le_nat_alt word_less_nat_alt)

lemma init_initial: "table \<noteq> [] \<Longrightarrow> init (fork_initial table) = Some (fork_initial table)"
  by (simp add: init_def fork_initial_def clear_votes_def db_height_def rescan_from_chain_height_def
      rescan_from_block_height_def)

lemma fork_start_initial:
  assumes "table \<in> set repository_tables"
  shows "fork_start table s \<longleftrightarrow> s = fork_initial table"
proof -
  have "HardFork_new [] Map.empty 1 0 31557600 (31557600 div 2) 10080 80 = Some (fork_initial [])"
    by (simp add: HardFork_new_def fork_initial_def)
  moreover have t: "table = mainnet_hard_forks \<or> table = testnet_hard_forks \<or> table = stagenet_hard_forks"
    using assms by (simp add: repository_tables_def)
  have "register_forks table (fork_initial []) = fork_initial table"
    using t by (elim disjE) (simp_all add: register_mainnet register_testnet register_stagenet)
  moreover have "table \<noteq> []"
    using t by (elim disjE) (simp_all add: mainnet_hard_forks_def testnet_hard_forks_def stagenet_hard_forks_def)
  ultimately show ?thesis by (simp add: fork_start_def init_initial)
qed

lemma repository_tables_ok:
  "table \<in> set repository_tables \<Longrightarrow> forks_ok table \<and> table \<noteq> [] \<and> (\<forall>f \<in> set table. hf_threshold f = 0) \<and>
   hf_height (table ! 0) = 0 \<and> hf_version (table ! 0) = 1"
  by (auto simp: repository_tables_def mainnet_hard_forks_def testnet_hard_forks_def stagenet_hard_forks_def
      fork_row_def forks_ok_def fork_before_def)

lemma fork_start_inv: "table \<in> set repository_tables \<Longrightarrow> fork_start table s \<Longrightarrow> fork_table_inv table s"
  using fork_start_initial [of table s] repository_tables_ok [of table] scheduled_index_0 [of table]
  by (simp add: fork_initial_def fork_table_inv_def fork_inv_def standing_before_def chain_ok_def table_ok_def votes_ok_def window_ok_def)

interpretation mainnet: transition_system "fork_start mainnet_hard_forks" fork_step "fork_table_inv mainnet_hard_forks"
  by unfold_locales (simp add: fork_start_inv repository_tables_def, rule fork_step_inv)

text \<open>The version of a mainnet height.\<close>

definition mainnet_version :: "nat \<Rightarrow> u8" where
  "mainnet_version h = (if h = 0 then 1 else if h < 2000000 then 15 else 16)"

lemma mainnet_scheduled_index:
  "scheduled_index mainnet_hard_forks h = (if 2000000 \<le> h then 2 else if 1 \<le> h then 1 else 0)"
  by (simp add: scheduled_index_def mainnet_hard_forks_def fork_row_def numeral_2_eq_2)

lemma mainnet_scheduled:
  assumes "h < 2 ^ 64"
  shows "scheduled_version mainnet_hard_forks (of_nat h) = mainnet_version h"
proof -
  have "(2000000 :: u64) \<le> of_nat h \<longleftrightarrow> 2000000 \<le> h" "(1 :: u64) \<le> of_nat h \<longleftrightarrow> 1 \<le> h"
    using assms by (simp_all add: word_le_nat_alt unat_of_nat64)
  then have "scheduled_index mainnet_hard_forks (of_nat h) = (if 2000000 \<le> h then 2 else if 1 \<le> h then 1 else 0)"
    by (simp add: mainnet_scheduled_index)
  then show ?thesis
    by (simp add: scheduled_version_def mainnet_version_def) (simp add: mainnet_hard_forks_def fork_row_def)
qed

subsection \<open>Ideal versions\<close>

lemma earliest_loop_append:
  "\<forall>f \<in> set fs. v \<le> hf_version f \<Longrightarrow>
   earliest_loop v (fs @ gs) a = earliest_loop v gs (if fs = [] then a else hf_height (last fs))"
  by (induction fs arbitrary: a) auto

lemma earliest_loop_below: "\<forall>f \<in> set fs. hf_version f < v \<Longrightarrow> earliest_loop v fs a = a"
  by (cases fs) (auto simp: not_le)

lemma ideal_loop_at:
  assumes "forks_ok (heights s)" "0 < n" "n \<le> k" "k < length (heights s)"
  shows "ideal_loop s (hf_height (heights s ! n)) k = hf_version (heights s ! n)"
  using assms(3,4)
proof (induction k)
  case (Suc k)
  show ?case
  proof (cases "n = Suc k")
    case False
    then have "fork_before (heights s ! n) (heights s ! Suc k)"
      using Suc.prems assms(1) by (auto simp: forks_ok_def intro: sorted_wrt_nth_less)
    then show ?thesis using Suc False by (auto simp: fork_before_def not_le)
  qed simp
qed (use assms(2) in simp)

subsection \<open>Properties\<close>

text \<open>C2: through any sequence of connected blocks, popped blocks and reorganisations of the mainnet fork
  object the version in force is 1 before the genesis block, 15 up to height 1999999 and 16 from
  2000000 on, and every block of the chain carries the version of its height.\<close>
theorem mainnet_versions:
  assumes "fork_start mainnet_hard_forks s" "reaches fork_step s t"
  shows "get_current_version t = mainnet_version (length (db_blocks t)) \<and>
    (\<forall>k < length (db_blocks t). major_version (db_blocks t ! k) = mainnet_version k)"
proof -
  have inv: "fork_inv t" "heights t = mainnet_hard_forks"
    using mainnet.inv_reachable [OF assms] by (simp_all add: fork_table_inv_def)
  then have ch: "chain_ok t (length (db_blocks t))"
    and cur: "current_fork_index t = scheduled_index mainnet_hard_forks (of_nat (length (db_blocks t)))"
    by (simp_all add: fork_inv_def standing_before_def)
  have len: "length (db_blocks t) < 2 ^ 64" using ch by (simp add: chain_ok_def)
  have "get_current_version t = scheduled_version mainnet_hard_forks (of_nat (length (db_blocks t)))"
    by (simp add: get_current_version_def scheduled_version_def cur inv(2))
  moreover have "major_version (db_blocks t ! k) = mainnet_version k" if "k < length (db_blocks t)" for k
    using that ch len inv(2) mainnet_scheduled [of k] by (simp add: chain_ok_def)
  ultimately show ?thesis using len by (simp add: mainnet_scheduled)
qed

theorem mainnet_versions_witness:
  "\<exists>t. reaches fork_step (fork_initial mainnet_hard_forks) t \<and> length (db_blocks t) = 1 \<and> get_current_version t = 15"
proof -
  let ?s = "fork_initial mainnet_hard_forks" and ?b = "\<lparr>major_version = 1, minor_version = 0\<rparr>"
  have st: "fork_start mainnet_hard_forks ?s"
    using fork_start_initial [of mainnet_hard_forks] by (simp add: repository_tables_def)
  have c: "check ?s ?b"
    by (simp add: check_def do_check_def get_block_vote_def fork_initial_def mainnet_hard_forks_def fork_row_def)
  obtain t where t: "connect_block ?b ?s = Some (True, t)" "db_blocks t = [?b]"
    using connect_block_inv [OF _ c] mainnet.inv_start [OF st]
    by (auto simp: fork_table_inv_def fork_initial_def)
  then have "fork_step ?s t" using c by (intro connect) (simp_all add: fork_initial_def)
  then have r: "reaches fork_step ?s t" by (blast intro: reaches.intros)
  from mainnet_versions [OF st r] r t(2) show ?thesis by (auto simp: mainnet_version_def)
qed

text \<open>For a well-formed table the earliest height reported for the version of a fork is that fork's height,
  and from that height up to the next fork's the ideal version is the fork's version.\<close>
lemma ideal_version_roundtrip:
  assumes "forks_ok (heights s)" "n < length (heights s)" "0 < n"
  shows "get_earliest_ideal_height_for_version s (hf_version (heights s ! n)) = hf_height (heights s ! n) \<and>
    get_ideal_version s (hf_height (heights s ! n)) = hf_version (heights s ! n)"
proof -
  let ?hs = "heights s" and ?f = "heights s ! n"
  have hs: "?hs = take n ?hs @ ?f # drop (Suc n) ?hs" using assms(2) by (rule id_take_nth_drop)
  have "sorted_wrt fork_before (take n ?hs @ ?f # drop (Suc n) ?hs)"
    using assms(1) hs by (simp add: forks_ok_def)
  then have b: "\<forall>g \<in> set (take n ?hs). hf_version g < hf_version ?f"
    "\<forall>g \<in> set (drop (Suc n) ?hs). hf_version ?f < hf_version g"
    by (auto simp: sorted_wrt_append fork_before_def)
  have "rev ?hs = rev (drop (Suc n) ?hs) @ ?f # rev (take n ?hs)" by (subst hs) simp
  moreover have "earliest_loop (hf_version ?f) (rev (drop (Suc n) ?hs) @ ?f # rev (take n ?hs)) (-1) = hf_height ?f"
    using b by (subst earliest_loop_append) (auto simp: earliest_loop_below less_imp_le)
  ultimately have "get_earliest_ideal_height_for_version s (hf_version ?f) = hf_height ?f"
    by (simp add: get_earliest_ideal_height_for_version_def)
  moreover have "get_ideal_version s (hf_height ?f) = hf_version ?f"
    unfolding get_ideal_version_def using assms by (intro ideal_loop_at) auto
  ultimately show ?thesis by blast
qed

lemma ideal_version_roundtrip_example:
  "get_earliest_ideal_height_for_version (fork_initial mainnet_hard_forks) 16 = 2000000 \<and>
   get_ideal_version (fork_initial mainnet_hard_forks) 2000000 = 16"
proof -
  have "forks_ok mainnet_hard_forks" using repository_tables_ok by (simp add: repository_tables_def)
  then show ?thesis
    using ideal_version_roundtrip [of "fork_initial mainnet_hard_forks" 2]
    by (simp add: fork_initial_def) (simp add: mainnet_hard_forks_def fork_row_def)
qed

end
