(* ===== verification/Keccak.thy ===== *)
theory Keccak
  imports Hidering_Prelude
begin

unbundle bit_operations_syntax

section \<open>The Keccak hash (\<open>src/crypto/keccak.c\<close>, \<open>src/crypto/hash.c\<close>)\<close>

text \<open>
  The permutation on 25 words, the one-shot hash and the streaming context, on a little-endian
  target, where \<open>swap64le\<close> is the identity. \<open>local_abort\<close> is \<open>None\<close>. Buffers are byte lists;
  the message buffer of the context is kept as its 136 bytes.
\<close>

type_synonym state_t = "u64 list"

definition KECCAK_ROUNDS :: nat where "KECCAK_ROUNDS = 24"
definition HASH_SIZE :: nat where "HASH_SIZE = 32"
definition HASH_DATA_AREA :: nat where "HASH_DATA_AREA = 136"
definition KECCAK_BLOCKLEN :: nat where "KECCAK_BLOCKLEN = 136"
definition KECCAK_WORDS :: nat where "KECCAK_WORDS = 17"
definition KECCAK_DIGESTSIZE :: nat where "KECCAK_DIGESTSIZE = 32"
definition KECCAK_FINALIZED :: u64 where "KECCAK_FINALIZED = 0x80000000"

definition keccakf_rndc :: "u64 list" where
  "keccakf_rndc =
    [0x0000000000000001, 0x0000000000008082, 0x800000000000808a,
     0x8000000080008000, 0x000000000000808b, 0x0000000080000001,
     0x8000000080008081, 0x8000000000008009, 0x000000000000008a,
     0x0000000000000088, 0x0000000080008009, 0x000000008000000a,
     0x000000008000808b, 0x800000000000008b, 0x8000000000008089,
     0x8000000000008003, 0x8000000000008002, 0x8000000000000080,
     0x000000000000800a, 0x800000008000000a, 0x8000000080008081,
     0x8000000000008080, 0x0000000080000001, 0x8000000080008008]"

subsection \<open>The permutation\<close>

definition ROTL64 :: "u64 \<Rightarrow> nat \<Rightarrow> u64" where
  "ROTL64 x y = push_bit y x OR drop_bit (64 - y) x"

definition theta_bc :: "state_t \<Rightarrow> u64 list" where
  "theta_bc st = map (\<lambda>i. st ! i XOR st ! (i + 5) XOR st ! (i + 10) XOR st ! (i + 15) XOR st ! (i + 20)) [0..<5]"

definition THETA :: "u64 list \<Rightarrow> nat \<Rightarrow> state_t \<Rightarrow> state_t" where
  "THETA bc i st =
     (let t = bc ! ((i + 4) mod 5) XOR ROTL64 (bc ! ((i + 1) mod 5)) 1
      in fold (\<lambda>k st. st[k := st ! k XOR t]) [i, i + 5, i + 10, i + 15, i + 20] st)"

definition rho_pi_moves :: "(nat \<times> nat \<times> nat) list" where
  "rho_pi_moves =
    [(1, 6, 44), (6, 9, 20), (9, 22, 61), (22, 14, 39), (14, 20, 18), (20, 2, 62), (2, 12, 43), (12, 13, 25),
     (13, 19, 8), (19, 23, 56), (23, 15, 41), (15, 4, 27), (4, 24, 14), (24, 21, 2), (21, 8, 55), (8, 16, 45),
     (16, 5, 36), (5, 3, 28), (3, 18, 21), (18, 17, 15), (17, 11, 10), (11, 7, 6), (7, 10, 3)]"

definition rho_pi :: "state_t \<Rightarrow> state_t" where
  "rho_pi st =
     (let t = st ! 1;
          st = fold (\<lambda>(dst, src, r) st. st[dst := ROTL64 (st ! src) r]) rho_pi_moves st
      in st[10 := ROTL64 t 1])"

definition CHI :: "nat \<Rightarrow> state_t \<Rightarrow> state_t" where
  "CHI j st =
     (let st0 = st ! j; st1 = st ! (j + 1); st2 = st ! (j + 2); st3 = st ! (j + 3); st4 = st ! (j + 4);
          st = st[j := st ! j XOR (NOT st1 AND st2)];
          st = st[j + 1 := st ! (j + 1) XOR (NOT st2 AND st3)];
          st = st[j + 2 := st ! (j + 2) XOR (NOT st3 AND st4)];
          st = st[j + 3 := st ! (j + 3) XOR (NOT st4 AND st0)]
      in st[j + 4 := st ! (j + 4) XOR (NOT st0 AND st1)])"

definition keccakf_round :: "nat \<Rightarrow> state_t \<Rightarrow> state_t" where
  "keccakf_round round st =
     (let bc = theta_bc st;
          st = fold (THETA bc) [0, 1, 2, 3, 4] st;
          st = rho_pi st;
          st = fold CHI [0, 5, 10, 15, 20] st
      in st[0 := st ! 0 XOR keccakf_rndc ! round])"

definition keccakf :: "state_t \<Rightarrow> nat \<Rightarrow> state_t" where
  "keccakf st rounds = fold keccakf_round [0..<rounds] st"

subsection \<open>The one-shot hash\<close>

text \<open>\<open>st[i] ^= swap64le(block[i])\<close> for the first \<open>n\<close> words of a block of bytes.\<close>

definition xor_block :: "nat \<Rightarrow> bytes \<Rightarrow> state_t \<Rightarrow> state_t" where
  "xor_block n block st = fold (\<lambda>i st. st[i := st ! i XOR le_word (take 8 (drop (i * 8) block))]) [0..<n] st"

function keccak_blocks :: "nat \<Rightarrow> state_t \<Rightarrow> bytes \<Rightarrow> state_t \<times> bytes" where
  "keccak_blocks rsiz st input =
     (if 0 < rsiz \<and> rsiz \<le> length input
      then keccak_blocks rsiz (keccakf (xor_block (rsiz div 8) input st) KECCAK_ROUNDS) (drop rsiz input)
      else (st, input))"
  by pat_completeness auto
termination
  by (relation "measure (\<lambda>(_, _, input). length input)") auto

declare keccak_blocks.simps [simp del]

definition memcpy_swap64le :: "u64 list \<Rightarrow> nat \<Rightarrow> bytes" where
  "memcpy_swap64le st n = concat (map le_bytes (take n st))"

definition pad_block :: "nat \<Rightarrow> bytes \<Rightarrow> bytes" where
  "pad_block rsiz input =
     (let temp = input @ [1] @ replicate (rsiz - (length input + 1)) 0
      in temp[rsiz - 1 := temp ! (rsiz - 1) OR 0x80])"

definition keccak :: "bytes \<Rightarrow> int \<Rightarrow> bytes option" where
  "keccak input mdlen =
     (if mdlen \<le> 0 \<or> 100 \<le> mdlen \<and> mdlen \<noteq> 200 then None
      else let rsiz = (if mdlen = 200 then HASH_DATA_AREA else nat (200 - 2 * mdlen));
               rsizw = rsiz div 8;
               (st, input) = keccak_blocks rsiz (replicate 25 0) input;
               inlen = length input
           in if 144 \<le> inlen + 1 \<or> rsiz < inlen \<or> 144 \<le> rsiz - inlen + inlen + 1 \<or> rsiz = 0 \<or>
                 144 \<le> rsiz - 1 \<or> 144 < rsizw * 8
              then None
              else let st = keccakf (xor_block rsizw (pad_block rsiz input) st) KECCAK_ROUNDS
                   in if mdlen mod 8 \<noteq> 0 then None
                      else Some (memcpy_swap64le st (nat mdlen div 8)))"

definition keccak1600 :: "bytes \<Rightarrow> bytes option" where
  "keccak1600 input = keccak input 200"

definition hash_permutation :: "state_t \<Rightarrow> state_t" where
  "hash_permutation state = keccakf state 24"

definition hash_process :: "bytes \<Rightarrow> bytes option" where
  "hash_process buf = keccak1600 buf"

definition cn_fast_hash :: "bytes \<Rightarrow> bytes" where
  "cn_fast_hash data = (case hash_process data of None \<Rightarrow> [] | Some state \<Rightarrow> take HASH_SIZE state)"

subsection \<open>The streaming context\<close>

record KECCAK_CTX =
  ctx_hash :: state_t
  ctx_message :: bytes
  ctx_rest :: u64

definition KECCAK_PROCESS_BLOCK :: "state_t \<Rightarrow> bytes \<Rightarrow> state_t" where
  "KECCAK_PROCESS_BLOCK st block = keccakf (xor_block KECCAK_WORDS block st) KECCAK_ROUNDS"

definition keccak_init :: KECCAK_CTX where
  "keccak_init = \<lparr>ctx_hash = replicate 25 0, ctx_message = replicate 136 0, ctx_rest = 0\<rparr>"

text \<open>\<open>memcpy\<close> into a buffer at an offset.\<close>

definition memcpy_at :: "bytes \<Rightarrow> nat \<Rightarrow> bytes \<Rightarrow> bytes" where
  "memcpy_at buf off src = take off buf @ src @ drop (off + length src) buf"

function update_blocks :: "state_t \<Rightarrow> bytes \<Rightarrow> bytes \<Rightarrow> state_t \<times> bytes \<times> bytes" where
  "update_blocks st message input =
     (if KECCAK_BLOCKLEN \<le> length input
      then let message = memcpy_at message 0 (take KECCAK_BLOCKLEN input)
           in update_blocks (KECCAK_PROCESS_BLOCK st message) message (drop KECCAK_BLOCKLEN input)
      else (st, message, input))"
  by pat_completeness auto
termination
  by (relation "measure (\<lambda>(_, _, input). length input)") (auto simp: KECCAK_BLOCKLEN_def)

declare update_blocks.simps [simp del]

definition keccak_update :: "bytes \<Rightarrow> KECCAK_CTX \<Rightarrow> KECCAK_CTX option" where
  "keccak_update input ctx =
     (if ctx_rest ctx AND KECCAK_FINALIZED \<noteq> 0 then None
      else let idx = unat (ctx_rest ctx);
               ctx = ctx\<lparr>ctx_rest := (ctx_rest ctx + of_nat (length input)) mod of_nat KECCAK_BLOCKLEN\<rparr>;
               left = KECCAK_BLOCKLEN - idx
           in if idx \<noteq> 0 \<and> length input < left
              then Some (ctx\<lparr>ctx_message := memcpy_at (ctx_message ctx) idx input\<rparr>)
              else let (ctx, input) =
                         (if idx \<noteq> 0
                          then let ctx = ctx\<lparr>ctx_message := memcpy_at (ctx_message ctx) idx (take left input)\<rparr>
                               in (ctx\<lparr>ctx_hash := KECCAK_PROCESS_BLOCK (ctx_hash ctx) (ctx_message ctx)\<rparr>,
                                   drop left input)
                          else (ctx, input));
                       (st, message, input) = update_blocks (ctx_hash ctx) (ctx_message ctx) input;
                       message = (if input \<noteq> [] then memcpy_at message 0 input else message)
                   in Some (ctx\<lparr>ctx_hash := st, ctx_message := message\<rparr>))"

definition keccak_finish :: "KECCAK_CTX \<Rightarrow> KECCAK_CTX \<times> bytes" where
  "keccak_finish ctx =
     (let ctx = (if ctx_rest ctx AND KECCAK_FINALIZED = 0
                 then let rest = unat (ctx_rest ctx);
                          message = memcpy_at (ctx_message ctx) rest (replicate (KECCAK_BLOCKLEN - rest) 0);
                          message = message[rest := message ! rest OR 0x01];
                          message = message[KECCAK_BLOCKLEN - 1 := message ! (KECCAK_BLOCKLEN - 1) OR 0x80]
                      in ctx\<lparr>ctx_message := message, ctx_hash := KECCAK_PROCESS_BLOCK (ctx_hash ctx) message,
                             ctx_rest := KECCAK_FINALIZED\<rparr>
                 else ctx)
      in (ctx, memcpy_swap64le (ctx_hash ctx) (KECCAK_DIGESTSIZE div 8)))"

subsection \<open>The reference permutation\<close>

text \<open>
  The step mappings of the Keccak standard (FIPS 202, section 3.2) on the lane array, with the
  rotation offsets and the round constants computed from their defining recurrences instead of
  tabulated.
\<close>

definition lane :: "state_t \<Rightarrow> nat \<Rightarrow> nat \<Rightarrow> u64" where
  "lane st x y = st ! (x mod 5 + 5 * (y mod 5))"

definition of_lanes :: "(nat \<Rightarrow> nat \<Rightarrow> u64) \<Rightarrow> state_t" where
  "of_lanes f = map (\<lambda>k. f (k mod 5) (k div 5)) [0..<25]"

definition fips_theta :: "state_t \<Rightarrow> state_t" where
  "fips_theta st =
     (let C = (\<lambda>x. lane st x 0 XOR lane st x 1 XOR lane st x 2 XOR lane st x 3 XOR lane st x 4);
          D = (\<lambda>x. C (x + 4) XOR word_rotl 1 (C (x + 1)))
      in of_lanes (\<lambda>x y. lane st x y XOR D x))"

fun rho_walk :: "nat \<Rightarrow> nat \<times> nat" where
  "rho_walk 0 = (1, 0)"
| "rho_walk (Suc t) = (case rho_walk t of (x, y) \<Rightarrow> (y, (2 * x + 3 * y) mod 5))"

definition rho_offset :: "nat \<Rightarrow> nat \<Rightarrow> nat" where
  "rho_offset x y =
     (case map_of (map (\<lambda>t. (rho_walk t, (t + 1) * (t + 2) div 2 mod 64)) [0..<24]) (x, y) of
        None \<Rightarrow> 0 | Some r \<Rightarrow> r)"

definition fips_rho :: "state_t \<Rightarrow> state_t" where
  "fips_rho st = of_lanes (\<lambda>x y. word_rotl (rho_offset x y) (lane st x y))"

definition fips_pi :: "state_t \<Rightarrow> state_t" where
  "fips_pi st = of_lanes (\<lambda>x y. lane st (x + 3 * y) x)"

definition fips_chi :: "state_t \<Rightarrow> state_t" where
  "fips_chi st = of_lanes (\<lambda>x y. lane st x y XOR (NOT (lane st (x + 1) y) AND lane st (x + 2) y))"

fun lfsr_step :: "bool list \<Rightarrow> bool list" where
  "lfsr_step [r0, r1, r2, r3, r4, r5, r6, r7] = [r7, r0, r1, r2, r3 \<noteq> r7, r4 \<noteq> r7, r5 \<noteq> r7, r6]"
| "lfsr_step R = R"

fun lfsr_bits :: "nat \<Rightarrow> bool list \<Rightarrow> bool list" where
  "lfsr_bits 0 R = []"
| "lfsr_bits (Suc n) R = hd R # lfsr_bits n (lfsr_step R)"

definition round_constants :: "u64 list" where
  "round_constants =
     (let rc = lfsr_bits (7 * 24) (True # replicate 7 False)
      in map (\<lambda>ir. sum_list (map (\<lambda>j. if rc ! (j + 7 * ir) then 2 ^ (2 ^ j - 1) else 0) [0..<7])) [0..<24])"

definition fips_round :: "nat \<Rightarrow> state_t \<Rightarrow> state_t" where
  "fips_round ir st =
    (let st = fips_chi (fips_pi (fips_rho (fips_theta st))) in st[0 := st ! 0 XOR round_constants ! ir])"

subsection \<open>The permutation is the standard's\<close>

lemma keccakf_rndc_lfsr: "keccakf_rndc = round_constants"
  by code_simp

lemma ROTL64_rotl: "ROTL64 x y = word_rotl y x" if "0 < y" "y < 64"
proof (rule bit_word_eqI)
  fix n assume n: "n < LENGTH(64)"
  then have "(n + (64 - y)) mod 64 = (if n < y then 64 - y + n else n - y)"
    using that by (auto simp: mod_if)
  moreover have "\<not> bit x (64 - y + n)" if "y \<le> n"
    using that \<open>y < 64\<close> bit_imp_le_length [of x "64 - y + n"] by auto
  ultimately show "bit (ROTL64 x y) n = bit (word_rotl y x) n"
    using that n by (simp add: ROTL64_def bit_or_iff bit_push_bit_iff bit_drop_bit_eq bit_word_rotl_iff not_less)
qed

lemma upt25: "[0..<25] = [0,1,2,3,4,5,6,7,8,9,10,11,12,13,14,15,16,17,18,19,20,21,22,23,24::nat]"
  by code_simp

lemma state_cases:
  assumes "length st = 25"
  obtains a :: "nat \<Rightarrow> u64" where
   "st = [a 0, a 1, a 2, a 3, a 4, a 5, a 6, a 7, a 8, a 9, a 10, a 11, a 12, a 13, a 14, a 15, a 16, a 17, a 18,
     a 19, a 20, a 21, a 22, a 23, a 24]"
proof -
  have "st = map ((!) st) [0..<25]" using assms map_nth [of st] by simp
  then show ?thesis unfolding upt25 list.map by (rule that)
qed

lemma CHI_Cons:
  "CHI 0 (s0 # s1 # s2 # s3 # s4 # st) =
     (s0 XOR (NOT s1 AND s2)) # (s1 XOR (NOT s2 AND s3)) # (s2 XOR (NOT s3 AND s4)) #
     (s3 XOR (NOT s4 AND s0)) # (s4 XOR (NOT s0 AND s1)) # st"
  "CHI (j + 5) (s0 # s1 # s2 # s3 # s4 # st) = s0 # s1 # s2 # s3 # s4 # CHI j st"
  by (simp_all add: CHI_def Let_def eval_nat_numeral)

lemmas CHI_row = CHI_Cons(1) CHI_Cons(2) [of 0, simplified] CHI_Cons(2) [of 5, simplified]
  CHI_Cons(2) [of 10, simplified] CHI_Cons(2) [of 15, simplified]

lemma lane_of_lanes: "lane (of_lanes f) x y = f (x mod 5) (y mod 5)"
proof -
  have "x mod 5 < 5" "y mod 5 < 5" by simp_all
  then have "x mod 5 + 5 * (y mod 5) < 25" by linarith
  then show ?thesis by (simp add: lane_def of_lanes_def)
qed

lemma theta_bc_nth:
  "theta_bc st ! (x mod 5) = lane st x 0 XOR lane st x 1 XOR lane st x 2 XOR lane st x 3 XOR lane st x 4"
  by (simp add: theta_bc_def lane_def)

lemma theta_fips:
  assumes "length st = 25"
  shows "fold (THETA (theta_bc st)) [0, 1, 2, 3, 4] st = fips_theta st"
proof -
  define t where "t = (\<lambda>i. theta_bc st ! ((i + 4) mod 5) XOR ROTL64 (theta_bc st ! ((i + 1) mod 5)) 1)"
  have "THETA (theta_bc st) = (\<lambda>i st'. fold (\<lambda>k st. st[k := st ! k XOR t i]) [i, i + 5, i + 10, i + 15, i + 20] st')"
    by (simp add: THETA_def t_def fun_eq_iff Let_def)
  then have "fold (THETA (theta_bc st)) [0, 1, 2, 3, 4] st = of_lanes (\<lambda>x y. lane st x y XOR t x)"
    using assms by (elim state_cases) (simp add: of_lanes_def lane_def upt25)
  then show ?thesis by (simp add: t_def fips_theta_def Let_def theta_bc_nth ROTL64_rotl)
qed

lemma rho_table:
  "map (\<lambda>k. rho_offset (k mod 5) (k div 5)) [0..<25] = 
   [0, 1, 62, 28, 27, 36, 44, 6, 55, 20, 3, 10, 43, 25, 39, 41, 45, 15, 21, 8, 18, 2, 61, 56, 14]"
  by code_simp

lemma rho_offset_table:
  assumes "x < 5" "y < 5"
  shows "rho_offset x y = [0, 1, 62, 28, 27, 36, 44, 6, 55, 20, 3, 10, 43, 25, 39, 41, 45, 15, 21, 8, 18, 2, 61, 56, 14] ! (x + 5 * y)"
proof -
  have "x + 5 * y < 25" "(x + 5 * y) mod 5 = x" "(x + 5 * y) div 5 = y" using assms by auto
  then show ?thesis using arg_cong [OF rho_table, of "\<lambda>l. l ! (x + 5 * y)"] by simp
qed

lemma word_rotl_0 [simp]: "word_rotl 0 w = w"
  by (rule bit_word_eqI) (simp add: bit_word_rotl_iff)

lemma rho_pi_fips: "length st = 25 \<Longrightarrow> rho_pi st = fips_pi (fips_rho st)"
  by (erule state_cases)
     (simp add: fips_pi_def fips_rho_def of_lanes_def rho_offset_table upt25 lane_def rho_pi_def
        rho_pi_moves_def ROTL64_rotl)

lemma chi_fips: "length st = 25 \<Longrightarrow> fold CHI [0,5,10,15,20] st = fips_chi st"
  by (erule state_cases) (simp add: CHI_row fips_chi_def of_lanes_def upt25 lane_def)

lemma length_of_lanes [simp]: "length (of_lanes f) = 25"
  by (simp add: of_lanes_def)

lemma keccakf_round_fips:
  assumes "length st = 25"
  shows "keccakf_round i st = fips_round i st"
  using assms
  by (simp only: keccakf_round_def fips_round_def theta_fips rho_pi_fips chi_fips keccakf_rndc_lfsr Let_def 
    fips_theta_def fips_pi_def length_of_lanes)

text \<open>C23: the permutation the code runs in place, with its tabulated rotations and constants, is the
  permutation of the standard on every state of 25 words, for up to 24 rounds; \<open>hash_permutation\<close>
  runs all 24.\<close>

theorem keccakf_fips:
  assumes "length st = 25" "rounds \<le> 24"
  shows "keccakf st rounds = fold fips_round [0..<rounds] st \<and>
    hash_permutation st = fold fips_round [0..<24] st"
proof -
  have "fold keccakf_round is st = fold fips_round is st" for "is"
    using assms(1)
    by (induction "is" arbitrary: st) (simp_all add: keccakf_round_fips fips_round_def fips_chi_def Let_def)
  then show ?thesis by (simp add: keccakf_def hash_permutation_def)
qed

theorem keccakf_fips_witness:
  "keccakf (replicate 25 0) 12 = fold fips_round [0..<12] (replicate 25 0) \<and>
    hash_permutation (replicate 25 0) = fold fips_round [0..<24] (replicate 25 0)"
  by (rule keccakf_fips) simp_all

subsection \<open>Streaming and one-shot hashing agree\<close>

lemma length_fold_update:
  assumes "\<And>i st. length (f i st) = length st"
  shows "length (fold f is st) = length st"
  using assms by (induction "is" arbitrary: st) auto

lemma length_THETA [simp]: "length (THETA bc i st) = length st"
  by (simp add: THETA_def Let_def)

lemma length_rho_pi [simp]: "length (rho_pi st) = length st"
  by (simp add: rho_pi_def Let_def length_fold_update split: prod.splits)

lemma length_CHI [simp]: "length (CHI j st) = length st"
  by (simp add: CHI_def Let_def)

lemma length_keccakf [simp]: "length (keccakf st n) = length st"
  by (simp add: keccakf_def keccakf_round_def Let_def length_fold_update)

lemma length_xor_block [simp]: "length (xor_block n b st) = length st"
  by (simp add: xor_block_def length_fold_update)

lemma xor_block_cong:
  assumes "take (8 * n) b = take (8 * n) b'"
  shows "xor_block n b st = xor_block n b' st"
  unfolding xor_block_def
proof (rule fold_cong)
  fix i assume "i \<in> set [0..<n]"
  then have i: "i * 8 + 8 \<le> 8 * n" by auto
  have "take 8 (drop (i * 8) b) = drop (i * 8) (take (i * 8 + 8) b)" for b :: bytes
    by (simp add: take_drop add.commute)
  moreover have "take (i * 8 + 8) b = take (i * 8 + 8) b'"
    using arg_cong [OF assms, of "take (i * 8 + 8)"] i by (simp add: min_def)
  ultimately show "(\<lambda>st. st[i := st ! i XOR le_word (take 8 (drop (i * 8) b))]) =
      (\<lambda>st. st[i := st ! i XOR le_word (take 8 (drop (i * 8) b'))])"
    by simp
qed simp_all

text \<open>The absorbing phase for the rate of 136 bytes, and that it may stop and resume anywhere.\<close>

abbreviation absorb :: "state_t \<Rightarrow> bytes \<Rightarrow> state_t \<times> bytes" where
  "absorb \<equiv> keccak_blocks 136"

lemma absorb_short: "length input < 136 \<Longrightarrow> absorb st input = (st, input)"
  by (subst keccak_blocks.simps) simp

lemma absorb_block:
  assumes "length b = 136"
  shows "absorb st (b @ input) = absorb (KECCAK_PROCESS_BLOCK st b) input"
proof -
  have "xor_block 17 (b @ input) st = xor_block 17 b st"
    by (rule xor_block_cong) (simp add: assms)
  then show ?thesis
    using assms
    by (subst keccak_blocks.simps)
       (simp add: KECCAK_PROCESS_BLOCK_def KECCAK_WORDS_def)
qed

lemma absorb_cases:
  obtains (short) "length input < 136" | (block) b rest where "input = b @ rest" "length b = 136"
proof (cases "length input < 136")
  case False
  then have "input = take 136 input @ drop 136 input" "length (take 136 input) = 136" by auto
  then show ?thesis by (rule block)
qed (rule short)

lemma absorb_append:
  "absorb st (m @ x) = (case absorb st m of (st', r) \<Rightarrow> absorb st' (r @ x))"
proof (induction "length m" arbitrary: m st rule: less_induct)
  case less
  show ?case
  proof (cases m rule: absorb_cases)
    case short
    then show ?thesis by (simp add: absorb_short)
  next
    case (block b rest)
    then show ?thesis using less [of rest] by (simp add: absorb_block)
  qed
qed

lemma absorb_rest: "length (snd (absorb st m)) = length m mod 136"
proof (induction "length m" arbitrary: m st rule: less_induct)
  case less
  show ?case
  proof (cases m rule: absorb_cases)
    case short
    then show ?thesis by (simp add: absorb_short)
  next
    case (block b rest)
    then show ?thesis using less [of rest] by (simp add: absorb_block)
  qed
qed

lemma length_absorb [simp]: "length (fst (absorb st m)) = length st"
proof (induction "length m" arbitrary: m st rule: less_induct)
  case less
  show ?case
  proof (cases m rule: absorb_cases)
    case short
    then show ?thesis by (simp add: absorb_short)
  next
    case (block b rest)
    then show ?thesis using less [of rest] by (simp add: absorb_block KECCAK_PROCESS_BLOCK_def)
  qed
qed

lemma memcpy_at_0: "length src = length buf \<Longrightarrow> memcpy_at buf 0 src = src"
  by (simp add: memcpy_at_def)

lemma length_memcpy_at: "off + length src \<le> length buf \<Longrightarrow> length (memcpy_at buf off src) = length buf"
  by (simp add: memcpy_at_def)

lemma update_blocks_absorb:
  assumes "length message = 136"
  shows "\<exists>message'. update_blocks st message input = (fst (absorb st input), message', snd (absorb st input)) \<and>
           length message' = 136"
  using assms
proof (induction "length input" arbitrary: input st message rule: less_induct)
  case less
  show ?case
  proof (cases input rule: absorb_cases)
    case short
    then show ?thesis
      using less.prems by (subst update_blocks.simps) (simp add: absorb_short KECCAK_BLOCKLEN_def)
  next
    case (block b rest)
    then have "update_blocks st message input = update_blocks (KECCAK_PROCESS_BLOCK st b) b rest"
      using less.prems
      by (subst update_blocks.simps) (simp add: KECCAK_BLOCKLEN_def memcpy_at_0)
    then show ?thesis using less.hyps [of rest b] block by (simp add: absorb_block)
  qed
qed

text \<open>What the context stands for: the absorbed prefix in \<open>hash\<close> and the tail in \<open>message\<close>.\<close>

definition holds :: "KECCAK_CTX \<Rightarrow> bytes \<Rightarrow> bool" where
  "holds ctx m \<longleftrightarrow> ctx_hash ctx = fst (absorb (replicate 25 0) m) \<and>
     take (length m mod 136) (ctx_message ctx) = snd (absorb (replicate 25 0) m) \<and>
     length (ctx_message ctx) = 136 \<and> ctx_rest ctx = of_nat (length m mod 136)"

lemma holds_iff:
  assumes "absorb (replicate 25 0) m = (st, r)"
  shows "length r < 136"
    "holds ctx m \<longleftrightarrow> ctx_hash ctx = st \<and> take (length r) (ctx_message ctx) = r \<and>
       length (ctx_message ctx) = 136 \<and> ctx_rest ctx = of_nat (length r)"
  using assms absorb_rest [of "replicate 25 0" m] by (auto simp: holds_def)

lemma holds_init: "holds keccak_init []"
  by (simp add: holds_def keccak_init_def absorb_short)

lemma small_not_finalized:
  assumes "n < 136"
  shows "(of_nat n :: u64) AND KECCAK_FINALIZED = 0"
proof -
  have fin: "KECCAK_FINALIZED = 2 ^ 31" by (simp add: KECCAK_FINALIZED_def)
  have "\<not> bit n 31" using assms by (simp add: bit_iff_odd)
  then show ?thesis unfolding fin and_exp_eq_0_iff_not_bit
    by transfer (simp add: bit_take_bit_iff bit_of_nat_iff_bit)
qed

lemma rest_update:
  assumes "length m + length x < 2 ^ 64"
  shows "((of_nat (length m mod 136) :: u64) + of_nat (length x)) mod 136
     = of_nat (length (m @ x) mod 136)"
proof -
  have "length m mod 136 + length x \<le> length m + length x" by simp
  then have le: "length m mod 136 + length x < 2 ^ 64" using assms by linarith
  have "(of_nat (length m mod 136) :: u64) + of_nat (length x) = of_nat (length m mod 136 + length x)"
    by simp
  moreover have "(of_nat k :: u64) mod 136 = of_nat (k mod 136)" if "k < 2 ^ 64" for k
    using that by (intro word_unat_eq_iff [THEN iffD2])
      (simp add: unat_mod unat_of_nat64 less_le_trans [OF mod_less_divisor])
  ultimately show ?thesis using le by (metis length_append mod_add_left_eq)
qed

text \<open>The part of \<open>keccak_update\<close> after the buffered block: whole blocks, then the tail.\<close>

lemma update_tail:
  assumes "length message = 136" "absorb st x = (st', r')"
  obtains message' where "update_blocks st message x = (st', message', r')"
    "length (if r' \<noteq> [] then memcpy_at message' 0 r' else message') = 136"
    "take (length r') (if r' \<noteq> [] then memcpy_at message' 0 r' else message') = r'"
proof -
  obtain message' where m: "update_blocks st message x = (st', message', r')" "length message' = 136"
    using update_blocks_absorb [OF assms(1), of st x] assms(2) by auto
  moreover have "length r' < 136" using absorb_rest [of st x] assms(2) by simp
  ultimately show ?thesis by (intro that [OF m(1)]) (auto simp: memcpy_at_def)
qed

lemma holds_update:
  assumes h: "holds ctx m" and len: "length m + length x < 2 ^ 64"
  shows "\<exists>ctx'. keccak_update x ctx = Some ctx' \<and> holds ctx' (m @ x)"
proof -
  obtain st r where ab: "absorb (replicate 25 0) m = (st, r)" by fastforce
  define k where "k = length r"
  have k: "k < 136" using holds_iff(1) [OF ab] by (simp add: k_def)
  have ctx: "ctx_hash ctx = st" "take k (ctx_message ctx) = r" "length (ctx_message ctx) = 136"
    "ctx_rest ctx = of_nat k"
    using h holds_iff(2) [OF ab] by (simp_all add: k_def)
  have fin: "ctx_rest ctx AND KECCAK_FINALIZED = 0" using small_not_finalized [OF k] ctx by simp
  have idx: "unat (ctx_rest ctx) = k" using ctx k by (simp add: unat_of_nat64)
  obtain st' r' where ab': "absorb st (r @ x) = (st', r')" by fastforce
  have abx: "absorb (replicate 25 0) (m @ x) = (st', r')"
    by (subst absorb_append) (simp only: ab prod.case ab')
  have "k = length m mod 136" "length r' = length (m @ x) mod 136"
    using absorb_rest [of "replicate 25 0"] ab abx by (metis k_def snd_conv)+
  then have rest: "(ctx_rest ctx + of_nat (length x)) mod 136 = of_nat (length r')"
    using rest_update [OF len] ctx(4) by simp
  note upd = keccak_update_def KECCAK_BLOCKLEN_def fin idx rest ctx(1-3) holds_iff(2) [OF abx] Let_def
  consider "k = 0" | "k \<noteq> 0" "length x < 136 - k" | "k \<noteq> 0" "136 - k \<le> length x" by linarith
  then show ?thesis
  proof cases
    case 1
    then have "absorb st x = (st', r')" using ab' by (simp add: k_def)
    then obtain message where "update_blocks st (ctx_message ctx) x = (st', message, r')"
      "length (if r' \<noteq> [] then memcpy_at message 0 r' else message) = 136"
      "take (length r') (if r' \<noteq> [] then memcpy_at message 0 r' else message) = r'"
      using update_tail [OF ctx(3)] by blast
    then show ?thesis using 1 by (simp add: upd)
  next
    case 2
    have "r' = r @ x" "st' = st" using ab' absorb_short [of "r @ x" st] 2 by (auto simp: k_def)
    then show ?thesis using 2 k by (simp add: upd memcpy_at_def flip: k_def)
  next
    case 3
    define msg where "msg = memcpy_at (ctx_message ctx) k (take (136 - k) x)"
    have msg: "msg = r @ take (136 - k) x" "length msg = 136"
      using 3 k ctx by (simp_all add: msg_def memcpy_at_def flip: k_def)
    then have "r @ x = msg @ drop (136 - k) x" by simp
    then have "absorb (KECCAK_PROCESS_BLOCK st msg) (drop (136 - k) x) = (st', r')"
      using ab' absorb_block [OF msg(2)] by simp
    then obtain message where
      "update_blocks (KECCAK_PROCESS_BLOCK st msg) msg (drop (136 - k) x) = (st', message, r')"
      "length (if r' \<noteq> [] then memcpy_at message 0 r' else message) = 136"
      "take (length r') (if r' \<noteq> [] then memcpy_at message 0 r' else message) = r'"
      using update_tail [OF msg(2)] by blast
    then show ?thesis using 3 by (simp add: upd msg_def [symmetric])
  qed
qed

text \<open>Both finishers apply the same padding and the same last permutation.\<close>

definition squeeze :: "bytes \<Rightarrow> state_t" where
  "squeeze m = (case absorb (replicate 25 0) m of (st, r) \<Rightarrow> KECCAK_PROCESS_BLOCK st (pad_block 136 r))"

lemma length_squeeze [simp]: "length (squeeze m) = 25"
  using length_absorb [of "replicate 25 0" m]
  by (cases "absorb (replicate 25 0) m") (simp only: squeeze_def prod.case KECCAK_PROCESS_BLOCK_def length_keccakf length_xor_block fst_conv length_replicate)

lemma keccak_rate_136:
  assumes "mdlen = 200 \<or> mdlen = 32"
  shows "keccak input mdlen = Some (memcpy_swap64le (squeeze input) (nat mdlen div 8))"
proof -
  obtain st r where ab: "absorb (replicate 25 0) input = (st, r)" by fastforce
  then have "length r < 136" using absorb_rest [of "replicate 25 0" input] by simp
  then show ?thesis
    using assms unfolding keccak_def squeeze_def HASH_DATA_AREA_def Let_def
    by (elim disjE) (simp_all add: ab KECCAK_PROCESS_BLOCK_def KECCAK_WORDS_def del: replicate.simps)
qed

lemma finish_squeeze:
  assumes "holds ctx m"
  shows "snd (keccak_finish ctx) = memcpy_swap64le (squeeze m) 4"
proof -
  obtain st r where ab: "absorb (replicate 25 0) m = (st, r)" by fastforce
  define k where "k = length r"
  have k: "k < 136" using holds_iff(1) [OF ab] by (simp add: k_def)
  have ctx: "ctx_hash ctx = st" "take k (ctx_message ctx) = r" "length (ctx_message ctx) = 136"
    "ctx_rest ctx = of_nat k"
    using assms holds_iff(2) [OF ab] by (simp_all add: k_def)
  have fin: "ctx_rest ctx AND KECCAK_FINALIZED = 0" using small_not_finalized [OF k] ctx by simp
  have idx: "unat (ctx_rest ctx) = k" using ctx k by (simp add: unat_of_nat64)
  define z where "z = memcpy_at (ctx_message ctx) k (replicate (136 - k) 0)"
  have "replicate (136 - k) (0 :: u8) = 0 # replicate (135 - k) 0"
    using k by (simp add: Suc_diff_le flip: replicate_Suc)
  then have z: "z[k := z ! k OR 1] = r @ [1] @ replicate (135 - k) 0"
    using k ctx by (simp add: z_def memcpy_at_def nth_append list_update_append flip: k_def)
  show ?thesis
    by (simp add: keccak_finish_def Let_def fin idx KECCAK_BLOCKLEN_def z_def [symmetric] z ctx(1-3)
        squeeze_def ab KECCAK_DIGESTSIZE_def pad_block_def k_def [symmetric] del: append_Cons append.simps)
qed

lemma cn_fast_hash_squeeze: "cn_fast_hash m = memcpy_swap64le (squeeze m) 4"
proof -
  have "memcpy_swap64le (squeeze m) 25 = memcpy_swap64le (squeeze m) 4 @ concat (map le_bytes (drop 4 (squeeze m)))"
    by (simp add: memcpy_swap64le_def flip: concat_append map_append)
  moreover have "length (memcpy_swap64le (squeeze m) 4) = 32"
    by (simp add: memcpy_swap64le_def length_concat sum_list_triv comp_def)
  ultimately show ?thesis by (simp add: cn_fast_hash_def hash_process_def keccak1600_def keccak_rate_136 HASH_SIZE_def)
qed

lemma cn_fast_hash_length: "length (cn_fast_hash m) = 32"
    by (simp add: cn_fast_hash_squeeze memcpy_swap64le_def length_concat sum_list_triv comp_def)

interpretation keccak_stream: incremental keccak_init keccak_update "\<lambda>ctx. snd (keccak_finish ctx)" cn_fast_hash holds "2 ^ 64"
  by unfold_locales (simp_all only: holds_init holds_update finish_squeeze cn_fast_hash_squeeze)

text \<open>C8: feeding a message to the context in any chunks and finishing gives the one-shot hash of the
  whole message; a finished context gives the same digest again and aborts on further input.\<close>

theorem keccak_streaming:
  assumes "length (concat chunks) < 2 ^ 64"
  shows "\<exists>ctx. feed keccak_update chunks keccak_init = Some ctx \<and>
    snd (keccak_finish ctx) = cn_fast_hash (concat chunks) \<and>
    keccak_finish (fst (keccak_finish ctx)) = keccak_finish ctx \<and>
    keccak_update x (fst (keccak_finish ctx)) = None"
proof -
  obtain ctx where ctx: "feed keccak_update chunks keccak_init = Some ctx"
    "snd (keccak_finish ctx) = cn_fast_hash (concat chunks)"
    using keccak_stream.feed_whole [OF assms] by auto
  moreover have "keccak_finish (fst (keccak_finish ctx)) = keccak_finish ctx"
    by (simp add: keccak_finish_def Let_def KECCAK_FINALIZED_def)
  moreover have "keccak_update x (fst (keccak_finish ctx)) = None"
    by (simp add: keccak_finish_def keccak_update_def Let_def KECCAK_FINALIZED_def)
  ultimately show ?thesis by blast
qed

theorem keccak_streaming_witness:
  "\<exists>ctx. feed keccak_update [[1, 2], [], replicate 300 7] keccak_init = Some ctx \<and>
    snd (keccak_finish ctx) = cn_fast_hash (concat [[1, 2], [], replicate 300 7]) \<and>
    keccak_finish (fst (keccak_finish ctx)) = keccak_finish ctx \<and>
    keccak_update [9] (fst (keccak_finish ctx)) = None"
  by (rule keccak_streaming) simp

subsection \<open>Which digest lengths are accepted\<close>

lemma keccak_blocks_rest:
  assumes "0 < rsiz"
  shows "length (snd (keccak_blocks rsiz st m)) < rsiz"
  using assms
  by (induction rsiz st m rule: keccak_blocks.induct) (subst keccak_blocks.simps, simp)

text \<open>\<open>keccak\<close> returns exactly for a digest of 200 bytes or of a multiple of eight bytes from 32 to
  96, whatever the input, and aborts for every other length.\<close>

lemma keccak_returns_iff:
  "keccak input mdlen \<noteq> None \<longleftrightarrow> mdlen = 200 \<or> 32 \<le> mdlen \<and> mdlen \<le> 96 \<and> mdlen mod 8 = 0"
proof -
  consider "mdlen = 200" | "mdlen \<le> 0 \<or> 100 \<le> mdlen \<and> mdlen \<noteq> 200" | "0 < mdlen" "mdlen < 100" by linarith
  then show ?thesis
  proof cases
    case 1
    then show ?thesis by (simp add: keccak_rate_136)
  next
    case 2
    then show ?thesis by (auto simp: keccak_def)
  next
    case 3
    define rsiz where "rsiz = nat (200 - 2 * mdlen)"
    obtain st r where ab: "keccak_blocks rsiz (replicate 25 0) input = (st, r)" by fastforce
    have r: "length r < rsiz" using keccak_blocks_rest [of rsiz "replicate 25 0" input] ab 3 by (simp add: rsiz_def)
    have "keccak input mdlen \<noteq> None \<longleftrightarrow> rsiz < 143 \<and> mdlen mod 8 = 0"
      using 3 r unfolding keccak_def rsiz_def [symmetric] by (auto simp: ab Let_def)
    also have "rsiz < 143 \<longleftrightarrow> 29 \<le> mdlen" using 3 by (auto simp: rsiz_def)
    finally show ?thesis using 3 by presburger
  qed
qed

end
