(* ===== verification/Varint.thy ===== *)
theory Varint
  imports Hidering_Prelude
begin

section \<open>Variable-length integers (\<open>src/common/varint.h\<close>)\<close>

text \<open>
  The template parameter \<open>T\<close> of the header is \<open>uint64_t\<close> (or \<open>size_t\<close>) here; \<open>bits\<close> of
  \<open>read_varint\<close> stays a parameter. The reader's return value is the C++ \<open>int\<close>: a negative error
  code or the number of bytes read; the reference argument \<open>write\<close> and the advanced iterator are
  the other two components of the result.
\<close>

definition EVARINT_OVERFLOW :: int where "EVARINT_OVERFLOW = -1"
definition EVARINT_REPRESENT :: int where "EVARINT_REPRESENT = -2"

function write_varint :: "u64 \<Rightarrow> bytes" where
  "write_varint i =
     (if 0x80 \<le> i then ((ucast i AND 0x7f) OR 0x80) # write_varint (drop_bit 7 i)
      else [ucast i])"
  by pat_completeness auto
termination
  by (relation "measure unat") (auto simp: word_nat word_le_nat_alt)

declare write_varint.simps [simp del]

definition get_varint_data :: "u64 \<Rightarrow> bytes" where
  "get_varint_data v = write_varint v"

fun read_varint_loop :: "nat \<Rightarrow> bytes \<Rightarrow> nat \<Rightarrow> int \<Rightarrow> u64 \<Rightarrow> int \<times> u64 \<times> bytes" where
  "read_varint_loop bits [] shift read write = (read, write, [])"
| "read_varint_loop bits (b # first) shift read write =
     (if bits \<le> shift + 7 \<and> 2 ^ (bits - shift) \<le> unat b then (EVARINT_OVERFLOW, write, first)
      else if b = 0 \<and> shift \<noteq> 0 then (EVARINT_REPRESENT, write, first)
      else let write' = write OR push_bit shift (ucast (b AND 0x7f)) in
        if b AND 0x80 = 0 then (read + 1, write', first)
        else read_varint_loop bits first (shift + 7) (read + 1) write')"

definition read_varint_bits :: "nat \<Rightarrow> bytes \<Rightarrow> int \<times> u64 \<times> bytes" where
  "read_varint_bits bits input = read_varint_loop bits input 0 0 0"

definition read_varint :: "bytes \<Rightarrow> int \<times> u64 \<times> bytes" where
  "read_varint input = read_varint_bits 64 input"

subsection \<open>The bytes of an encoding\<close>

lemma write_varint_small: "i < 0x80 \<Longrightarrow> write_varint i = [ucast i]"
  by (subst write_varint.simps) (simp add: not_le [symmetric])

lemma write_varint_large:
  "0x80 \<le> i \<Longrightarrow> write_varint i = ((ucast i AND 0x7f) OR 0x80) # write_varint (drop_bit 7 i)"
  by (subst write_varint.simps) simp

lemma write_varint_nonempty [simp]: "write_varint i \<noteq> []"
  by (subst write_varint.simps) simp

lemma low_septet: "unat (ucast i AND 0x7f :: byte) = unat i mod 128" for i :: u64
proof -
  have "unat (ucast i AND mask 7 :: byte) = unat i mod 128"
    by (simp only: unat_and_mask unat_ucast_mod) (simp add: mod_mod_cancel)
  then show ?thesis by (simp add: mask_numeral)
qed

lemma continuation_byte:
  "unat ((ucast i AND 0x7f :: byte) OR 0x80) = 128 + unat i mod 128" for i :: u64
proof -
  have "(ucast i AND 0x7f :: byte) AND 0x80 = 0"
    by (simp add: byte_high_bit low_septet)
  then have "(ucast i AND 0x7f :: byte) OR 0x80 = (ucast i AND 0x7f) + 0x80"
    by (simp only: disjunctive_add_eq_or)
  moreover have "unat (ucast i AND 0x7f :: byte) = unat i mod 128"
    by (rule low_septet)
  ultimately show ?thesis by (simp add: unat_word_ariths)
qed

lemma septet_ucast:
  "(ucast (((ucast i :: byte) AND 0x7f OR 0x80) AND 0x7f) :: u64) = i AND mask 7" for i :: u64
proof (rule word_unat_eqI)
  have "(128 + unat i mod 128) mod 128 = unat i mod 128" by simp
  then show "unat (ucast (((ucast i :: byte) AND 0x7f OR 0x80) AND 0x7f) :: u64)
      = unat (i AND mask 7)"
    by (simp add: byte_0x7f unat_and_mask unat_ucast_mod continuation_byte [unfolded byte_0x7f])
qed

lemma septet_ucast_small: "i < 0x80 \<Longrightarrow> (ucast ((ucast i :: byte) AND 0x7f) :: u64) = i" for i :: u64
  by (rule word_unat_eqI) (simp add: byte_0x7f unat_and_mask unat_ucast_mod word_less_nat_alt)

subsection \<open>Reading back what was written\<close>

lemma read_write_loop:
  assumes "bits \<le> 64" "unat x * 2 ^ shift < 2 ^ bits" "shift \<noteq> 0 \<longrightarrow> x \<noteq> 0"
  shows "read_varint_loop bits (write_varint x @ rest) shift r w
    = (r + int (length (write_varint x)), w OR push_bit shift x, rest)"
  using assms
proof (induction x arbitrary: shift r w rule: write_varint.induct)
  case (1 x)
  show ?case
  proof (cases "0x80 \<le> x")
    case True
    then have x: "128 \<le> unat x" by (simp add: word_le_nat_alt)
    then have "2 ^ (shift + 7) \<le> unat x * 2 ^ shift" by (simp add: power_add)
    then have "(2::nat) ^ (shift + 7) < 2 ^ bits" using "1.prems"(2) by (rule order.strict_trans1)
    then have sh: "shift + 7 < bits" using power_less_imp_less_exp by force
    have "unat (drop_bit 7 x) * 2 ^ (shift + 7) \<le> unat x * 2 ^ shift"
      by (simp add: word_nat power_add)
    with "1.prems"(2) have lt: "unat (drop_bit 7 x) * 2 ^ (shift + 7) < 2 ^ bits" by linarith
    have nz: "drop_bit 7 x \<noteq> 0"
      by (rule word_nonzeroI) (use x in \<open>simp add: word_nat\<close>)
    have b: "\<not> (ucast x AND 0x7f OR 0x80 :: byte) AND 0x80 = 0"
      by (simp add: byte_high_bit continuation_byte)
    have b': "(ucast x AND 0x7f OR 0x80 :: byte) \<noteq> 0"
      using continuation_byte [of x] by (intro word_nonzeroI) linarith
    have "read_varint_loop bits (write_varint x @ rest) shift r w
        = read_varint_loop bits (write_varint (drop_bit 7 x) @ rest) (shift + 7) (r + 1)
            (w OR push_bit shift (x AND mask 7))"
      using sh b b' by (simp add: write_varint_large [OF True] septet_ucast)
    also have "\<dots> = (r + 1 + int (length (write_varint (drop_bit 7 x))),
        (w OR push_bit shift (x AND mask 7)) OR push_bit (shift + 7) (drop_bit 7 x), rest)"
      using True lt nz "1.prems"(1) by (intro "1.IH") simp_all
    also have "\<dots> = (r + int (length (write_varint x)), w OR push_bit shift x, rest)"
      by (simp only: or.assoc push_bit_split write_varint_large [OF True]) simp
    finally show ?thesis .
  next
    case False
    then have x: "x < 0x80" "unat x < 128" by (simp_all add: word_le_nat_alt not_le word_less_nat_alt)
    have ov: "\<not> (bits \<le> shift + 7 \<and> 2 ^ (bits - shift) \<le> unat x)"
    proof (cases "shift \<le> bits")
      case True
      then have "(2::nat) ^ bits = 2 ^ (bits - shift) * 2 ^ shift" by (simp flip: power_add)
      with "1.prems"(2) show ?thesis by simp
    next
      case False
      then have "(2::nat) ^ bits \<le> 2 ^ shift" by simp
      then have "unat x * 2 ^ shift < 1 * 2 ^ shift" using "1.prems"(2) by linarith
      then have "x = 0" by (simp only: mult_less_cancel2) (simp add: unat_0_iff)
      with "1.prems"(3) False show ?thesis by simp
    qed
    have u: "unat (ucast x :: byte) = unat x" using x(2) by (simp add: unat_ucast_mod)
    then have "(ucast x :: byte) AND 0x80 = 0" using x(2) by (simp add: byte_high_bit)
    moreover have "(ucast x :: byte) = 0 \<longleftrightarrow> x = 0"
      by (simp only: u flip: unat_0_iff)
    ultimately have "read_varint_loop bits (ucast x # rest) shift r w
        = (r + 1, w OR push_bit shift x, rest)"
      using ov "1.prems"(3) by (simp only: read_varint_loop.simps u septet_ucast_small [OF x(1)]) auto
    then show ?thesis by (simp add: write_varint_small [OF x(1)])
  qed
qed

subsection \<open>What the reader accepts\<close>

lemma septet_of_byte: "unat (ucast (b AND 0x7f) :: u64) = unat b mod 128" for b :: byte
proof -
  have "unat b mod 128 < 18446744073709551616"
    by (rule order.strict_trans2 [of _ 128]) simp_all
  then show ?thesis by (simp add: byte_0x7f unat_and_mask unat_ucast_mod)
qed

lemma compose_septets:
  assumes "unat y * 128 < 2 ^ 64" "128 \<le> unat b"
  obtains x :: u64 where "drop_bit 7 x = y" "x AND mask 7 = ucast (b AND 0x7f)"
    "(ucast x AND 0x7f OR 0x80 :: byte) = b" "y \<noteq> 0 \<Longrightarrow> 0x80 \<le> x"
    "unat x = unat b mod 128 + 128 * unat y"
proof -
  define x :: u64 where "x = word_of_nat (unat b mod 128 + 128 * unat y)"
  have "unat b mod 128 + 128 * unat y < 2 ^ 64"
  proof -
    have "unat y < 144115188075855872" using assms(1) by simp
    moreover have "unat b mod 128 < 128" by simp
    ultimately have "unat b mod 128 + 128 * unat y < 18446744073709551616" by linarith
    then show ?thesis by simp
  qed
  then have x: "unat x = unat b mod 128 + 128 * unat y"
    unfolding x_def unat_of_nat by simp
  have 1: "drop_bit 7 x = y" "x AND mask 7 = ucast (b AND 0x7f)"
    by (rule word_unat_eqI; simp add: unat_drop_bit unat_and_mask septet_of_byte x)+
  have "unat b - 128 < 128" using unat_u8_lt [of b] by linarith
  then have "unat b mod 128 = unat b - 128" using assms(2) by (simp add: le_mod_geq)
  then have "unat x mod 128 = unat b - 128" by (simp add: x)
  then have 2: "(ucast x AND 0x7f OR 0x80 :: byte) = b"
    using assms(2) by (intro word_unat_eqI) (simp add: continuation_byte)
  have 3: "y \<noteq> 0 \<Longrightarrow> 0x80 \<le> x"
    using unat_0_iff [of y] by (simp add: word_le_nat_alt x)
  show ?thesis using that 1 2 3 x by blast
qed

lemma read_varint_loop_sound:
  assumes "read_varint_loop bits bs shift r w = (r', v, rest)" "bits \<le> 64" "0 \<le> r" "0 \<le> r'"
  shows "\<exists>x. v = w OR push_bit shift x \<and> unat x * 2 ^ shift < 2 ^ bits \<and>
     (bs = write_varint x @ rest \<and> (shift \<noteq> 0 \<longrightarrow> x \<noteq> 0) \<or>
      rest = [] \<and> (\<forall>b \<in> set bs. 128 \<le> unat b))"
  using assms
proof (induction bits bs shift r w rule: read_varint_loop.induct)
  case (1 bits shift rd wr)
  then show ?case by (intro exI [of _ 0]) auto
next
  case (2 bits b tail shift rd wr)
  let ?s = "ucast (b AND 0x7f) :: u64"
  have ov: "\<not> (bits \<le> shift + 7 \<and> 2 ^ (bits - shift) \<le> unat b)" and rep: "\<not> (b = 0 \<and> shift \<noteq> 0)"
    using "2.prems" by (auto simp: EVARINT_OVERFLOW_def EVARINT_REPRESENT_def split: if_splits)
  show ?case
  proof (cases "b AND 0x80 = 0")
    case True
    then have b: "unat b < 128" by (simp add: byte_high_bit)
    have x: "unat ?s = unat b" using b by (simp add: septet_of_byte)
    have eq: "v = wr OR push_bit shift ?s" "rest = tail"
      using "2.prems"(1) ov rep True by (auto simp: Let_def)
    have "unat b * 2 ^ shift < 2 ^ bits" 
    proof (cases "bits \<le> shift + 7")
      case True
      with ov rep have "shift \<le> bits \<and> unat b < 2 ^ (bits - shift)"
        using unat_0_iff [of b] by (cases "shift \<le> bits") auto
      then have "unat b * 2 ^ shift < 2 ^ (bits - shift) * 2 ^ shift" by simp
      also have "\<dots> = 2 ^ bits"
        using \<open>shift \<le> bits \<and> unat b < 2 ^ (bits - shift)\<close> by (simp flip: power_add)
      finally show ?thesis .
    next
      case False
      have "unat b * 2 ^ shift < 2 ^ 7 * 2 ^ shift" using b by simp
      also have "\<dots> \<le> 2 ^ bits" unfolding power_add [symmetric] using False by (intro power_increasing) simp_all
      finally show ?thesis .
    qed
    moreover have "write_varint ?s = [b]"
    proof -
      have "?s < 0x80" using x b by (simp add: word_less_nat_alt)
      moreover have "(ucast ?s :: byte) = b"
        by (rule word_unat_eqI) (simp only: unat_ucast_mod [of ?s] x, simp)
      ultimately show ?thesis by (simp add: write_varint_small)
    qed
    moreover have "shift \<noteq> 0 \<longrightarrow> ?s \<noteq> 0" using rep x unat_0_iff [of b] unat_0_iff [of ?s] by metis
    ultimately show ?thesis using eq x by (intro exI [of _ ?s]) simp
  next
    case False
    then have b: "128 \<le> unat b" by (simp add: byte_high_bit)
    have "read_varint_loop bits tail (shift + 7) (rd + 1) (wr OR push_bit shift ?s) = (r', v, rest)"
      using "2.prems"(1) ov rep False by (auto simp: Let_def)
    with "2.IH" [OF ov rep refl False] "2.prems" obtain y where y:
      "v = (wr OR push_bit shift ?s) OR push_bit (shift + 7) y"
      "unat y * 2 ^ (shift + 7) < 2 ^ bits"
      "tail = write_varint y @ rest \<and> y \<noteq> 0 \<or> rest = [] \<and> (\<forall>b \<in> set tail. 128 \<le> unat b)"
      by auto
    have "unat y * 128 \<le> unat y * 2 ^ (shift + 7)" by (simp add: power_add)
    also have "\<dots> < 2 ^ bits" by (rule y(2))
    also have "(2::nat) ^ bits \<le> 2 ^ 64" using "2.prems"(2) by (intro power_increasing) simp_all
    finally have "unat y * 128 < 2 ^ 64" .
    then obtain x where x: "drop_bit 7 x = y" "x AND mask 7 = ?s"
      "(ucast x AND 0x7f OR 0x80 :: byte) = b" "y \<noteq> 0 \<Longrightarrow> 0x80 \<le> x"
      "unat x = unat b mod 128 + 128 * unat y"
      using compose_septets [OF _ b] by blast
    have "v = wr OR push_bit shift x"
      unfolding y(1) or.assoc x(1,2) [symmetric] push_bit_split ..
    moreover have "unat x * 2 ^ shift < 2 ^ bits"
    proof -
      have "\<not> bits \<le> shift + 7"
      proof
        assume le: "bits \<le> shift + 7"
        then have "(2::nat) ^ (bits - shift) \<le> 2 ^ 7" by (intro power_increasing) simp_all
        with b ov le show False by simp
      qed
      then obtain k where k: "bits = shift + 7 + k" using nat_le_iff_add by (metis nat_le_linear)
      have "unat y < 2 ^ k" using y(2) by (simp add: k power_add)
      then have "unat x < 128 * 2 ^ k"
        unfolding x(5) using mod_less_divisor [of 128 "unat b"] by linarith
      then show ?thesis by (simp add: k power_add)
    qed
    moreover have "b # tail = write_varint x @ rest \<and> (shift \<noteq> 0 \<longrightarrow> x \<noteq> 0)
        \<or> rest = [] \<and> (\<forall>b \<in> set (b # tail). 128 \<le> unat b)"
      using y(3)
    proof
      assume t: "tail = write_varint y @ rest \<and> y \<noteq> 0"
      with x(4) have "0x80 \<le> x" by blast
      then have "write_varint x = b # write_varint y"
        by (simp only: write_varint_large x(1,3))
      moreover have "x \<noteq> 0" using x(1) t by auto
      ultimately show ?thesis using t by simp
    qed (use b in simp)
    ultimately show ?thesis by blast
  qed
qed

subsection \<open>Length of an encoding\<close>

lemma write_varint_length:
  "unat x < 2 ^ (7 * k) \<Longrightarrow> 0 < k \<Longrightarrow> length (write_varint x) \<le> k"
proof (induction k arbitrary: x)
  case (Suc k)
  show ?case
  proof (cases "0x80 \<le> x")
    case True
    have "unat (drop_bit 7 x) < 2 ^ (7 * k)"
      using Suc.prems(1) by (simp add: unat_drop_bit div_less_iff_less_mult power_add mult.commute)
    moreover from True Suc.prems(1) have "0 < k" by (cases k) (auto simp: word_le_nat_alt)
    ultimately show ?thesis using Suc.IH by (simp add: write_varint_large [OF True])
  qed (simp add: write_varint_small)
qed simp

subsection \<open>Correctness of the codec\<close>

text \<open>A non-negative result of the reader is the number of bytes consumed.\<close>

lemma read_varint_loop_count:
  assumes "read_varint_loop bits bs shift r w = (r', v, rest)" "0 \<le> r" "0 \<le> r'"
  shows "r' = r + int (length bs) - int (length rest) \<and> length rest \<le> length bs"
  using assms
  by (induction bits bs shift r w rule: read_varint_loop.induct)
     (auto simp: EVARINT_OVERFLOW_def EVARINT_REPRESENT_def Let_def split: if_splits)

lemma read_varint_count:
  assumes "read_varint bs = (r, v, rest)" "0 \<le> r"
  shows "r = int (length bs - length rest)"
  using read_varint_loop_count [of 64 bs 0 0 0 r v rest] assms
  by (auto simp: read_varint_def read_varint_bits_def)

text \<open>C32: writing an integer and reading it back, at any width \<open>bits\<close> that can hold it, returns the
  integer, reports exactly the bytes written and leaves the following input untouched.\<close>
theorem varint_roundtrip:
  assumes "bits \<le> 64" "unat x < 2 ^ bits"
  shows "read_varint_bits bits (write_varint x @ rest) = (int (length (write_varint x)), x, rest)"
  using assms by (simp add: read_varint_bits_def read_write_loop)

theorem varint_roundtrip_witness:
  "read_varint_bits 16 (write_varint 300 @ [7]) = (int (length (write_varint 300)), 300, [7])"
  by (rule varint_roundtrip) simp_all

text \<open>The reader accepts only canonical encodings. Whenever it does not return an error code, the
  value fits \<open>bits\<close>, and the bytes consumed are exactly the ones the writer produces for that
  value, unless the input ended inside the integer (every byte then has its continuation bit set).\<close>
lemma varint_canonical:
  assumes "read_varint_bits bits input = (n, v, rest)" "bits \<le> 64" "0 \<le> n"
  shows "unat v < 2 ^ bits \<and>
    (input = write_varint v @ rest \<or> rest = [] \<and> (\<forall>b \<in> set input. 128 \<le> unat b))"
  using read_varint_loop_sound [of bits input 0 0 0 n v rest] assms
  by (auto simp: read_varint_bits_def)

lemma varint_canonical_example:
  "unat (300 :: u64) < 2 ^ 16 \<and> ([0xac, 0x02, 9] = write_varint 300 @ [9]
     \<or> [9 :: byte] = [] \<and> (\<forall>b \<in> set [0xac, 0x02, 9 :: byte]. 128 \<le> unat b))"
  by (rule varint_canonical [of 16 "[0xac, 0x02, 9]" 2]) (simp_all add: read_varint_bits_def)

text \<open>An encoding has at least one byte and at most ten, so it fits the fixed buffers of its users.\<close>
theorem varint_length: "0 < length (write_varint x) \<and> length (write_varint x) \<le> 10"
proof -
  have "unat x < 2 ^ (7 * 10)"
    by (rule order.strict_trans2 [OF unat_u64_lt]) simp
  then have "length (write_varint x) \<le> 10" by (rule write_varint_length) simp
  then show ?thesis by simp
qed

subsection \<open>The varint as a codec\<close>

text \<open>
  Callers such as \<open>decode_addr\<close> treat a result \<open>\<le> 0\<close> as failure. In that use the pair of functions
  satisfies the codec contract for every 64-bit value.
\<close>

definition varint_dec :: "bytes \<Rightarrow> (u64 \<times> bytes) option" where
  "varint_dec input = (case read_varint input of (n, v, rest) \<Rightarrow> if n \<le> 0 then None else Some (v, rest))"

lemma read_write_varint:
  "read_varint (write_varint x @ rest) = (int (length (write_varint x)), x, rest)"
  by (simp add: read_varint_def read_varint_bits_def read_write_loop)

interpretation varint: prefix_codec write_varint varint_dec "\<lambda>_. True"
  by unfold_locales (simp add: varint_dec_def read_write_varint)

end
