(* ===== verification/Base58.thy ===== *)
theory Base58
  imports Keccak Varint Int_Util
begin

unbundle bit_operations_syntax

section \<open>Base58 (\<open>src/common/base58.cpp\<close>)\<close>

text \<open>
  The block code on bytes, the encoding of whole strings and the addresses with their checksum. A
  \<open>std::string\<close> is a list of bytes. \<open>None\<close> is a returned \<open>false\<close>, a failed assertion, or a write outside
  the result buffer, which the loop of \<open>encode_block\<close> does not check for. Byte order is that of a
  little-endian target. \<open>encode\<close> writes each block into its own part of the result; the model
  concatenates the parts.
\<close>

definition alphabet :: bytes where
  "alphabet = map of_char ''123456789ABCDEFGHJKLMNPQRSTUVWXYZabcdefghijkmnopqrstuvwxyz''"

definition alphabet_size :: nat where "alphabet_size = length alphabet"
definition encoded_block_sizes :: "nat list" where "encoded_block_sizes = [0, 2, 3, 5, 6, 7, 9, 10, 11]"
definition full_block_size :: nat where "full_block_size = length encoded_block_sizes - 1"
definition full_encoded_block_size :: nat where
  "full_encoded_block_size = encoded_block_sizes ! full_block_size"
definition addr_checksum_size :: nat where "addr_checksum_size = 4"

lemma sizes [simp]: "alphabet_size = 58" "full_block_size = 8" "full_encoded_block_size = 11" "length alphabet = 58"
  by (simp_all add: alphabet_size_def alphabet_def full_block_size_def encoded_block_sizes_def full_encoded_block_size_def)

definition reverse_alphabet_data :: "int list" where
  "reverse_alphabet_data =
     fold (\<lambda>i m_data. m_data[nat (sint (alphabet ! i) - sint (alphabet ! 0)) := int i]) [0..<alphabet_size]
       (replicate (nat (sint (alphabet ! (alphabet_size - 1)) - sint (alphabet ! 0) + 1)) (-1))"

text \<open>A \<open>char\<close> is signed; a negative difference becomes an index beyond every table.\<close>

definition reverse_alphabet :: "u8 \<Rightarrow> int" where
  "reverse_alphabet letter =
     (let idx = sint letter - sint (alphabet ! 0)
      in if 0 \<le> idx \<and> nat idx < length reverse_alphabet_data then reverse_alphabet_data ! nat idx else -1)"

definition decoded_block_sizes_data :: "int list" where
  "decoded_block_sizes_data =
     fold (\<lambda>i m_data. m_data[encoded_block_sizes ! i := int i]) [0..<full_block_size + 1]
       (replicate (encoded_block_sizes ! full_block_size + 1) (-1))"

definition decoded_block_sizes :: "nat \<Rightarrow> int option" where
  "decoded_block_sizes encoded_block_size =
     (if encoded_block_size \<le> full_encoded_block_size
      then Some (decoded_block_sizes_data ! encoded_block_size) else None)"

definition uint_8be_to_64 :: "bytes \<Rightarrow> u64" where
  "uint_8be_to_64 data = SWAP64 (le_word (replicate (8 - length data) 0 @ data))"

definition uint_64_to_8be :: "u64 \<Rightarrow> nat \<Rightarrow> bytes" where
  "uint_64_to_8be num sz = drop (8 - sz) (le_bytes (SWAP64 num))"

function encode_loop :: "u64 \<Rightarrow> int \<Rightarrow> bytes \<Rightarrow> bytes option" where
  "encode_loop num i res =
     (if 0 < num
      then if i < 0 \<or> length res \<le> nat i then None
           else encode_loop (num div of_nat alphabet_size) (i - 1) (res[nat i := alphabet ! unat (num mod of_nat alphabet_size)])
      else Some res)"
  by pat_completeness auto
termination
proof (relation "measure (\<lambda>(num, _, _). unat num)")
  fix num :: u64 and i :: int and res :: bytes
  assume "0 < num"
  then have "0 < unat num" by (simp add: word_gt_0 unat_gt_0)
  then show "((num div of_nat alphabet_size, i - 1, res[nat i := alphabet ! unat (num mod of_nat alphabet_size)]), num, i, res)
      \<in> measure (\<lambda>(num, _, _). unat num)"
    by (simp add: unat_div)
qed simp

declare encode_loop.simps [simp del]

definition encode_block :: "bytes \<Rightarrow> bytes option" where
  "encode_block block =
     (let sz = length block
      in if \<not> (1 \<le> sz \<and> sz \<le> full_block_size) then None
         else encode_loop (uint_8be_to_64 block) (int (encoded_block_sizes ! sz) - 1)
                (replicate (encoded_block_sizes ! sz) (alphabet ! 0)))"

fun decode_loop :: "bytes \<Rightarrow> u64 \<Rightarrow> u64 \<Rightarrow> u64 option" where
  "decode_loop [] res_num order = Some res_num"
| "decode_loop (letter # block) res_num order =
     (let digit = reverse_alphabet letter
      in if digit < 0 then None
         else let (product_lo, product_hi) = mul128 order (of_int digit); tmp = res_num + product_lo
              in if tmp < res_num \<or> 0 \<noteq> product_hi then None
                 else decode_loop block tmp (order * of_nat alphabet_size))"

definition decode_block :: "bytes \<Rightarrow> bytes option" where
  "decode_block block =
     (let sz = length block
      in if \<not> (1 \<le> sz \<and> sz \<le> full_encoded_block_size) then None
         else case decoded_block_sizes sz of None \<Rightarrow> None | Some res_size \<Rightarrow>
           if res_size \<le> 0 then None
           else case decode_loop (rev block) 0 1 of None \<Rightarrow> None | Some res_num \<Rightarrow>
             if nat res_size < full_block_size \<and> push_bit (8 * nat res_size) 1 \<le> res_num then None
             else Some (uint_64_to_8be res_num (nat res_size)))"

definition encode :: "bytes \<Rightarrow> bytes option" where
  "encode data = (if data = [] then Some [] else map_blocks full_block_size encode_block data)"

definition decode :: "bytes \<Rightarrow> bytes option" where
  "decode enc =
     (if enc = [] then Some []
      else case decoded_block_sizes (length enc mod full_encoded_block_size) of None \<Rightarrow> None
           | Some last_block_decoded_size \<Rightarrow>
               if last_block_decoded_size < 0 then None
               else map_blocks full_encoded_block_size decode_block enc)"

definition encode_addr :: "u64 \<Rightarrow> bytes \<Rightarrow> bytes option" where
  "encode_addr tag data =
     (let buf = get_varint_data tag @ data; hash = cn_fast_hash buf
      in encode (buf @ take addr_checksum_size hash))"

definition decode_addr :: "bytes \<Rightarrow> (u64 \<times> bytes) option" where
  "decode_addr addr =
     (case decode addr of None \<Rightarrow> None | Some addr_data \<Rightarrow>
        if length addr_data \<le> addr_checksum_size then None
        else let checksum = drop (length addr_data - addr_checksum_size) addr_data;
                 addr_data = take (length addr_data - addr_checksum_size) addr_data;
                 hash = cn_fast_hash addr_data;
                 expected_checksum = take addr_checksum_size hash
             in if expected_checksum \<noteq> checksum then None
                else let (read, tag, _) = read_varint addr_data
                     in if read \<le> 0 then None else Some (tag, drop (nat read) addr_data))"

subsection \<open>The alphabet and its reverse\<close>

lemma alphabet_sint:
  "map sint alphabet = [49, 50, 51, 52, 53, 54, 55, 56, 57, 65, 66, 67, 68, 69, 70, 71, 72, 74, 75, 76, 77, 78, 80, 81, 82, 83, 84, 85, 86, 87, 88, 89, 90, 97, 98, 99, 100, 101, 102, 103, 104, 105, 106, 107, 109, 110, 111, 112, 113, 114, 115, 116, 117, 118, 119, 120, 121, 122]"
  by (simp add: alphabet_def)

lemma alphabet_range: "i < 58 \<Longrightarrow> 49 \<le> sint (alphabet ! i) \<and> sint (alphabet ! i) \<le> 122"
proof -
  assume "i < 58"
  then have "sint (alphabet ! i) \<in> set (map sint alphabet)" by simp
  then show ?thesis unfolding alphabet_sint by auto
qed

lemma alphabet_ends: "sint (alphabet ! 0) = 49" "sint (alphabet ! 57) = 122"
  using nth_map [of 0 alphabet sint] nth_map [of 57 alphabet sint] by (simp_all add: alphabet_sint)

lemma alphabet_inj: "i < 58 \<Longrightarrow> j < 58 \<Longrightarrow> sint (alphabet ! i) = sint (alphabet ! j) \<Longrightarrow> i = j"
proof -
  have "distinct (map sint alphabet)" unfolding alphabet_sint by simp
  then show "i < 58 \<Longrightarrow> j < 58 \<Longrightarrow> sint (alphabet ! i) = sint (alphabet ! j) \<Longrightarrow> i = j"
    using nth_eq_iff_index_eq [of "map sint alphabet" i j] by simp
qed

text \<open>A table filled by writing \<open>i\<close> at \<open>pos i\<close>.\<close>

lemma fill_table:
  assumes "inj_on pos {..<n}" "\<forall>i<n. pos i < length t"
  defines "t' \<equiv> fold (\<lambda>i m. m[pos i := int i]) [0..<n] t"
  shows "length t' = length t" "i < n \<Longrightarrow> t' ! pos i = int i" "(\<forall>i<n. pos i \<noteq> k) \<Longrightarrow> t' ! k = t ! k"
proof -
  have "length t' = length t \<and> (\<forall>i<n. t' ! pos i = int i) \<and> (\<forall>k. (\<forall>i<n. pos i \<noteq> k) \<longrightarrow> t' ! k = t ! k)"
    using assms(1,2) unfolding t'_def
  proof (induction n)
    case (Suc n)
    then have "inj_on pos {..<n}" by (auto simp: lessThan_Suc)
    moreover have "pos n \<noteq> pos i" if "i < n" for i using inj_onD [OF Suc.prems(1), of n i] that by auto
    ultimately show ?case using Suc by (auto simp: less_Suc_eq)
  qed simp
  then show "length t' = length t" "i < n \<Longrightarrow> t' ! pos i = int i" "(\<forall>i<n. pos i \<noteq> k) \<Longrightarrow> t' ! k = t ! k"
    by auto
qed

lemma reverse_alphabet_iff: "i < 58 \<Longrightarrow> reverse_alphabet letter = int i \<longleftrightarrow> letter = alphabet ! i"
  and reverse_alphabet_cases: "reverse_alphabet letter = -1 \<or> (\<exists>i<58. letter = alphabet ! i)"
proof -
  define pos where "pos i = nat (sint (alphabet ! i) - 49)" for i
  have pos: "pos i < 74 \<and> int (pos i) = sint (alphabet ! i) - 49" if "i < 58" for i
    using alphabet_range [OF that] by (auto simp: pos_def)
  have inj: "inj_on pos {..<58}" 
  proof (rule inj_onI)
    fix i j assume "i \<in> {..<58}" "j \<in> {..<58}" "pos i = pos j"
    then show "i = j" using pos [of i] pos [of j] by (intro alphabet_inj) simp_all
  qed
  note t = fill_table [OF inj, of "replicate 74 (- 1)"]
  have d: "reverse_alphabet_data = fold (\<lambda>i m. m[pos i := int i]) [0..<58] (replicate 74 (- 1))"
    by (simp add: reverse_alphabet_data_def alphabet_ends pos_def)
  have len: "length reverse_alphabet_data = 74" using t(1) pos d by simp
  have fwd: "reverse_alphabet (alphabet ! i) = int i" if "i < 58" for i
    using t(2) [of i] pos [OF that] pos that d len alphabet_range [OF that]
    by (simp add: reverse_alphabet_def alphabet_ends pos_def)
  have bwd: "reverse_alphabet letter = -1" if "\<forall>i<58. letter \<noteq> alphabet ! i" for letter
  proof -
    let ?k = "nat (sint letter - 49)"
    have "reverse_alphabet_data ! ?k = -1" if "0 \<le> sint letter - 49" "?k < 74"
    proof -
      have "pos i \<noteq> ?k" if "i < 58" for i
        using pos [OF that] \<open>0 \<le> sint letter - 49\<close> \<open>\<forall>i<58. letter \<noteq> alphabet ! i\<close> that
        by (metis diff_add_cancel int_nat_eq signed_word_eqI)
      then show ?thesis using t(3) [of ?k] pos d that by simp
    qed
    then show ?thesis by (simp add: reverse_alphabet_def alphabet_ends len Let_def)
  qed
  show "reverse_alphabet letter = -1 \<or> (\<exists>i<58. letter = alphabet ! i)" using bwd by blast
  show "reverse_alphabet letter = int i \<longleftrightarrow> letter = alphabet ! i" if "i < 58"
  proof (cases "\<exists>j<58. letter = alphabet ! j")
    case True
    then show ?thesis using fwd that by auto
  next
    case False
    then show ?thesis using bwd [of letter] that by auto
  qed
qed


subsection \<open>Bytes and words\<close>

lemma uint_8be_le: "length x \<le> 8 \<Longrightarrow> uint_8be_to_64 x = le_word (rev x @ replicate (8 - length x) 0)"
  by (simp add: uint_8be_to_64_def SWAP64_le_word)

lemma unat_uint_8be: "length x \<le> 8 \<Longrightarrow> unat (uint_8be_to_64 x) = digits_val 256 (map unat (rev x))"
  by (simp add: uint_8be_le unat_le_word digits_val_append digits_val_zeros)

lemma uint_8be_lt: "length x \<le> 8 \<Longrightarrow> unat (uint_8be_to_64 x) < 256 ^ length x"
  using digits_val_lt [of "map unat (rev x)" 256] by (auto simp: unat_uint_8be)

lemma uint_64_to_8be_eq: "s \<le> 8 \<Longrightarrow> uint_64_to_8be num s = rev (take s (le_bytes num))"
proof -
  assume "s \<le> 8"
  have "SWAP64 num = le_word (rev (le_bytes num))"
    using SWAP64_le_word [of "le_bytes num"] by simp
  then show ?thesis using \<open>s \<le> 8\<close> by (simp add: uint_64_to_8be_def drop_rev)
qed

lemma uint_64_8be_inverse:
  assumes "length x \<le> 8"
  shows "uint_64_to_8be (uint_8be_to_64 x) (length x) = x"
  using assms by (simp add: uint_64_to_8be_eq uint_8be_le)

lemma uint_8be_64_inverse:
  assumes "s \<le> 8" "unat num < 256 ^ s"
  shows "uint_8be_to_64 (uint_64_to_8be num s) = num" "length (uint_64_to_8be num s) = s"
proof -
  show len: "length (uint_64_to_8be num s) = s" using assms(1) by (simp add: uint_64_to_8be_eq)
  let ?d = "digits_val 256 (map unat (drop s (le_bytes num)))"
  let ?t = "digits_val 256 (map unat (take s (le_bytes num)))"
  have "unat num = digits_val 256 (map unat (take s (le_bytes num) @ drop s (le_bytes num)))"
    using unat_le_word [of "le_bytes num"] by simp
  then have v: "unat num = ?t + 256 ^ s * ?d" unfolding map_append digits_val_append using assms(1) by simp
  then have "?d = 0" using assms(2) by (cases ?d) auto
  then have "unat (uint_8be_to_64 (uint_64_to_8be num s)) = unat num"
    using v len assms(1) by (simp add: unat_uint_8be) (simp add: uint_64_to_8be_eq)
  then show "uint_8be_to_64 (uint_64_to_8be num s) = num" by (rule word_unat_eqI)
qed

subsection \<open>Blocks\<close>

lemma to_digits_0: "to_digits B n 0 = replicate n 0"
  by (induction n) auto

lemma encode_loop_digits:
  assumes "unat num < 58 ^ n"
  shows "encode_loop num (int n - 1) (replicate n (alphabet ! 0) @ done) =
    Some (rev (map ((!) alphabet) (to_digits 58 n (unat num))) @ done)"
  using assms
proof (induction n arbitrary: num "done")
  case 0
  then have "num = 0" by (simp add: word_unat_eqI)
  then show ?case by (subst encode_loop.simps) simp
next
  case (Suc n)
  show ?case
  proof (cases "num = 0")
    case True
    then show ?thesis by (subst encode_loop.simps) (simp add: to_digits_0 replicate_append_same del: replicate.simps)
  next
    case False
    have dm: "unat (num div 58) = unat num div 58" "unat (num mod 58) = unat num mod 58"
      by (simp_all add: unat_div unat_mod)
    have "unat num div 58 < 58 ^ n" using Suc.prems by (simp add: less_mult_imp_div_less mult.commute)
    moreover have "(replicate (Suc n) (alphabet ! 0) @ done)[n := c] = replicate n (alphabet ! 0) @ c # done" for c
      using replicate_append_same [of n "alphabet ! 0"]
      by (simp add: list_update_append flip: replicate_append_same)
    ultimately show ?thesis
      using False Suc.IH [of "num div 58"] by (subst encode_loop.simps) (simp add: dm word_gt_0 del: replicate.simps)
  qed
qed

lemma mul_add_checked:
  assumes "mul128 x y = (lo, hi)"
  shows "res + lo < res \<or> 0 \<noteq> hi \<longleftrightarrow> \<not> unat res + unat x * unat y < 2 ^ 64"
    and "unat res + unat x * unat y < 2 ^ 64 \<Longrightarrow> unat (res + lo) = unat res + unat x * unat y"
proof -
  note prod = mul128_exact [OF assms]
  show *: "res + lo < res \<or> 0 \<noteq> hi \<longleftrightarrow> \<not> unat res + unat x * unat y < 2 ^ 64"
  proof (cases "hi = 0")
    case True
    then show ?thesis using prod add_wraps_iff [of res lo] by (simp add: not_less)
  next
    case False
    then have "2 ^ 64 \<le> unat hi * 2 ^ 64" by (simp add: Suc_le_eq word_gt_0 unat_gt_0)
    then have "2 ^ 64 \<le> unat x * unat y" using prod by linarith
    then show ?thesis using False by auto
  qed
  assume fits: "unat res + unat x * unat y < 2 ^ 64"
  then have "hi = 0" using * by auto
  then show "unat (res + lo) = unat res + unat x * unat y"
    using prod fits by (subst unat_plus_exact) auto
qed

lemma decode_loop_digits:
  assumes "block \<noteq> [] \<longrightarrow> unat order = 58 ^ k" "k + length block \<le> 11"
  shows "decode_loop block res order = Some v \<longleftrightarrow>
    (\<exists>ds. block = map ((!) alphabet) ds \<and> (\<forall>d \<in> set ds. d < 58) \<and> unat v = unat res + 58 ^ k * digits_val 58 ds)"
  using assms
proof (induction block arbitrary: res order k)
  case Nil
  then show ?case by (auto simp: word_unat_eq_iff)
next
  case (Cons letter block)
  show ?case
  proof (cases "reverse_alphabet letter = -1")
    case True
    then have "\<forall>i<58. letter \<noteq> alphabet ! i" using reverse_alphabet_iff by (metis int_eq_iff neg_0_le_iff_le not_one_le_zero of_nat_0_le_iff)
    then show ?thesis using True by (auto simp: Cons_eq_map_conv)
  next
    case False
    then obtain d where d: "d < 58" "letter = alphabet ! d" using reverse_alphabet_cases by blast
    then have rev: "reverse_alphabet letter = int d" using reverse_alphabet_iff by simp
    have uniq: "alphabet ! d = alphabet ! e \<longleftrightarrow> d = e" if "e < 58" for e
      using d reverse_alphabet_iff [of e "alphabet ! d"] reverse_alphabet_iff [of d "alphabet ! d"] that by auto
    obtain lo hi where lh: "mul128 order (of_int (int d)) = (lo, hi)" by fastforce
    have order: "unat order = 58 ^ k" using Cons.prems(1) by simp
    have digit: "unat (of_int (int d) :: u64) = d" using d(1) by (simp add: unat_of_nat64)
    define fits where "fits \<longleftrightarrow> unat res + 58 ^ k * d < 2 ^ 64"
    note step = mul_add_checked [OF lh, of res, unfolded order digit, folded fits_def]
    let ?ok = "\<lambda>ds. block = map ((!) alphabet) ds \<and> (\<forall>e \<in> set ds. e < 58)"
    have rhs: "(\<exists>ds. letter # block = map ((!) alphabet) ds \<and> (\<forall>d \<in> set ds. d < 58) \<and>
          unat v = unat res + 58 ^ k * digits_val 58 ds) \<longleftrightarrow>
        (\<exists>ds. ?ok ds \<and> unat v = unat res + 58 ^ k * d + 58 ^ Suc k * digits_val 58 ds)"
      (is "?L = ?R")
    proof
      assume ?L
      then obtain e ds where "e < 58" "letter = alphabet ! e" "?ok ds"
        "unat v = unat res + 58 ^ k * (e + 58 * digits_val 58 ds)"
        by (auto simp: Cons_eq_map_conv)
      then show ?R using uniq d(2) by (intro exI [of _ ds]) (simp add: distrib_left)
    next
      assume ?R
      then obtain ds where "?ok ds" "unat v = unat res + 58 ^ k * d + 58 ^ Suc k * digits_val 58 ds" by blast
      then show ?L using d by (intro exI [of _ "d # ds"]) (simp add: distrib_left)
    qed
    show ?thesis
    proof (cases fits)
      case True
      have "unat (order * 58) = 58 ^ Suc k" if "block \<noteq> []"
      proof -
        have "k \<le> 9" using that Cons.prems(2) by (cases block) auto
        then have "(58::nat) ^ k \<le> 58 ^ 9" by (intro power_increasing) auto
        then show ?thesis using order by (subst unat_times_exact) auto
      qed
      then have "decode_loop block (res + lo) (order * 58) = Some v \<longleftrightarrow>
          (\<exists>ds. ?ok ds \<and> unat v = unat (res + lo) + 58 ^ Suc k * digits_val 58 ds)"
        using Cons.IH [of "order * 58" "Suc k" "res + lo"] Cons.prems(2) by auto
      then show ?thesis unfolding rhs step(2) [OF True] using True step(1) lh rev by (auto simp: Let_def)
    next
      case False
      then have "\<not> (\<exists>ds. ?ok ds \<and> unat v = unat res + 58 ^ k * d + 58 ^ Suc k * digits_val 58 ds)"
        using unat_u64_lt [of v] unfolding fits_def by (auto simp del: unat_u64_lt)
      then show ?thesis unfolding rhs using False step(1) lh rev by (auto simp: Let_def)
    qed
  qed
qed


lemma uint_8be_fits:
  assumes "x \<noteq> []" "length x \<le> 8"
  shows "unat (uint_8be_to_64 x) < 58 ^ (encoded_block_sizes ! length x)"
proof -
  have "length x = 1 \<or> length x = 2 \<or> length x = 3 \<or> length x = 4 \<or> length x = 5 \<or> length x = 6 \<or>
      length x = 7 \<or> length x = 8"
    using assms(2) length_greater_0_conv [of x] assms(1) by linarith
  then have "(256::nat) ^ length x \<le> 58 ^ (encoded_block_sizes ! length x)"
    by (auto simp: encoded_block_sizes_def)
  then show ?thesis using uint_8be_lt [OF assms(2)] by linarith
qed

lemma encode_block_eq:
  assumes "x \<noteq> []" "length x \<le> 8"
  shows "encode_block x = Some (rev (map ((!) alphabet)
    (to_digits 58 (encoded_block_sizes ! length x) (unat (uint_8be_to_64 x)))))"
  using encode_loop_digits [OF uint_8be_fits [OF assms], of "[]"] assms
  by (cases x) (auto simp: encode_block_def Let_def)

lemma decoded_sizes_data: "decoded_block_sizes_data = [0, -1, 1, 2, -1, 3, 4, 5, -1, 6, 7, 8]"
  by code_simp

lemma decoded_size:
  assumes "n \<le> 11"
  obtains r where "decoded_block_sizes n = Some r" "r \<le> 8"
    "\<And>s. 1 \<le> s \<Longrightarrow> s \<le> 8 \<Longrightarrow> n = encoded_block_sizes ! s \<longleftrightarrow> r = int s"
proof -
  have "list_all (\<lambda>n. decoded_block_sizes_data ! n \<le> 8 \<and>
      list_all (\<lambda>s. 1 \<le> s \<longrightarrow> (n = encoded_block_sizes ! s) = (decoded_block_sizes_data ! n = int s)) [0..<9]) [0..<12]"
    by code_simp
  then have r: "decoded_block_sizes_data ! n \<le> 8 \<and>
      list_all (\<lambda>s. 1 \<le> s \<longrightarrow> (n = encoded_block_sizes ! s) = (decoded_block_sizes_data ! n = int s)) [0..<9]"
    by (rule all_below) (use assms in simp)
  show ?thesis
  proof (rule that)
    show "decoded_block_sizes n = Some (decoded_block_sizes_data ! n)" using assms by (simp add: decoded_block_sizes_def)
    show "decoded_block_sizes_data ! n \<le> 8" using r by blast
    show "n = encoded_block_sizes ! s \<longleftrightarrow> decoded_block_sizes_data ! n = int s" if "1 \<le> s" "s \<le> 8" for s
      using all_below [OF conjunct2 [OF r], of s] that by simp
  qed
qed

lemma decode_block_iff:
  assumes "y \<noteq> []" "length y \<le> 11"
  shows "decode_block y = Some x \<longleftrightarrow> (\<exists>s num ds. 1 \<le> s \<and> s \<le> 8 \<and> length y = encoded_block_sizes ! s \<and>
    rev y = map ((!) alphabet) ds \<and> (\<forall>d \<in> set ds. d < 58) \<and> unat num = digits_val 58 ds \<and> unat num < 256 ^ s \<and>
    x = uint_64_to_8be num s)"
proof -
  obtain r where r: "decoded_block_sizes (length y) = Some r" "r \<le> 8"
    "\<And>s. 1 \<le> s \<Longrightarrow> s \<le> 8 \<Longrightarrow> length y = encoded_block_sizes ! s \<longleftrightarrow> r = int s"
    using decoded_size [OF assms(2)] by metis
  have loop: "decode_loop (rev y) 0 1 = Some num \<longleftrightarrow>
      (\<exists>ds. rev y = map ((!) alphabet) ds \<and> (\<forall>d \<in> set ds. d < 58) \<and> unat num = digits_val 58 ds)" for num
    using decode_loop_digits [of "rev y" 1 0 0 num] assms by simp
  have range: "\<not> (s < 8 \<and> push_bit (8 * s) 1 \<le> num) \<longleftrightarrow> unat num < 256 ^ s" if "s \<le> 8" for s and num :: u64
  proof (cases "s = 8")
    case False
    then have "8 * s < 64" using that by simp
    then have "unat (push_bit (8 * s) 1 :: u64) = 2 ^ (8 * s)"
      unfolding unat_push_bit_mod using power_strict_increasing [of "8 * s" 64 "2::nat"] by simp
    then show ?thesis using False that by (simp add: word_le_nat_alt not_le power_mult)
  qed simp
  show ?thesis
  proof (cases "0 < r")
    case True
    then obtain s where s: "r = int s" "1 \<le> s" "s \<le> 8" using r(2) zero_less_imp_eq_int [of r] by auto
    have "decode_block y = (case decode_loop (rev y) 0 1 of None \<Rightarrow> None | Some num \<Rightarrow>
        if s < 8 \<and> push_bit (8 * s) 1 \<le> num then None else Some (uint_64_to_8be num s))"
      using assms r(1) s by (cases y; cases "decode_loop (rev y) 0 1") (auto simp: decode_block_def Let_def)
    then have "decode_block y = Some x \<longleftrightarrow>
        (\<exists>num. decode_loop (rev y) 0 1 = Some num \<and> unat num < 256 ^ s \<and> x = uint_64_to_8be num s)"
      using range [OF s(3)] by (auto split: option.splits)
    then show ?thesis unfolding loop using r(3) s by auto
  next
    case False
    then have "decode_block y = None" using assms r(1) by (simp add: decode_block_def Let_def)
    then show ?thesis using r(3) False by auto
  qed
qed

lemma block_inverse:
  assumes "x \<noteq> []" "length x \<le> 8" "y \<noteq> []" "length y \<le> 11"
  shows "encode_block x = Some y \<longleftrightarrow> decode_block y = Some x"
proof
  assume "encode_block x = Some y"
  then have y: "y = rev (map ((!) alphabet) (to_digits 58 (encoded_block_sizes ! length x) (unat (uint_8be_to_64 x))))"
    using encode_block_eq [OF assms(1,2)] by simp
  let ?n = "encoded_block_sizes ! length x" and ?num = "uint_8be_to_64 x"
  have "length x \<ge> 1" using assms(1) by (cases x) auto
  moreover have "rev y = map ((!) alphabet) (to_digits 58 ?n (unat ?num))" "length y = ?n" using y by simp_all
  moreover have "digits_val 58 (to_digits 58 ?n (unat ?num)) = unat ?num"
    using uint_8be_fits [OF assms(1,2)] by (rule digits_val_to_digits)
  ultimately show "decode_block y = Some x"
    unfolding decode_block_iff [OF assms(3,4)]
    using assms(2) to_digits_lt [of 58 _ ?n "unat ?num"] uint_8be_lt [OF assms(2)] uint_64_8be_inverse [OF assms(2)]
    by (intro exI [of _ "length x"] exI [of _ ?num] exI [of _ "to_digits 58 ?n (unat ?num)"]) auto
next
  assume "decode_block y = Some x"
  then obtain s num ds where y: "1 \<le> s" "s \<le> 8" "length y = encoded_block_sizes ! s"
    "rev y = map ((!) alphabet) ds" "\<forall>d \<in> set ds. d < 58" "unat num = digits_val 58 ds" "unat num < 256 ^ s"
    "x = uint_64_to_8be num s" using decode_block_iff [OF assms(3,4)] by blast
  have "length ds = encoded_block_sizes ! length x" "unat (uint_8be_to_64 x) = digits_val 58 ds"
    using y uint_8be_64_inverse [OF y(2,7)] by (metis length_map length_rev)+
  then have "y = rev (map ((!) alphabet) (to_digits 58 (encoded_block_sizes ! length x) (unat (uint_8be_to_64 x))))"
    using to_digits_digits_val [OF y(5)] y(4) by (metis rev_rev_ident)
  then show "encode_block x = Some y" using encode_block_eq [OF assms(1,2)] by simp
qed


lemma block_sizes: "1 \<le> s \<Longrightarrow> s \<le> 8 \<Longrightarrow> 1 \<le> encoded_block_sizes ! s \<and> encoded_block_sizes ! s \<le> 11 \<and> (s = 8 \<longleftrightarrow> encoded_block_sizes ! s = 11)"
proof -
  assume "1 \<le> s" "s \<le> 8"
  then have "s = 1 \<or> s = 2 \<or> s = 3 \<or> s = 4 \<or> s = 5 \<or> s = 6 \<or> s = 7 \<or> s = 8" by linarith
  then show ?thesis by (elim disjE) (simp_all add: encoded_block_sizes_def)
qed

lemma encode_block_size:
  assumes "x \<noteq> []" "length x \<le> 8" "encode_block x = Some y"
  shows "y \<noteq> [] \<and> length y \<le> 11 \<and> (length x = 8 \<longleftrightarrow> length y = 11)"
proof -
  have "length y = encoded_block_sizes ! length x" using encode_block_eq [OF assms(1,2)] assms(3) by auto
  then show ?thesis using block_sizes [of "length x"] assms(1,2) by (cases x; cases y) auto
qed

lemma decode_block_size:
  assumes "y \<noteq> []" "length y \<le> 11" "decode_block y = Some x"
  shows "x \<noteq> [] \<and> length x \<le> 8"
  using assms(3) uint_8be_64_inverse(2) unfolding decode_block_iff [OF assms(1,2)]
  by (metis le_zero_eq list.size(3) not_one_le_zero)

interpretation base58: block_code 8 11 encode_block decode_block
  by (rule block_code.intro) (simp | (rule block_inverse encode_block_size decode_block_size; assumption))+

subsection \<open>Whole strings\<close>

lemma encode_map_blocks: "encode data = map_blocks 8 encode_block data"
  by (simp add: encode_def map_blocks_def full_blocks_def)

lemma decode_map_blocks: "decode enc = map_blocks 11 decode_block enc"
proof -
  let ?l = "length enc mod 11"
  obtain r where r: "decoded_block_sizes ?l = Some r" by (rule decoded_size [of ?l]) auto
  have "map_blocks 11 decode_block enc = None" if "r < 0"
  proof -
    have "?l \<noteq> 0"
    proof
      assume "?l = 0"
      then show False using r that by (simp add: decoded_block_sizes_def decoded_sizes_data)
    qed
    moreover have "decode_block (last_block 11 enc) = None"
      using r that blocks_split(3) [of 11 enc] by (simp add: decode_block_def Let_def)
    ultimately show ?thesis by (simp add: map_blocks_def bind_eq_None_conv)
  qed
  then show ?thesis using r by (auto simp: decode_def map_blocks_def full_blocks_def)
qed

lemma decode_iff_encode: "decode enc = Some data \<longleftrightarrow> encode data = Some enc"
  unfolding encode_map_blocks decode_map_blocks by (rule base58.map_blocks_inverse [symmetric])

lemma encode_total: "\<exists>enc. encode data = Some enc"
proof -
  have "encode_block b \<noteq> None" if "b \<in> set (full_blocks 8 data)" for b
  proof -
    have "length b = 8" using that blocks_split(2) [of 8 data] by simp
    then show ?thesis using encode_block_eq [of b] by (cases "b = []") auto
  qed
  then have "those (map encode_block (full_blocks 8 data)) \<noteq> None" by (rule those_map_total)
  moreover have "encode_block (last_block 8 data) \<noteq> None" if "0 < length data mod 8"
    using that blocks_split(3) [of 8 data] encode_block_eq [of "last_block 8 data"] by (cases "last_block 8 data = []") auto
  ultimately show ?thesis unfolding encode_map_blocks map_blocks_def by auto
qed


text \<open>C6: Base58 encoding succeeds on every byte string, and decoding accepts exactly the encodings: a
  text decodes to some data if and only if it is the encoding of that data.\<close>

theorem base58_bijective:
  "(decode enc = Some data \<longleftrightarrow> encode data = Some enc) \<and> (\<exists>enc. encode data = Some enc)"
  using decode_iff_encode encode_total by blast

lemma encode_first_block:
  assumes "length b = 8" "encode (b @ xs) = Some enc"
  shows "\<exists>e rest. encode_block b = Some e \<and> enc = e @ rest"
  using assms by (auto simp: encode_map_blocks map_blocks_def full_blocks_append bind_eq_Some_conv split: option.splits)

lemma encode_length:
  assumes "encode data = Some enc"
  shows "length enc = 11 * (length data div 8) + encoded_block_sizes ! (length data mod 8)"
proof -
  obtain ys y where ys: "list_all2 (\<lambda>x y. encode_block x = Some y) (full_blocks 8 data) ys"
    and y: "(if 0 < length data mod 8 then encode_block (last_block 8 data) else Some []) = Some y" and e: "enc = concat ys @ y"
    using assms by (auto simp: encode_map_blocks map_blocks_def bind_eq_Some_conv those_map_iff)
  have size: "length b' = encoded_block_sizes ! length b" if "encode_block b = Some b'" "b \<noteq> []" "length b \<le> 8" for b b'
    using encode_block_eq [OF that(2,3)] that(1) by auto
  have "length b = 11" if b: "b \<in> set ys" for b
  proof -
    obtain x where x: "x \<in> set (full_blocks 8 data)" "encode_block x = Some b"
      using ys b that nth_mem unfolding list_all2_conv_all_nth in_set_conv_nth [of b] by metis
    then have "length x = 8" using blocks_split(2) [of 8 data] by simp
    then show ?thesis using size [OF x(2)] by (cases x) (auto simp: encoded_block_sizes_def)
  qed
  then have "length (concat ys) = 11 * length ys" by (induction ys) auto
  moreover have "length ys = length data div 8" using list_all2_lengthD [OF ys] by (simp add: full_blocks_def)
  moreover have "length y = encoded_block_sizes ! (length data mod 8)"
    using y size [of "last_block 8 data" y] blocks_split(3) [of 8 data] length_greater_0_conv [of "last_block 8 data"]
    by (cases "0 < length data mod 8") (simp_all add: encoded_block_sizes_def less_imp_le_nat del: length_greater_0_conv)
  ultimately show ?thesis using e by simp
qed

subsection \<open>Addresses\<close>

lemma checksum_length: "length (take addr_checksum_size (cn_fast_hash buf)) = 4"
  by (simp add: addr_checksum_size_def cn_fast_hash_length)

lemma decode_addr_encode:
  assumes "encode_addr tag data = Some addr"
  shows "decode_addr addr = Some (tag, data)"
proof -
  let ?buf = "get_varint_data tag @ data" and ?sum = "take addr_checksum_size (cn_fast_hash (get_varint_data tag @ data))"
  have "decode addr = Some (?buf @ ?sum)"
    using assms by (simp add: encode_addr_def Let_def decode_iff_encode)
  moreover have "length (?buf @ ?sum) = length ?buf + 4" "addr_checksum_size = 4"
    using checksum_length [of ?buf] by (simp_all add: addr_checksum_size_def)
  moreover have "0 < length (get_varint_data tag)" by (simp add: get_varint_data_def)
  moreover have "read_varint ?buf = (int (length (get_varint_data tag)), tag, data)"
    by (simp add: get_varint_data_def read_write_varint)
  ultimately show ?thesis by (simp add: decode_addr_def Let_def)
qed

lemma encode_decode_addr:
  assumes "decode_addr addr = Some (tag, data)" "data \<noteq> []"
  shows "encode_addr tag data = Some addr"
proof -
  obtain ad where ad: "decode addr = Some ad" "4 < length ad"
    using assms(1) by (auto simp: decode_addr_def addr_checksum_size_def split: option.splits if_splits)
  define buf where "buf = take (length ad - 4) ad"
  obtain n rest where n: "read_varint buf = (n, tag, rest)" "0 < n" "drop (nat n) buf = data"
    and sum: "take 4 (cn_fast_hash buf) = drop (length ad - 4) ad"
    using assms(1) ad
    by (auto simp: decode_addr_def addr_checksum_size_def Let_def buf_def split: if_splits prod.splits)
  have count: "nat n = length buf - length rest" using read_varint_count [OF n(1)] n(2) by simp
  have "buf = write_varint tag @ rest \<or> rest = []"
    using read_varint_loop_sound [of 64 buf 0 0 0 n tag rest] n(1,2)
    by (auto simp: read_varint_def read_varint_bits_def)
  then have "buf = write_varint tag @ rest" using count n(3) assms(2) by auto
  then have "buf = write_varint tag @ rest \<and> nat n = length (write_varint tag)" using count by simp
  then have "buf = write_varint tag @ data" using n(3) by simp
  moreover have "ad = buf @ take 4 (cn_fast_hash buf)" unfolding sum by (simp add: buf_def)
  ultimately show ?thesis
    using ad(1) by (simp add: encode_addr_def get_varint_data_def Let_def addr_checksum_size_def decode_iff_encode)
qed

text \<open>An address can be written for every tag and payload, and with a non-empty payload a text reads as
  that tag and payload exactly if it is the address written for them: reading inverts writing, and no
  address has a second spelling.\<close>

lemma addr_exact:
  assumes "data \<noteq> []"
  shows "(decode_addr addr = Some (tag, data) \<longleftrightarrow> encode_addr tag data = Some addr) \<and>
    (\<exists>addr. encode_addr tag data = Some addr)"
proof -
  have "decode_addr addr = Some (tag, data) \<longleftrightarrow> encode_addr tag data = Some addr"
    using encode_decode_addr [OF _ assms] decode_addr_encode by blast
  moreover have "\<exists>addr. encode_addr tag data = Some addr"
    unfolding encode_addr_def Let_def by (rule encode_total)
  ultimately show ?thesis by simp
qed

lemma addr_exact_example:
  "(decode_addr (the (encode_addr 18 [1, 2, 3])) = Some (18, [1, 2, 3]) \<longleftrightarrow>
      encode_addr 18 [1, 2, 3] = Some (the (encode_addr 18 [1, 2, 3]))) \<and>
    (\<exists>addr. encode_addr 18 [1, 2, 3] = Some addr)"
  by (rule addr_exact) simp

end
