(* ===== verification/Hmac_Keccak.thy ===== *)
theory Hmac_Keccak
  imports Keccak
begin

unbundle bit_operations_syntax

section \<open>HMAC over Keccak (\<open>src/crypto/hmac-keccak.c\<close>)\<close>

text \<open>
  The keyed hash built on the streaming context: two contexts that have absorbed the padded key.
  \<open>None\<close> is the abort of the underlying hash. The constants of the file repeat those of the hash.
  Wiping the temporaries has no counterpart in the model.
\<close>

record hmac_keccak_state =
  inner :: KECCAK_CTX
  outer :: KECCAK_CTX

definition key_pad :: "u8 \<Rightarrow> bytes \<Rightarrow> bytes" where
  "key_pad c key = fold (\<lambda>i pad. pad[i := pad ! i XOR key ! i]) [0..<length key] (replicate KECCAK_BLOCKLEN c)"

definition hmac_keccak_init :: "bytes \<Rightarrow> hmac_keccak_state option" where
  "hmac_keccak_init key =
     Option.bind (if KECCAK_BLOCKLEN < length key then keccak key (int HASH_SIZE) else Some key) (\<lambda>key.
     Option.bind (keccak_update (key_pad 0x36 key) keccak_init) (\<lambda>inner.
     Option.bind (keccak_update (key_pad 0x5c key) keccak_init) (\<lambda>outer.
     Some \<lparr>inner = inner, outer = outer\<rparr>)))"

definition hmac_keccak_update :: "bytes \<Rightarrow> hmac_keccak_state \<Rightarrow> hmac_keccak_state option" where
  "hmac_keccak_update data S = map_option (\<lambda>ctx. S\<lparr>inner := ctx\<rparr>) (keccak_update data (inner S))"

definition hmac_keccak_finish :: "hmac_keccak_state \<Rightarrow> (hmac_keccak_state \<times> bytes) option" where
  "hmac_keccak_finish S =
     (let (ctx, ihash) = keccak_finish (inner S); S = S\<lparr>inner := ctx\<rparr>
      in Option.bind (keccak_update ihash (outer S)) (\<lambda>ctx.
         let (ctx, digest) = keccak_finish ctx in Some (S\<lparr>outer := ctx\<rparr>, digest)))"

definition hmac_keccak_hash :: "bytes \<Rightarrow> bytes \<Rightarrow> bytes option" where
  "hmac_keccak_hash key input =
     Option.bind (hmac_keccak_init key) (\<lambda>S.
     Option.bind (hmac_keccak_update input S) (\<lambda>S.
     map_option snd (hmac_keccak_finish S)))"

subsection \<open>The construction of RFC 2104\<close>

definition hmac_spec :: "(bytes \<Rightarrow> bytes) \<Rightarrow> nat \<Rightarrow> bytes \<Rightarrow> bytes \<Rightarrow> bytes" where
  "hmac_spec H B key text =
     (let K = (if B < length key then H key else key); K0 = K @ replicate (B - length K) 0
      in H (map (\<lambda>b. b XOR 0x5c) K0 @ H (map (\<lambda>b. b XOR 0x36) K0 @ text)))"

lemma xor_fold:
  fixes pad :: bytes
  assumes "n \<le> length key" "n \<le> length pad"
  shows "fold (\<lambda>i pad. pad[i := pad ! i XOR key ! i]) [0..<n] pad =
    map2 (XOR) (take n pad) (take n key) @ drop n pad"
  using assms
proof (induction n)
  case (Suc n)
  then have "drop n pad = pad ! n # drop (Suc n) pad" by (simp add: Cons_nth_drop_Suc)
  then show ?case using Suc
    by (simp add: nth_append list_update_append take_Suc_conv_app_nth)
qed simp

lemma key_pad_eq:
  assumes "length key \<le> 136"
  shows "key_pad c key = map (\<lambda>b. b XOR c) (key @ replicate (136 - length key) 0)"
proof (rule nth_equalityI)
  have pad: "key_pad c key = map2 (XOR) (replicate (length key) c) key @ replicate (136 - length key) c"
    using assms by (simp add: key_pad_def KECCAK_BLOCKLEN_def xor_fold)
  then show "length (key_pad c key) = length (map (\<lambda>b. b XOR c) (key @ replicate (136 - length key) 0))" by simp
  show "key_pad c key ! i = map (\<lambda>b. b XOR c) (key @ replicate (136 - length key) 0) ! i"
    if "i < length (key_pad c key)" for i
    using that assms by (auto simp: pad nth_append xor.commute)
qed

lemma update_init: "length x < 2 ^ 64 \<Longrightarrow> \<exists>ctx. keccak_update x keccak_init = Some ctx \<and> holds ctx x"
  using holds_update [OF holds_init, of x] by simp

lemma keccak_32: "keccak m (int HASH_SIZE) = Some (cn_fast_hash m)"
  by (simp add: keccak_rate_136 cn_fast_hash_squeeze HASH_SIZE_def)

lemma finish_hash: "holds ctx m \<Longrightarrow> snd (keccak_finish ctx) = cn_fast_hash m"
  by (simp add: finish_squeeze cn_fast_hash_squeeze)

text \<open>C20: for every key and every text short of the 64-bit length limit the keyed hash returns, and its value
  is the HMAC of RFC 2104 over \<open>cn_fast_hash\<close> with a block length of 136 bytes.\<close>

theorem hmac_keccak_rfc2104:
  assumes "length input + 136 < 2 ^ 64"
  shows "hmac_keccak_hash key input = Some (hmac_spec cn_fast_hash 136 key input)"
proof -
  define K where "K = (if 136 < length key then cn_fast_hash key else key)"
  have K: "length K \<le> 136" by (simp add: K_def cn_fast_hash_length)
  have key: "(if KECCAK_BLOCKLEN < length key then keccak key (int HASH_SIZE) else Some key) = Some K"
    by (simp add: K_def KECCAK_BLOCKLEN_def keccak_32)
  define pad where "pad c = map (\<lambda>b. b XOR c) (K @ replicate (136 - length K) 0)" for c
  have len: "length (pad c) = 136" for c using K by (simp add: pad_def)
  have key_pad: "key_pad c K = pad c" for c using key_pad_eq [OF K] by (simp add: pad_def)
  have spec: "hmac_spec cn_fast_hash 136 key input = cn_fast_hash (pad 0x5c @ cn_fast_hash (pad 0x36 @ input))"
    unfolding hmac_spec_def Let_def K_def [symmetric] pad_def [symmetric] ..
  obtain ic oc where ctx: "keccak_update (pad 0x36) keccak_init = Some ic" "holds ic (pad 0x36)"
    "keccak_update (pad 0x5c) keccak_init = Some oc" "holds oc (pad 0x5c)"
    using update_init [of "pad 0x36"] update_init [of "pad 0x5c"] len by auto
  obtain ic' where ic': "keccak_update input ic = Some ic'" "holds ic' (pad 0x36 @ input)"
    using holds_update [OF ctx(2), of input] len assms by (auto simp: add.commute)
  let ?ihash = "cn_fast_hash (pad 0x36 @ input)"
  obtain oc' where oc': "keccak_update ?ihash oc = Some oc'" "holds oc' (pad 0x5c @ ?ihash)"
    using holds_update [OF ctx(4), of ?ihash] len by (auto simp: cn_fast_hash_length)
  show ?thesis
    using finish_hash [OF ic'(2)] finish_hash [OF oc'(2)]
    unfolding hmac_keccak_hash_def hmac_keccak_init_def key spec
    by (simp add: key_pad ctx ic' oc' hmac_keccak_update_def hmac_keccak_finish_def case_prod_beta)
qed

theorem hmac_keccak_rfc2104_witness:
  "hmac_keccak_hash (replicate 200 7) [1, 2, 3] = Some (hmac_spec cn_fast_hash 136 (replicate 200 7) [1, 2, 3])"
  by (rule hmac_keccak_rfc2104) simp

end
