(* ===== verification/Tree_Hash.thy ===== *)
theory Tree_Hash
  imports Keccak
begin

unbundle bit_operations_syntax

section \<open>The Merkle tree of hashes (\<open>src/crypto/tree-hash.c\<close>)\<close>

text \<open>
  The Merkle tree over transaction hashes and the branches of merge mining. The arrays \<open>hashes\<close>,
  \<open>ints\<close> and \<open>branch\<close> are lists of 32-byte hashes, \<open>count\<close> is the length of \<open>hashes\<close> and \<open>*depth\<close>
  that of \<open>branch\<close>. \<open>None\<close> stands for a failed assertion or a returned \<open>false\<close>. The bound that
  \<open>tree_hash_cnt\<close> asserts keeps every \<open>size_t\<close> far below its limit, so counts and indices are
  natural numbers; the path keeps its 32 bits, so a verification is meaningful up to depth 32, beyond
  which the shift of the path is undefined in C.
\<close>

subsection \<open>The root\<close>

function pow_loop :: "nat \<Rightarrow> nat \<Rightarrow> nat" where
  "pow_loop pow count = (if 0 < pow \<and> pow < count then pow_loop (2 * pow) count else pow)"
  by pat_completeness auto
termination
  by (relation "measure (\<lambda>(pow, count). count - pow)") auto

declare pow_loop.simps [simp del]

definition tree_hash_cnt :: "nat \<Rightarrow> nat option" where
  "tree_hash_cnt count = (if count < 3 \<or> 0x10000000 < count then None else Some (pow_loop 2 count div 2))"

text \<open>The pairs \<open>(i, j)\<close> of a loop \<open>for (i = s, j = s; j < cnt; i += 2, ++j)\<close>.\<close>

definition pair_indices :: "nat \<Rightarrow> nat \<Rightarrow> (nat \<times> nat) list" where
  "pair_indices s cnt = map (\<lambda>k. (s + 2 * k, s + k)) [0..<cnt - s]"

text \<open>
  The body of such a loop; \<open>rd ints i\<close> is the hash read at \<open>i\<close>, from \<open>hashes\<close> in the first loop and
  from \<open>ints\<close>, which is overwritten meanwhile, in the later ones.
\<close>

definition hash_step :: "(bytes list \<Rightarrow> nat \<Rightarrow> bytes) \<Rightarrow> nat \<times> nat \<Rightarrow> bytes list \<Rightarrow> bytes list" where
  "hash_step rd = (\<lambda>(i, j) ints. ints[j := cn_fast_hash (rd ints i @ rd ints (i + 1))])"

function tree_levels :: "nat \<Rightarrow> bytes list \<Rightarrow> bytes list" where
  "tree_levels cnt ints =
     (if 2 < cnt then let cnt = cnt div 2 in tree_levels cnt (fold (hash_step (!)) (pair_indices 0 cnt) ints)
      else ints)"
  by pat_completeness auto
termination
  by (relation "measure fst") auto

declare tree_levels.simps [simp del]

definition tree_hash :: "bytes list \<Rightarrow> bytes option" where
  "tree_hash hashes =
     (let count = length hashes
      in if count = 0 then None
         else if count = 1 then Some (hashes ! 0)
         else if count = 2 then Some (cn_fast_hash (hashes ! 0 @ hashes ! 1))
         else case tree_hash_cnt count of None \<Rightarrow> None | Some cnt \<Rightarrow>
           let s = 2 * cnt - count;
               ints = take s hashes @ replicate (cnt - s) (replicate HASH_SIZE 0);
               ints = fold (hash_step (\<lambda>_. (!) hashes)) (pair_indices s cnt) ints
           in if s + 2 * (cnt - s) \<noteq> count then None
              else let ints = tree_levels cnt ints
                   in Some (cn_fast_hash (ints ! 0 @ ints ! 1)))"

subsection \<open>Paths and branches\<close>

definition path_step :: "nat \<times> nat \<Rightarrow> nat \<times> u32 \<Rightarrow> nat \<times> u32" where
  "path_step = (\<lambda>(i, j) (idx, path).
     if idx = i \<or> idx = i + 1 then (j, push_bit 1 path OR (if idx = i then 0 else 1)) else (idx, path))"

function path_levels :: "nat \<Rightarrow> nat \<times> u32 \<Rightarrow> nat \<times> u32" where
  "path_levels cnt w =
     (if 2 < cnt then let cnt = cnt div 2 in path_levels cnt (fold path_step (pair_indices 0 cnt) w) else w)"
  by pat_completeness auto
termination
  by (relation "measure fst") auto

declare path_levels.simps [simp del]

definition tree_path :: "nat \<Rightarrow> nat \<Rightarrow> u32 option" where
  "tree_path count idx =
     (if count = 0 then None
      else if count = 1 then Some 0
      else if count = 2 then Some (if idx = 0 then 0 else 1)
      else case tree_hash_cnt count of None \<Rightarrow> None | Some cnt \<Rightarrow>
        let s = 2 * cnt - count;
            w = fold path_step (pair_indices s cnt) (idx, 0)
        in if s + 2 * (cnt - s) \<noteq> count then None
           else let w = path_levels cnt w in Some (snd (path_step (0, 0) w)))"

definition branch_step ::
  "(bytes list \<Rightarrow> nat \<Rightarrow> bytes) \<Rightarrow> nat \<times> nat \<Rightarrow> bytes list \<times> nat \<times> bytes list \<times> u32
   \<Rightarrow> bytes list \<times> nat \<times> bytes list \<times> u32" where
  "branch_step rd = (\<lambda>(i, j) (ints, idx, branch, path).
     (hash_step rd (i, j) ints,
      if idx = i \<or> idx = i + 1
      then (j, branch @ [rd ints (if idx = i then i + 1 else i)], push_bit 1 path OR (if idx = i then 0 else 1))
      else (idx, branch, path)))"

function branch_levels ::
  "nat \<Rightarrow> bytes list \<times> nat \<times> bytes list \<times> u32 \<Rightarrow> bytes list \<times> nat \<times> bytes list \<times> u32" where
  "branch_levels cnt w =
     (if 2 < cnt
      then let cnt = cnt div 2 in branch_levels cnt (fold (branch_step (!)) (pair_indices 0 cnt) w)
      else w)"
  by pat_completeness auto
termination
  by (relation "measure fst") auto

declare branch_levels.simps [simp del]

definition tree_branch :: "bytes list \<Rightarrow> bytes \<Rightarrow> (bytes list \<times> u32) option" where
  "tree_branch hashes hash =
     (let count = length hashes; idx = length (takeWhile (\<lambda>h. h \<noteq> hash) hashes)
      in if count = 0 \<or> idx = count then None
         else if count = 1 then Some ([], 0)
         else if count = 2 then Some ([hashes ! (if idx = 0 then 1 else 0)], if idx = 0 then 0 else 1)
         else case tree_hash_cnt count of None \<Rightarrow> None | Some cnt \<Rightarrow>
           let s = 2 * cnt - count;
               ints = take s hashes @ replicate (cnt - s) (replicate HASH_SIZE 0);
               w = fold (branch_step (\<lambda>_. (!) hashes)) (pair_indices s cnt) (ints, idx, [], 0)
           in if s + 2 * (cnt - s) \<noteq> count then None
              else let (ints, idx, branch, path) = branch_levels cnt w
                   in if idx = 0 \<or> idx = 1
                      then Some (branch @ [ints ! (if idx = 0 then 1 else 0)],
                                 push_bit 1 path OR (if idx = 0 then 0 else 1))
                      else Some (branch, path))"

definition branch_buffer :: "bytes list \<Rightarrow> nat \<Rightarrow> u32 \<Rightarrow> nat \<Rightarrow> bytes \<Rightarrow> bytes" where
  "branch_buffer branch depth path d partial =
     (if drop_bit (depth - d - 1) path AND 1 \<noteq> 0 then branch ! d @ partial else partial @ branch ! d)"

definition branch_partial :: "bytes \<Rightarrow> bytes list \<Rightarrow> nat \<Rightarrow> u32 \<Rightarrow> nat \<Rightarrow> bytes" where
  "branch_partial hash branch depth path n =
     fold (\<lambda>d partial. cn_fast_hash (branch_buffer branch depth path d partial)) [0..<n] hash"

definition tree_branch_hash :: "bytes \<Rightarrow> bytes list \<Rightarrow> nat \<Rightarrow> u32 \<Rightarrow> bytes" where
  "tree_branch_hash hash branch depth path = branch_partial hash branch depth path depth"

definition is_branch_in_tree :: "bytes \<Rightarrow> bytes \<Rightarrow> bytes list \<Rightarrow> nat \<Rightarrow> u32 \<Rightarrow> bool" where
  "is_branch_in_tree hash root branch depth path \<longleftrightarrow> tree_branch_hash hash branch depth path = root"

subsection \<open>The tree that is hashed\<close>

text \<open>A Merkle tree, its root and leaves, and a bound on the depth of its leaves.\<close>

fun pair_up :: "('a \<Rightarrow> 'a \<Rightarrow> 'a) \<Rightarrow> 'a list \<Rightarrow> 'a list" where
  "pair_up f (x # y # zs) = f x y # pair_up f zs"
| "pair_up f zs = zs"

datatype merkle_tree = Leaf bytes | Node merkle_tree merkle_tree

fun merkle_root :: "merkle_tree \<Rightarrow> bytes" where
  "merkle_root (Leaf h) = h"
| "merkle_root (Node l r) = cn_fast_hash (merkle_root l @ merkle_root r)"

fun leaves :: "merkle_tree \<Rightarrow> bytes list" where
  "leaves (Leaf h) = [h]"
| "leaves (Node l r) = leaves l @ leaves r"

fun height_between :: "nat \<Rightarrow> nat \<Rightarrow> merkle_tree \<Rightarrow> bool" where
  "height_between lo hi (Leaf h) \<longleftrightarrow> lo = 0"
| "height_between lo hi (Node l r) \<longleftrightarrow>
     0 < hi \<and> height_between (lo - 1) (hi - 1) l \<and> height_between (lo - 1) (hi - 1) r"

text \<open>Pairing up neighbours until one tree is left.\<close>

fun build :: "nat \<Rightarrow> merkle_tree list \<Rightarrow> merkle_tree" where
  "build 0 ts = hd ts"
| "build (Suc m) ts = build m (pair_up Node ts)"

lemma length_pair_up: "length (pair_up f xs) = (length xs + 1) div 2"
  by (induction f xs rule: pair_up.induct) auto

lemma nth_pair_up: "2 * k + 1 < length xs \<Longrightarrow> pair_up f xs ! k = f (xs ! (2 * k)) (xs ! (2 * k + 1))"
proof (induction f xs arbitrary: k rule: pair_up.induct)
  case (1 f x y zs)
  then show ?case by (cases k) auto
qed auto

lemma map_pair_up:
  assumes "even (length xs)" "\<And>x y. h (f x y) = g (h x) (h y)"
  shows "map h (pair_up f xs) = pair_up g (map h xs)"
  using assms by (induction f xs rule: pair_up.induct) auto

subsection \<open>The size of the first complete level\<close>

text \<open>\<open>tree_hash_cnt\<close> is the greatest power of two below \<open>count\<close>.\<close>

lemma pow_loop_spec:
  assumes "2 ^ m < count"
  shows "\<exists>n\<ge>m. pow_loop (2 ^ m) count = 2 ^ Suc n \<and> 2 ^ n < count \<and> count \<le> 2 ^ Suc n"
  using assms
proof (induction "count - 2 ^ m" arbitrary: m rule: less_induct)
  case less
  show ?case
  proof (cases "2 ^ Suc m < count")
    case True
    have "pow_loop (2 ^ m) count = pow_loop (2 ^ Suc m) count"
      using less.prems by (subst pow_loop.simps) simp
    moreover have "count - 2 ^ Suc m < count - 2 ^ m" using less.prems by (intro diff_less_mono2) auto
    ultimately show ?thesis using less.hyps [of "Suc m"] True Suc_leD by (metis)
  next
    case False
    then have "pow_loop (2 ^ Suc m) count = 2 ^ Suc m" by (subst pow_loop.simps) simp
    then have "pow_loop (2 ^ m) count = 2 ^ Suc m"
      using less.prems by (subst pow_loop.simps) simp
    then show ?thesis using False less.prems by auto
  qed
qed

lemma tree_hash_cnt_spec:
  assumes "3 \<le> count" "count \<le> 2 ^ 28"
  obtains m where "tree_hash_cnt count = Some (2 ^ Suc m)" "2 ^ Suc m < count" "count \<le> 2 ^ Suc (Suc m)" "m < 27"
proof -
  obtain n where n: "1 \<le> n" "pow_loop (2 ^ 1) count = 2 ^ Suc n" "2 ^ n < count" "count \<le> 2 ^ Suc n"
    using pow_loop_spec [of 1 count] assms by auto
  have "(2::nat) ^ n < 2 ^ 28" using n(3) assms(2) by linarith
  then have "n < 28" by (simp only: power_strict_increasing_iff one_less_numeral_iff semiring_norm)
  then show ?thesis using n assms that [of "n - 1"] by (simp add: tree_hash_cnt_def)
qed

subsection \<open>One level of the loops\<close>

lemma pair_indices_Suc: "pair_indices s (s + Suc n) = pair_indices s (s + n) @ [(s + 2 * n, s + n)]"
  by (simp add: pair_indices_def)

lemma pair_indices_0: "pair_indices s s = []"
  by (simp add: pair_indices_def)

text \<open>Overwriting an entry does not change what is read at a later index.\<close>

definition reads_ahead :: "(bytes list \<Rightarrow> nat \<Rightarrow> bytes) \<Rightarrow> bool" where
  "reads_ahead rd \<longleftrightarrow> (\<forall>ints i j v. j < i \<longrightarrow> rd (ints[j := v]) i = rd ints i)"

lemma reads_ahead_simps [simp]: "reads_ahead (!)" "reads_ahead (\<lambda>_. (!) hashes)"
  by (simp_all add: reads_ahead_def)

lemma hash_step_apply: "hash_step rd (i, j) ints = ints[j := cn_fast_hash (rd ints i @ rd ints (i + 1))]"
  by (simp add: hash_step_def)

lemma hash_level:
  assumes "reads_ahead rd" "s + n \<le> length ints"
  defines "ints' \<equiv> fold (hash_step rd) (pair_indices s (s + n)) ints"
  shows "length ints' = length ints \<and>
    (\<forall>m < length ints. ints' ! m = (if s \<le> m \<and> m < s + n
       then cn_fast_hash (rd ints (s + 2 * (m - s)) @ rd ints (s + 2 * (m - s) + 1)) else ints ! m)) \<and>
    (\<forall>i \<ge> s + 2 * n. rd ints' i = rd ints i)"
  using assms(2) unfolding ints'_def
proof (induction n)
  case (Suc n)
  define xs where "xs = fold (hash_step rd) (pair_indices s (s + n)) ints"
  have IH: "length xs = length ints"
    "\<forall>m < length ints. xs ! m = (if s \<le> m \<and> m < s + n
       then cn_fast_hash (rd ints (s + 2 * (m - s)) @ rd ints (s + 2 * (m - s) + 1)) else ints ! m)"
    "\<forall>i \<ge> s + 2 * n. rd xs i = rd ints i"
    using Suc xs_def by auto
  have step: "fold (hash_step rd) (pair_indices s (s + Suc n)) ints =
      xs[s + n := cn_fast_hash (rd ints (s + 2 * n) @ rd ints (s + 2 * n + 1))]"
    unfolding pair_indices_Suc using IH(3) by (simp add: xs_def [symmetric] hash_step_apply)
  show ?case unfolding step
    using IH assms(1) Suc.prems by (auto simp: nth_list_update reads_ahead_def)
qed (auto simp: pair_indices_0)


lemma branch_level:
  assumes "reads_ahead rd" "s + n \<le> length ints"
  shows "fold (branch_step rd) (pair_indices s (s + n)) (ints, idx, branch, path) =
    (fold (hash_step rd) (pair_indices s (s + n)) ints,
     if s \<le> idx \<and> idx < s + 2 * n
     then (s + (idx - s) div 2, branch @ [rd ints (if even (idx - s) then idx + 1 else idx - 1)],
           push_bit 1 path OR (if even (idx - s) then 0 else 1))
     else (idx, branch, path))"
  using assms(2)
proof (induction n)
  case (Suc n)
  have rd: "rd (fold (hash_step rd) (pair_indices s (s + n)) ints) i = rd ints i" if "s + 2 * n \<le> i" for i
    using hash_level [OF assms(1), of s n ints] Suc.prems that by auto
  consider "s \<le> idx" "idx < s + 2 * n" | "idx = s + 2 * n" | "idx = s + 2 * n + 1" | "idx < s \<or> s + 2 * n + 1 < idx"
    by linarith
  then show ?case
    unfolding pair_indices_Suc using Suc
    by cases (auto simp: branch_step_def rd)
qed (auto simp: pair_indices_0)

lemma path_level:
  "fold path_step (pair_indices s (s + n)) (idx, path) =
    (if s \<le> idx \<and> idx < s + 2 * n
     then (s + (idx - s) div 2, push_bit 1 path OR (if even (idx - s) then 0 else 1)) else (idx, path))"
proof (induction n)
  case (Suc n)
  consider "s \<le> idx" "idx < s + 2 * n" | "idx = s + 2 * n" | "idx = s + 2 * n + 1" | "idx < s \<or> s + 2 * n + 1 < idx"
    by linarith
  then show ?case
    unfolding pair_indices_Suc using Suc
    by cases (auto simp: path_step_def)
qed (auto simp: pair_indices_0)

subsection \<open>Extending a branch by one level\<close>

lemma branch_partial_Suc:
  "branch_partial h br depth path (Suc n) =
     cn_fast_hash (branch_buffer br depth path n (branch_partial h br depth path n))"
  by (simp add: branch_partial_def)

lemma bit_and_1: "w AND 1 \<noteq> 0 \<longleftrightarrow> bit w 0" for w :: u32
  by (simp add: and_one_eq bit_0 flip: odd_iff_mod_2_eq_one)

lemma tree_branch_hash_snoc:
  assumes "length branch < 32"
  shows "tree_branch_hash h (branch @ [b]) (Suc (length branch)) (push_bit 1 path OR (if c then 0 else 1)) =
    (let v = tree_branch_hash h branch (length branch) path
     in cn_fast_hash (if c then v @ b else b @ v))"
proof -
  define p where "p = push_bit 1 path OR (if c then 0 else 1)"
  let ?n = "length branch"
  have bits: "bit p 0 \<longleftrightarrow> \<not> c" "k < 31 \<Longrightarrow> bit p (Suc k) = bit path k" for k
    unfolding p_def bit_or_iff bit_push_bit_iff by (auto simp: possible_bit_def)
  have buf: "branch_buffer (branch @ [b]) (Suc ?n) p d v = branch_buffer branch ?n path d v" if "d < ?n" for d v
    using that assms bits(2) [of "?n - Suc d"]
    by (simp add: branch_buffer_def bit_and_1 bit_drop_bit_eq nth_append Suc_diff_Suc)
  have "branch_partial h (branch @ [b]) (Suc ?n) p m = branch_partial h branch ?n path m" if "m \<le> ?n" for m
    unfolding branch_partial_def using that by (intro fold_cong) (auto simp: buf)
  then have "tree_branch_hash h (branch @ [b]) (Suc ?n) p =
      cn_fast_hash (branch_buffer (branch @ [b]) (Suc ?n) p ?n (tree_branch_hash h branch ?n path))"
    by (simp add: tree_branch_hash_def branch_partial_Suc)
  then show ?thesis
    using bits(1) unfolding p_def [symmetric]
    by (simp add: branch_buffer_def bit_and_1 Let_def bit_drop_bit_eq nth_append)
qed

subsection \<open>All levels\<close>

lemma level_nodes:
  assumes "length ts = 2 * n" "2 * n \<le> length ints" "map merkle_root ts = take (2 * n) ints"
  shows "map merkle_root (pair_up Node ts) = take n (fold (hash_step (!)) (pair_indices 0 n) ints)"
proof (rule nth_equalityI)
  have len: "length (fold (hash_step (!)) (pair_indices 0 n) ints) = length ints"
    using hash_level [of "(!)" 0 n ints] assms(2) by simp
  then show "length (map merkle_root (pair_up Node ts)) = length (take n (fold (hash_step (!)) (pair_indices 0 n) ints))"
    using assms by (simp add: length_pair_up)
  fix k assume "k < length (map merkle_root (pair_up Node ts))"
  then have k: "k < n" using assms by (simp add: length_pair_up)
  have root: "merkle_root (ts ! i) = ints ! i" if "i < 2 * n" for i
    using that assms by (metis nth_map nth_take)
  show "map merkle_root (pair_up Node ts) ! k = take n (fold (hash_step (!)) (pair_indices 0 n) ints) ! k"
    using hash_level [of "(!)" 0 n ints] k assms(1,2)
    by (simp add: length_pair_up nth_pair_up root)
qed

lemma levels_2:
  "tree_levels 2 x = x" "branch_levels 2 y = y" "path_levels 2 z = z"
  by (subst tree_levels.simps branch_levels.simps path_levels.simps, simp)+

lemma levels_double:
  "tree_levels (2 * 2 ^ Suc m) x = tree_levels (2 ^ Suc m) (fold (hash_step (!)) (pair_indices 0 (2 ^ Suc m)) x)"
  "branch_levels (2 * 2 ^ Suc m) y = branch_levels (2 ^ Suc m) (fold (branch_step (!)) (pair_indices 0 (2 ^ Suc m)) y)"
  "path_levels (2 * 2 ^ Suc m) z = path_levels (2 ^ Suc m) (fold path_step (pair_indices 0 (2 ^ Suc m)) z)"
proof -
  have "(1::nat) \<le> 2 ^ m" by simp
  then have big: "2 < 2 * (2::nat) ^ Suc m" unfolding power_Suc by linarith
  have half: "2 * (2::nat) ^ Suc m div 2 = 2 ^ Suc m" by simp
  show "tree_levels (2 * 2 ^ Suc m) x = tree_levels (2 ^ Suc m) (fold (hash_step (!)) (pair_indices 0 (2 ^ Suc m)) x)"
    using big by (subst tree_levels.simps) (simp only: if_True Let_def half)
  show "branch_levels (2 * 2 ^ Suc m) y = branch_levels (2 ^ Suc m) (fold (branch_step (!)) (pair_indices 0 (2 ^ Suc m)) y)"
    using big by (subst branch_levels.simps) (simp only: if_True Let_def half)
  show "path_levels (2 * 2 ^ Suc m) z = path_levels (2 ^ Suc m) (fold path_step (pair_indices 0 (2 ^ Suc m)) z)"
    using big by (subst path_levels.simps) (simp only: if_True Let_def half)
qed

lemma tree_levels_root:
  assumes "length ts = 2 ^ Suc m" "2 ^ Suc m \<le> length ints" "map merkle_root ts = take (2 ^ Suc m) ints"
  shows "cn_fast_hash (tree_levels (2 ^ Suc m) ints ! 0 @ tree_levels (2 ^ Suc m) ints ! 1) =
    merkle_root (build (Suc m) ts)"
  using assms
proof (induction m arbitrary: ts ints)
  case 0
  then obtain t u where ts: "ts = [t, u]" by (auto simp: length_Suc_conv eval_nat_numeral)
  then have "merkle_root t = ints ! 0" "merkle_root u = ints ! 1"
    using arg_cong [OF "0.prems"(3), of "\<lambda>l. l ! 0"] arg_cong [OF "0.prems"(3), of "\<lambda>l. l ! 1"] "0.prems"(2)
    by auto
  then show ?case by (simp add: ts levels_2)
next
  case (Suc m)
  let ?ints = "fold (hash_step (!)) (pair_indices 0 (2 ^ Suc m)) ints"
  have "tree_levels (2 ^ Suc (Suc m)) ints = tree_levels (2 ^ Suc m) ?ints"
    using levels_double(1) [of m ints] by simp
  moreover have "length ?ints = length ints"
    using hash_level [of "(!)" 0 "2 ^ Suc m" ints] Suc.prems(2) by simp
  ultimately show ?case
    using Suc.IH [of "pair_up Node ts" ?ints] Suc.prems level_nodes [of ts "2 ^ Suc m" ints]
    by (simp add: length_pair_up)
qed

lemma branch_level_node:
  assumes rd: "reads_ahead rd" and n: "s + n \<le> length ints" and idx: "s \<le> idx" "idx < s + 2 * n"
    and v: "tree_branch_hash h branch (length branch) path = rd ints idx" "length branch < 32"
  obtains ints' idx' branch' path' where
    "fold (branch_step rd) (pair_indices s (s + n)) (ints, idx, branch, path) = (ints', idx', branch', path')"
    "fold (hash_step rd) (pair_indices s (s + n)) ints = ints'"
    "fold path_step (pair_indices s (s + n)) (idx, path) = (idx', path')"
    "length ints' = length ints" "s \<le> idx'" "idx' < s + n" "length branch' = Suc (length branch)"
    "tree_branch_hash h branch' (length branch') path' = ints' ! idx'"
proof -
  let ?ints = "fold (hash_step rd) (pair_indices s (s + n)) ints"
  let ?idx = "s + (idx - s) div 2"
  have "?idx < s + n" using idx by auto
  moreover from this have "?ints ! ?idx = cn_fast_hash (rd ints (s + 2 * ((idx - s) div 2)) @ rd ints (s + 2 * ((idx - s) div 2) + 1))"
    using hash_level [OF rd n] n by auto
  moreover have "rd ints (s + 2 * ((idx - s) div 2)) @ rd ints (s + 2 * ((idx - s) div 2) + 1) =
      (if even (idx - s) then rd ints idx @ rd ints (idx + 1) else rd ints (idx - 1) @ rd ints idx)"
  proof -
    obtain k where "idx = s + k" using le_Suc_ex [OF idx(1)] by blast
    then show ?thesis by (cases "even k") (auto elim!: oddE)
  qed
  ultimately show ?thesis
    using hash_level [OF rd n] idx tree_branch_hash_snoc [OF v(2), of h _ path "even (idx - s)"] v(1)
    by (intro that [OF branch_level [OF rd n, of idx branch path, unfolded if_P [OF conjI [OF idx]]] refl])
      (auto simp: path_level Let_def)
qed


lemma levels_node:
  assumes "2 ^ Suc m \<le> length ints" "idx < 2 ^ Suc m"
    "tree_branch_hash h branch (length branch) path = ints ! idx" "length branch + m \<le> 32"
  shows "\<exists>idx' branch' path'.
    branch_levels (2 ^ Suc m) (ints, idx, branch, path) = (tree_levels (2 ^ Suc m) ints, idx', branch', path') \<and>
    path_levels (2 ^ Suc m) (idx, path) = (idx', path') \<and> idx' < 2 \<and> length branch' = length branch + m \<and>
    tree_branch_hash h branch' (length branch') path' = tree_levels (2 ^ Suc m) ints ! idx'"
  using assms
proof (induction m arbitrary: ints idx branch path)
  case 0
  then show ?case by (simp add: levels_2)
next
  case (Suc m)
  obtain ints' idx' branch' path' where
    "fold (branch_step (!)) (pair_indices 0 (2 ^ Suc m)) (ints, idx, branch, path) = (ints', idx', branch', path')"
    "fold (hash_step (!)) (pair_indices 0 (2 ^ Suc m)) ints = ints'"
    "fold path_step (pair_indices 0 (2 ^ Suc m)) (idx, path) = (idx', path')"
    "length ints' = length ints" "idx' < 2 ^ Suc m" "length branch' = Suc (length branch)"
    "tree_branch_hash h branch' (length branch') path' = ints' ! idx'"
    by (rule branch_level_node [of "(!)" 0 "2 ^ Suc m" ints idx h branch path, unfolded add_0])
       (use Suc.prems in auto)
  then show ?case
    using Suc.IH [of ints' idx' branch' path'] Suc.prems
    unfolding power_Suc [of _ "Suc m"] levels_double by auto
qed



lemma first_level_nodes:
  assumes "s + 2 * n = length hashes" "length ints = s + n" "take s ints = take s hashes"
  shows "map merkle_root (map Leaf (take s hashes) @ pair_up Node (map Leaf (drop s hashes))) =
    fold (hash_step (\<lambda>_. (!) hashes)) (pair_indices s (s + n)) ints" (is "map _ ?ts = ?ints")
proof (rule nth_equalityI)
  have lv: "length ?ints = length ints"
    "\<forall>m < length ints. ?ints ! m = (if s \<le> m \<and> m < s + n
       then cn_fast_hash (hashes ! (s + 2 * (m - s)) @ hashes ! (s + 2 * (m - s) + 1)) else ints ! m)"
    using hash_level [of "\<lambda>_. (!) hashes" s n ints] assms by auto
  have len: "length (map merkle_root ?ts) = s + n" by (simp add: length_pair_up flip: assms(1))
  show "length (map merkle_root ?ts) = length ?ints" using len lv assms by simp
  fix k assume "k < length (map merkle_root ?ts)"
  then have k: "k < s + n" using len by simp
  show "map merkle_root ?ts ! k = ?ints ! k"
  proof (cases "k < s")
    case True
    then have "ints ! k = hashes ! k" using assms(3) by (metis nth_take)
    then show ?thesis using True lv assms by (simp add: nth_append)
  next
    case False
    then obtain j where "k = s + j" "j < n" using k le_Suc_ex [of s k] by auto
    then show ?thesis using lv assms by (simp add: nth_append nth_pair_up length_pair_up min_def)
  qed
qed

lemma leaves_pair_up: "concat (map leaves (pair_up Node ts)) = concat (map leaves ts)"
  by (induction "Node" ts rule: pair_up.induct) auto

lemma leaves_build: "length ts = 2 ^ m \<Longrightarrow> leaves (build m ts) = concat (map leaves ts)"
proof (induction m arbitrary: ts)
  case 0
  then show ?case by (cases ts) auto
qed (simp add: length_pair_up leaves_pair_up)

lemma height_pair_up:
  assumes "even (length ts)" "\<forall>t \<in> set ts. height_between lo hi t"
  shows "\<forall>t \<in> set (pair_up Node ts). height_between (Suc lo) (Suc hi) t"
  using assms by (induction "Node" ts rule: pair_up.induct) auto

lemma height_build:
  assumes "length ts = 2 ^ m" "\<forall>t \<in> set ts. height_between lo hi t"
  shows "height_between (lo + m) (hi + m) (build m ts)"
  using assms
proof (induction m arbitrary: ts lo hi)
  case 0
  then show ?case by (cases ts) auto
next
  case (Suc m)
  then show ?case
    using Suc.IH [of "pair_up Node ts" "Suc lo" "Suc hi"] height_pair_up [of ts lo hi]
    by (simp add: length_pair_up)
qed


lemma tree_setup:
  assumes "3 \<le> count" "count \<le> 2 ^ 28"
  obtains m s n where "tree_hash_cnt count = Some (s + n)" "s + n = 2 ^ Suc m" "s + 2 * n = count"
    "2 * (s + n) - count = s" "m < 27"
proof -
  obtain m where m: "tree_hash_cnt count = Some (2 ^ Suc m)" "2 ^ Suc m < count" "count \<le> 2 ^ Suc (Suc m)" "m < 27"
    using assms by (rule tree_hash_cnt_spec)
  then show ?thesis
    by (intro that [of "2 ^ Suc (Suc m) - count" "count - 2 ^ Suc m" m]) auto
qed

lemma hashes_cases:
  obtains "hashes = []" | h where "hashes = [h]" | h g where "hashes = [h, g]" | "3 \<le> length hashes"
  by (cases hashes; cases "tl hashes"; cases "tl (tl hashes)") auto

lemma height_mono:
  "height_between lo hi t \<Longrightarrow> lo' \<le> lo \<Longrightarrow> hi \<le> hi' \<Longrightarrow> height_between lo' hi' t"
proof (induction t arbitrary: lo hi lo' hi')
  case (Node l r)
  then show ?case
    using Node.IH(1) [of "lo - 1" "hi - 1" "lo' - 1" "hi' - 1"]
      Node.IH(2) [of "lo - 1" "hi - 1" "lo' - 1" "hi' - 1"] by auto
qed simp

text \<open>The three functions on three or more hashes, with the sizes of the first level made explicit.\<close>

abbreviation first_ints :: "bytes list \<Rightarrow> nat \<Rightarrow> nat \<Rightarrow> bytes list" where
  "first_ints hashes s n \<equiv> take s hashes @ replicate n (replicate HASH_SIZE 0)"

lemma tree_unfold:
  assumes "tree_hash_cnt count = Some (s + n)" "s + 2 * n = count" "2 * (s + n) - count = s" "3 \<le> count" "length hashes = count"
  shows "tree_hash hashes =
      (let ints = tree_levels (s + n) (fold (hash_step (\<lambda>_. (!) hashes)) (pair_indices s (s + n)) (first_ints hashes s n))
       in Some (cn_fast_hash (ints ! 0 @ ints ! 1)))"
    "tree_path count idx =
      Some (snd (path_step (0, 0) (path_levels (s + n) (fold path_step (pair_indices s (s + n)) (idx, 0)))))"
    "idx = length (takeWhile (\<lambda>h. h \<noteq> hash) hashes) \<Longrightarrow> idx < count \<Longrightarrow>
     tree_branch hashes hash =
      (case branch_levels (s + n)
         (fold (branch_step (\<lambda>_. (!) hashes)) (pair_indices s (s + n)) (first_ints hashes s n, idx, [], 0)) of
       (ints, idx, branch, path) \<Rightarrow>
         if idx = 0 \<or> idx = 1
         then Some (branch @ [ints ! (if idx = 0 then 1 else 0)], push_bit 1 path OR (if idx = 0 then 0 else 1))
         else Some (branch, path))"
  using assms by (auto simp: tree_hash_def tree_path_def tree_branch_def Let_def)

lemma tree_hash_merkle_3:
  assumes "3 \<le> length hashes" "length hashes \<le> 2 ^ 28"
  shows "\<exists>t k. tree_hash hashes = Some (merkle_root t) \<and> leaves t = hashes \<and> height_between k (Suc k) t"
proof -
  obtain m s n where su: "tree_hash_cnt (length hashes) = Some (s + n)" "s + n = 2 ^ Suc m"
    "s + 2 * n = length hashes" "2 * (s + n) - length hashes = s"
    using tree_setup [OF assms] by metis
  let ?ts = "map Leaf (take s hashes) @ pair_up Node (map Leaf (drop s hashes))"
  let ?z = "first_ints hashes s n"
  let ?ints = "fold (hash_step (\<lambda>_. (!) hashes)) (pair_indices s (s + n)) ?z"
  have z: "length ?z = s + n" "take s ?z = take s hashes" using su(3) by auto
  have ts: "map merkle_root ?ts = ?ints" by (rule first_level_nodes [OF su(3) z])
  have ints: "length ?ints = 2 ^ Suc m" using hash_level [of "\<lambda>_. (!) hashes" s n ?z] z su(2) by simp
  have len: "length ?ts = 2 ^ Suc m" using arg_cong [OF ts, of length] ints by (simp only: length_map)
  have "tree_hash hashes = Some (merkle_root (build (Suc m) ?ts))"
    using tree_unfold(1) [OF su(1,3,4) assms(1) refl] tree_levels_root [OF len, of ?ints] ints ts
    unfolding su(2) Let_def by (simp only: take_all order_refl)
  moreover have "leaves (build (Suc m) ?ts) = hashes"
    using leaves_build [OF len] by (simp add: leaves_pair_up comp_def)
  moreover have "\<forall>t \<in> set ?ts. height_between 0 1 t"
  proof -
    have "\<forall>t \<in> set (pair_up Node (map Leaf (drop s hashes))). height_between (Suc 0) (Suc 0) t"
      by (rule height_pair_up) (auto simp flip: su(3))
    then show ?thesis by (auto intro: height_mono)
  qed
  ultimately show ?thesis using height_build [OF len] by (metis One_nat_def add_0 plus_1_eq_Suc)
qed

text \<open>C21: on one to \<open>2 ^ 28\<close> hashes, \<open>tree_hash\<close> succeeds and returns the root of a Merkle tree whose leaves,
  from left to right, are the given hashes and whose leaf depths differ by at most one.\<close>

theorem tree_hash_merkle:
  assumes "hashes \<noteq> []" "length hashes \<le> 2 ^ 28"
  shows "\<exists>t k. tree_hash hashes = Some (merkle_root t) \<and> leaves t = hashes \<and> height_between k (Suc k) t"
proof -
  show ?thesis
  proof (cases hashes rule: hashes_cases)
    case (2 h)
    then show ?thesis by (intro exI [of _ "Leaf h"] exI [of _ 0]) (simp add: tree_hash_def)
  next
    case (3 h g)
    then show ?thesis by (intro exI [of _ "Node (Leaf h) (Leaf g)"] exI [of _ 0]) (simp add: tree_hash_def)
  next
    case 4
    then show ?thesis using assms(2) by (rule tree_hash_merkle_3)
  qed (use assms in simp)
qed

theorem tree_hash_merkle_witness:
  "\<exists>t k. tree_hash [[1], [2], [3]] = Some (merkle_root t) \<and> leaves t = [[1], [2], [3]] \<and> height_between k (Suc k) t"
  by (rule tree_hash_merkle) simp_all

subsection \<open>Branches verify\<close>

lemma index_of_first:
  "h \<in> set hashes \<Longrightarrow> length (takeWhile (\<lambda>g. g \<noteq> h) hashes) < length hashes \<and>
    hashes ! length (takeWhile (\<lambda>g. g \<noteq> h) hashes) = h"
  by (induction hashes) auto

definition branch_ok :: "bytes list \<Rightarrow> bytes \<Rightarrow> bool" where
  "branch_ok hashes h \<longleftrightarrow> (\<exists>branch path root. tree_branch hashes h = Some (branch, path) \<and> tree_hash hashes = Some root \<and>
    is_branch_in_tree h root branch (length branch) path \<and> length branch \<le> 28 \<and>
    tree_path (length hashes) (length (takeWhile (\<lambda>g. g \<noteq> h) hashes)) = Some path)"

lemma first_level_branch:
  assumes su: "s + n = 2 ^ Suc m" "s + 2 * n = length hashes" and idx: "idx < length hashes" "hashes ! idx = h"
  obtains ints idx' branch path where
    "fold (branch_step (\<lambda>_. (!) hashes)) (pair_indices s (s + n)) (first_ints hashes s n, idx, [], 0) =
       (ints, idx', branch, path)"
    "fold (hash_step (\<lambda>_. (!) hashes)) (pair_indices s (s + n)) (first_ints hashes s n) = ints"
    "fold path_step (pair_indices s (s + n)) (idx, 0) = (idx', path)"
    "length ints = 2 ^ Suc m" "idx' < 2 ^ Suc m" "length branch \<le> 1"
    "tree_branch_hash h branch (length branch) path = ints ! idx'"
proof -
  let ?z = "first_ints hashes s n"
  have z: "length ?z = s + n" using su(2) by auto
  have root: "tree_branch_hash h [] 0 0 = h" by (simp add: tree_branch_hash_def branch_partial_def)
  show ?thesis
  proof (cases "idx < s")
    case True
    then have "fold (hash_step (\<lambda>_. (!) hashes)) (pair_indices s (s + n)) ?z ! idx = h"
      using hash_level [of "\<lambda>_. (!) hashes" s n ?z] z idx by (simp add: nth_append)
    moreover have "fold (branch_step (\<lambda>_. (!) hashes)) (pair_indices s (s + n)) (?z, idx, [], 0) =
        (fold (hash_step (\<lambda>_. (!) hashes)) (pair_indices s (s + n)) ?z, idx, [], 0)"
      "fold path_step (pair_indices s (s + n)) (idx, 0) = (idx, 0)"
      using True z by (simp_all add: branch_level path_level)
    ultimately show ?thesis
      using hash_level [of "\<lambda>_. (!) hashes" s n ?z] z True su(1) root by (intro that) auto
  next
    case False
    show ?thesis
      by (rule branch_level_node [of "\<lambda>_. (!) hashes" s n ?z idx h "[]" 0]) 
         (use False z idx root su that in auto)
  qed
qed

lemma branch_ok_3:
  assumes "3 \<le> length hashes" "length hashes \<le> 2 ^ 28" "h \<in> set hashes"
  shows "branch_ok hashes h"
proof -
  obtain m s n where su: "tree_hash_cnt (length hashes) = Some (s + n)" "s + n = 2 ^ Suc m"
    "s + 2 * n = length hashes" "2 * (s + n) - length hashes = s" "m < 27"
    using tree_setup [OF assms(1,2)] by metis
  define idx where "idx = length (takeWhile (\<lambda>g. g \<noteq> h) hashes)"
  have idx: "idx < length hashes" "hashes ! idx = h" using index_of_first [OF assms(3)] by (simp_all add: idx_def)
  obtain ints idx1 br1 p1 where one:
    "fold (branch_step (\<lambda>_. (!) hashes)) (pair_indices s (s + n)) (first_ints hashes s n, idx, [], 0) = (ints, idx1, br1, p1)"
    "fold (hash_step (\<lambda>_. (!) hashes)) (pair_indices s (s + n)) (first_ints hashes s n) = ints"
    "fold path_step (pair_indices s (s + n)) (idx, 0) = (idx1, p1)"
    and ints: "length ints = 2 ^ Suc m" "idx1 < 2 ^ Suc m" "length br1 \<le> 1"
    "tree_branch_hash h br1 (length br1) p1 = ints ! idx1"
    using first_level_branch [OF su(2,3) idx] by metis
  obtain idx2 br2 p2 where two:
    "branch_levels (s + n) (ints, idx1, br1, p1) = (tree_levels (s + n) ints, idx2, br2, p2)"
    "path_levels (s + n) (idx1, p1) = (idx2, p2)" "idx2 < 2" "length br2 = length br1 + m"
    "tree_branch_hash h br2 (length br2) p2 = tree_levels (s + n) ints ! idx2"
    using levels_node [of m ints idx1 h br1 p1] ints su(2,5) by auto
  let ?ints = "tree_levels (s + n) ints"
  have hash: "tree_hash hashes = Some (cn_fast_hash (?ints ! 0 @ ?ints ! 1))"
    using tree_unfold(1) [OF su(1,3,4) assms(1) refl] by (simp add: one Let_def)
  have path: "tree_path (length hashes) idx = Some (push_bit 1 p2 OR (if idx2 = 0 then 0 else 1))"
    using tree_unfold(2) [OF su(1,3,4) assms(1) refl, of idx] two(3)
    unfolding one two by (auto simp: path_step_def)
  have branch: "tree_branch hashes h = Some (br2 @ [?ints ! (if idx2 = 0 then 1 else 0)], push_bit 1 p2 OR (if idx2 = 0 then 0 else 1))"
    using tree_unfold(3) [OF su(1,3,4) assms(1) refl idx_def idx(1)] two(3)
    unfolding one two by auto
  have len: "length br2 \<le> 27" using two(4) ints(3) su(5) by linarith
  then have "length br2 < 32" by linarith
  from tree_branch_hash_snoc [OF this, of h _ p2 "idx2 = 0"] have
    "is_branch_in_tree h (cn_fast_hash (?ints ! 0 @ ?ints ! 1)) (br2 @ [?ints ! (if idx2 = 0 then 1 else 0)]) 
       (Suc (length br2)) (push_bit 1 p2 OR (if idx2 = 0 then 0 else 1))"
    using two(3,5) by (auto simp: is_branch_in_tree_def Let_def less_2_cases_iff)
  then show ?thesis using hash path branch len unfolding branch_ok_def idx_def by auto
qed


lemma branch_okI:
  assumes "h \<in> set hashes" "length hashes \<le> 2 ^ 28"
  shows "branch_ok hashes h"
proof (cases hashes rule: hashes_cases)
  case (2 g)
  then show "branch_ok hashes h"
    using assms by (simp add: branch_ok_def tree_branch_def tree_hash_def tree_path_def is_branch_in_tree_def
        tree_branch_hash_def branch_partial_def)
next
  case (3 g g')
  then show "branch_ok hashes h"
    using assms by (auto simp: branch_ok_def tree_branch_def tree_hash_def tree_path_def is_branch_in_tree_def
        tree_branch_hash_def branch_partial_def branch_buffer_def)
next
  case 4
  then show "branch_ok hashes h" using assms by (intro branch_ok_3)
qed (use assms in simp)

text \<open>C5: for every hash in a list of at most \<open>2 ^ 28\<close> hashes, \<open>tree_branch\<close> returns a branch of at most 28
  siblings that \<open>is_branch_in_tree\<close> accepts against the root, and its path is the one \<open>tree_path\<close>
  computes from the position of the hash alone.\<close>

theorem tree_branch_verifies:
  assumes "h \<in> set hashes" "length hashes \<le> 2 ^ 28"
  shows "\<exists>branch path root. tree_branch hashes h = Some (branch, path) \<and> tree_hash hashes = Some root \<and>
    is_branch_in_tree h root branch (length branch) path \<and> length branch \<le> 28 \<and>
    tree_path (length hashes) (length (takeWhile (\<lambda>g. g \<noteq> h) hashes)) = Some path"
  using branch_okI [OF assms] unfolding branch_ok_def .

theorem tree_branch_verifies_witness:
  "\<exists>branch path root. tree_branch [[1], [2], [3]] [3] = Some (branch, path) \<and> tree_hash [[1], [2], [3]] = Some root \<and>
    is_branch_in_tree [3] root branch (length branch) path \<and> length branch \<le> 28 \<and>
    tree_path (length [[1], [2], [3 :: u8]]) (length (takeWhile (\<lambda>g. g \<noteq> [3]) [[1], [2], [3 :: u8]])) = Some path"
  by (rule tree_branch_verifies) simp_all

subsection \<open>Branches cannot be forged without a collision\<close>

lemma branch_sound:
  assumes "length branch = depth" "length branch' = depth" "n \<le> depth"
    "\<forall>b \<in> set (h # branch). length b = 32" "\<forall>b \<in> set (h' # branch'). length b = 32"
    "branch_partial h branch depth path n = branch_partial h' branch' depth path n"
  shows "h = h' \<and> take n branch = take n branch' \<or>
    (\<exists>d<n. let x = branch_buffer branch depth path d (branch_partial h branch depth path d);
               y = branch_buffer branch' depth path d (branch_partial h' branch' depth path d)
           in x \<noteq> y \<and> cn_fast_hash x = cn_fast_hash y)"
  using assms
proof (induction n)
  case 0
  then show ?case by (simp add: branch_partial_def)
next
  case (Suc n)
  let ?v = "branch_partial h branch depth path n" and ?v' = "branch_partial h' branch' depth path n"
  have len: "length (branch_partial h b depth path n) = 32" if "length h = 32" for h b
    using that by (cases n) (simp_all add: branch_partial_def cn_fast_hash_length)
  show ?case
  proof (cases "branch_buffer branch depth path n ?v = branch_buffer branch' depth path n ?v'")
    case True
    then have "?v = ?v'" "branch ! n = branch' ! n"
      using Suc.prems len [of h branch] len [of h' branch'] by (auto simp: branch_buffer_def split: if_splits)
    then show ?thesis using Suc by (auto simp: take_Suc_conv_app_nth less_Suc_eq)
  next
    case False
    then show ?thesis using Suc.prems(6) by (auto simp: branch_partial_Suc Let_def)
  qed
qed

text \<open>All hashes of a tree and of its branches have their size.\<close>

definition sized :: "bytes list \<Rightarrow> bool" where
  "sized bs \<longleftrightarrow> (\<forall>b \<in> set bs. length b = HASH_SIZE)"

lemma hash_step_sized: "sized ints \<Longrightarrow> sized (hash_step rd ij ints) \<and> length (hash_step rd ij ints) = length ints"
  by (cases ij) (auto simp: sized_def hash_step_def cn_fast_hash_length HASH_SIZE_def dest!: set_update_subset_insert [THEN subsetD])

lemma branch_fold_sized:
  assumes "\<forall>(i, j) \<in> set ps. \<forall>ints. sized ints \<longrightarrow> length ints = n \<longrightarrow> length (rd ints i) = HASH_SIZE \<and> length (rd ints (i + 1)) = HASH_SIZE"
    and "fold (branch_step rd) ps (ints, idx, branch, path) = (ints', idx', branch', path')"
    and "sized ints" "length ints = n" "sized branch"
  shows "sized ints' \<and> length ints' = n \<and> sized branch'"
  using assms
proof (induction ps arbitrary: ints idx branch path)
  case (Cons p ps)
  obtain i j where p: "p = (i, j)" by force
  have rd: "length (rd ints i) = HASH_SIZE" "length (rd ints (i + 1)) = HASH_SIZE" using Cons.prems p by auto
  obtain i1 x1 b1 p1 where s: "branch_step rd p (ints, idx, branch, path) = (i1, x1, b1, p1)" by (metis prod_cases4)
  have "sized i1" "length i1 = n" "sized b1"
    using s hash_step_sized [OF Cons.prems(3), of rd p] Cons.prems(4,5) rd
    by (auto simp: p branch_step_def sized_def split: if_splits)
  then show ?case using Cons.IH [of i1 x1 b1 p1] Cons.prems(1,2) s by simp
qed simp

lemma branch_levels_sized:
  assumes "branch_levels cnt (ints, idx, branch, path) = (ints', idx', branch', path')"
    and "sized ints" "length ints = n" "cnt \<le> n" "sized branch"
  shows "sized ints' \<and> length ints' = n \<and> sized branch'"
  using assms
proof (induction cnt arbitrary: ints idx branch path rule: less_induct)
  case (less cnt)
  show ?case
  proof (cases "2 < cnt")
    case True
    let ?c = "cnt div 2"
    obtain i1 x1 b1 p1 where s: "fold (branch_step (!)) (pair_indices 0 ?c) (ints, idx, branch, path) = (i1, x1, b1, p1)" by (metis prod_cases4)
    have "\<forall>(i, j) \<in> set (pair_indices 0 ?c). \<forall>ints. sized ints \<longrightarrow> length ints = n \<longrightarrow>
        length (ints ! i) = HASH_SIZE \<and> length (ints ! (i + 1)) = HASH_SIZE"
      using less.prems(4) by (auto simp: pair_indices_def sized_def)
    from branch_fold_sized [OF this s less.prems(2,3,5)] show ?thesis
      using less.IH [of ?c i1 x1 b1 p1] less.prems(1,4) True s by (subst (asm) branch_levels.simps) (auto simp: Let_def)
  next
    case False
    then show ?thesis using less.prems by (subst (asm) branch_levels.simps) simp
  qed
qed

lemma tree_branch_sized:
  assumes "tree_branch hashes h = Some (branch, path)" "sized hashes"
  shows "sized branch"
proof (cases hashes rule: hashes_cases)
  case 4
  have nth: "length (hashes ! i) = HASH_SIZE" if "i < length hashes" for i using that assms(2) by (simp add: sized_def)
  have "length hashes \<le> 2 ^ 28"
    using assms(1) 4 by (auto simp: tree_branch_def Let_def tree_hash_cnt_def split: if_splits)
  with 4 obtain m s n where su: "tree_hash_cnt (length hashes) = Some (s + n)" "s + n = 2 ^ Suc m" "s + 2 * n = length hashes"
    "2 * (s + n) - length hashes = s" using tree_setup [of "length hashes"] by metis
  define ints where "ints = take s hashes @ replicate n (replicate HASH_SIZE (0 :: u8))"
  have ints: "sized ints" "length ints = s + n"
    using assms(2) su(3) by (auto simp: ints_def sized_def dest: in_set_takeD)
  obtain i1 x1 b1 p1 where f: "fold (branch_step (\<lambda>_. (!) hashes)) (pair_indices s (s + n))
      (ints, length (takeWhile (\<lambda>g. g \<noteq> h) hashes), [], 0) = (i1, x1, b1, p1)" by (metis prod_cases4)
  obtain i2 x2 b2 p2 where l: "branch_levels (s + n) (i1, x1, b1, p1) = (i2, x2, b2, p2)" by (metis prod_cases4)
  have br: "branch = b2 \<or> branch = b2 @ [i2 ! 0] \<or> branch = b2 @ [i2 ! 1]"
    using assms(1) 4 su(1,3,4) f l by (auto simp: tree_branch_def Let_def ints_def split: if_splits)
  have "\<forall>(i, j) \<in> set (pair_indices s (s + n)). \<forall>ints. sized ints \<longrightarrow> length ints = s + n \<longrightarrow>
      length (hashes ! i) = HASH_SIZE \<and> length (hashes ! (i + 1)) = HASH_SIZE"
    using su(3) nth by (auto simp: pair_indices_def)
  from branch_fold_sized [OF this f ints] have "sized i1" "length i1 = s + n" "sized b1" by (simp_all add: sized_def)
  from branch_levels_sized [OF l this(1,2) order.refl this(3)] have "sized i2" "length i2 = s + n" "sized b2" by simp_all
  moreover have "0 < s + n" "1 < s + n" using su(2,3) 4 by linarith+
  ultimately have "i2 ! 0 \<in> set i2" "i2 ! 1 \<in> set i2" by (simp_all add: nth_mem)
  then show ?thesis using br \<open>sized i2\<close> \<open>sized b2\<close> by (auto simp: sized_def)
qed (use assms in \<open>auto simp: tree_branch_def Let_def sized_def split: if_splits\<close>)

lemma tree_branch_member: "tree_branch hashes h = Some bp \<Longrightarrow> h \<in> set hashes"
  using takeWhile_eq_all_conv [of "\<lambda>g. g \<noteq> h" hashes] by (fastforce simp: tree_branch_def Let_def split: if_splits)

text \<open>C22: a hash is proved at the position of a leaf of a tree of at most \<open>2 ^ 28\<close> hashes, by a branch as long as
  the leaf's own, only if it is that leaf and the branch is the leaf's own, unless \<open>cn_fast_hash\<close> collides
  on the two buffers that some level of the two verifications hashes.\<close>

theorem only_leaf_verifies:
  assumes "tree_branch hashes h = Some (branch, path)" "tree_hash hashes = Some root" "length hashes \<le> 2 ^ 28"
    "\<forall>b \<in> set hashes. length b = HASH_SIZE"
    "length h' = HASH_SIZE" "length branch' = length branch" "\<forall>b \<in> set branch'. length b = HASH_SIZE"
    "\<forall>d < length branch. let x = branch_buffer branch (length branch) path d (branch_partial h branch (length branch) path d);
       y = branch_buffer branch' (length branch) path d (branch_partial h' branch' (length branch) path d)
     in cn_fast_hash x = cn_fast_hash y \<longrightarrow> x = y"
  shows "is_branch_in_tree h' root branch' (length branch) path \<longleftrightarrow> h' = h \<and> branch' = branch"
proof -
  have h: "h \<in> set hashes" by (rule tree_branch_member [OF assms(1)])
  then have v: "is_branch_in_tree h root branch (length branch) path"
    using branch_okI [OF h assms(3)] assms(1,2) by (auto simp: branch_ok_def)
  have "sized branch" using tree_branch_sized [OF assms(1)] assms(4) by (simp add: sized_def)
  then have len: "\<forall>b \<in> set (h # branch). length b = 32" "\<forall>b \<in> set (h' # branch'). length b = 32"
    using h assms(4,5,7) by (auto simp: sized_def HASH_SIZE_def)
  have "h' = h \<and> branch' = branch" if "is_branch_in_tree h' root branch' (length branch) path"
    using branch_sound [OF refl assms(6) order.refl len, of path] that v assms(6,8)
    by (auto simp: is_branch_in_tree_def tree_branch_hash_def Let_def)
  then show ?thesis using v by blast
qed

text \<open>In a tree of two leaves the branch of the second is accepted for it, and in a tree of one leaf no other
  hash is.\<close>

theorem only_leaf_verifies_witness:
  "is_branch_in_tree (replicate 32 2) (cn_fast_hash (replicate 32 1 @ replicate 32 2)) [replicate 32 1] 1 1 \<and>
   \<not> is_branch_in_tree (replicate 32 2) (replicate 32 1) [] 0 0"
proof
  show "is_branch_in_tree (replicate 32 2) (cn_fast_hash (replicate 32 1 @ replicate 32 2)) [replicate 32 1] 1 1"
    using only_leaf_verifies [of "[replicate 32 1, replicate 32 2]" "replicate 32 2" "[replicate 32 1]" 1
        "cn_fast_hash (replicate 32 1 @ replicate 32 2)" "replicate 32 2" "[replicate 32 1]"]
    by (simp add: tree_branch_def tree_hash_def HASH_SIZE_def replicate_eq_replicate)
  show "\<not> is_branch_in_tree (replicate 32 2) (replicate 32 1) [] 0 0"
    using only_leaf_verifies [of "[replicate 32 1]" "replicate 32 1" "[]" 0 "replicate 32 1" "replicate 32 2" "[]"]
    by (simp add: tree_branch_def tree_hash_def HASH_SIZE_def)
qed
end
