(* ===== verification/Merge_Mining.thy ===== *)
theory Merge_Mining
  imports Tree_Hash
begin

unbundle bit_operations_syntax

section \<open>Merge mining (\<open>src/cryptonote_basic/merge_mining.cpp\<close>)\<close>

text \<open>
  The slot of an auxiliary chain, its path in the tree of auxiliary chains, and the packed depth
  field of the merge-mining tag. \<open>None\<close> is a thrown check. SHA-256 is a library function
  (OpenSSL) and therefore an argument of \<open>get_aux_slot\<close>.
\<close>

definition HASH_KEY_MM_SLOT :: u8 where "HASH_KEY_MM_SLOT = 109"

text \<open>The four bytes of \<open>SWAP32LE(nonce)\<close> in memory, and reading four bytes back.\<close>

definition le32_bytes :: "u32 \<Rightarrow> bytes" where
  "le32_bytes v = map (\<lambda>i. ucast (drop_bit (8 * i) v)) [0..<4]"

definition get_aux_slot :: "(bytes \<Rightarrow> bytes) \<Rightarrow> bytes \<Rightarrow> u32 \<Rightarrow> u32 \<Rightarrow> u32 option" where
  "get_aux_slot sha256sum ident nonce n_aux_chains =
     (if \<not> 0 < n_aux_chains then None
      else let buf = take HASH_SIZE ident @ le32_bytes nonce @ [HASH_KEY_MM_SLOT];
               res = sha256sum buf
           in Some (ucast (le_word (take 4 res)) mod n_aux_chains))"

definition get_path_from_aux_slot :: "u32 \<Rightarrow> u32 \<Rightarrow> u32 option" where
  "get_path_from_aux_slot slot n_aux_chains =
     (if \<not> 0 < n_aux_chains then None
      else if \<not> slot < n_aux_chains then None
      else tree_path (unat n_aux_chains) (unat slot))"

function n_bits_loop :: "u32 \<Rightarrow> nat \<Rightarrow> nat" where
  "n_bits_loop n_aux_chains n_bits =
     (if n_bits < 32 \<and> push_bit n_bits 1 < n_aux_chains then n_bits_loop n_aux_chains (n_bits + 1) else n_bits)"
  by pat_completeness auto
termination
  by (relation "measure (\<lambda>(_, n_bits). 32 - n_bits)") auto

declare n_bits_loop.simps [simp del]

definition encode_mm_depth :: "u32 \<Rightarrow> u32 \<Rightarrow> u64 option" where
  "encode_mm_depth n_aux_chains nonce =
     (if \<not> 0 < n_aux_chains then None
      else if \<not> n_aux_chains \<le> 256 then None
      else let n_bits = n_bits_loop n_aux_chains 1
           in Some (ucast (of_nat (n_bits - 1) OR push_bit 3 (n_aux_chains - 1)) OR
                    push_bit (3 + n_bits) (ucast nonce)))"

definition decode_mm_depth :: "u64 \<Rightarrow> u32 \<times> u32" where
  "decode_mm_depth depth =
     (let n_bits = 1 + unat (depth AND 7)
      in (1 + ucast (drop_bit 3 depth AND (push_bit n_bits 1 - 1)), ucast (drop_bit (3 + n_bits) depth)))"

subsection \<open>The packed depth\<close>

lemma unat_push_1: "k < 32 \<Longrightarrow> unat (push_bit k 1 :: u32) = 2 ^ k"
  unfolding unat_push_bit_mod using power_strict_increasing [of k 32 "2::nat"] by simp

lemma n_bits_loop_bounds:
  assumes "1 \<le> k" "k \<le> 8" "unat n \<le> 256"
  shows "1 \<le> n_bits_loop n k \<and> n_bits_loop n k \<le> 8 \<and> unat n \<le> 2 ^ n_bits_loop n k"
  using assms
proof (induction "8 - k" arbitrary: k)
  case 0
  then show ?case
    by (subst (1 2 3) n_bits_loop.simps) (simp add: word_less_nat_alt)
next
  case (Suc d)
  then have "k < 8" by simp
  then show ?case
    using Suc.hyps(1) [of "Suc k"] Suc.prems Suc.hyps(2) unat_push_1 [of k]
    by (subst (1 2 3) n_bits_loop.simps) (auto simp: word_less_nat_alt)
qed

lemma unat_mm_depth:
  assumes "unat n \<le> 256" "0 < unat n" "1 \<le> b" "b \<le> 8" "unat n \<le> 2 ^ b"
  shows "unat (ucast (of_nat (b - 1) OR push_bit 3 (n - 1)) OR push_bit (3 + b) (ucast nonce) :: u64)
    = unat (nonce :: u32) * 2 ^ (3 + b) + ((unat (n :: u32) - 1) * 8 + (b - 1))"
    and "(unat n - 1) * 8 + (b - 1) < 2 ^ (3 + b)"
proof -
  show lt: "(unat n - 1) * 8 + (b - 1) < 2 ^ (3 + b)"
    using digit_lt [of "b - 1" 8 "unat n - 1" "2 ^ b"] assms by (simp add: power_add mult.commute)
  define lo where "lo = of_nat (b - 1) OR push_bit 3 (n - 1)"
  have n1: "unat (n - 1) = unat n - 1"
    using assms(2) by (subst unat_minus_exact) (simp_all add: word_le_nat_alt)
  have b1: "unat (of_nat (b - 1) :: u32) = b - 1" using assms(4) by (subst unat_of_nat) simp
  have sh: "unat (push_bit 3 (n - 1)) = (unat n - 1) * 8"
    unfolding unat_push_bit_mod n1 using assms(1) by simp
  have "lo = push_bit 3 (n - 1) + of_nat (b - 1)"
    unfolding lo_def using assms(4) b1 by (subst or.commute, subst or_is_plus) auto
  then have lo: "unat lo = (unat n - 1) * 8 + (b - 1)"
    using assms(1,4) by (simp only:) (subst unat_plus_exact, simp_all add: sh b1 del: One_nat_def)
  define hi :: u64 where "hi = push_bit (3 + b) (ucast nonce)"
  have le: "(2::nat) ^ (3 + b) \<le> 2 ^ 11" using assms(4) by (intro power_increasing) auto
  have "unat nonce * 2 ^ (3 + b) \<le> unat nonce * 2 ^ 11" using le by (rule mult_le_mono2)
  also have "\<dots> < 2 ^ 43" using unat_u32_lt [of nonce] by (simp del: unat_u32_lt)
  finally have nb: "unat nonce * 2 ^ (3 + b) < 2 ^ 43" .
  then have hi: "unat hi = unat nonce * 2 ^ (3 + b)"
    unfolding hi_def unat_push_bit_mod by (simp add: unat_ucast_up)
  have "hi OR ucast lo = hi + ucast lo"
    unfolding hi_def using lt lo by (intro or_is_plus) (simp add: unat_ucast_up)
  moreover have "unat (hi + ucast lo) = unat hi + unat (ucast lo :: u64)"
    using nb lt le by (intro unat_plus_exact) (simp add: hi lo unat_ucast_up)
  ultimately show "unat (ucast (of_nat (b - 1) OR push_bit 3 (n - 1)) OR push_bit (3 + b) (ucast nonce) :: u64)
    = unat nonce * 2 ^ (3 + b) + ((unat n - 1) * 8 + (b - 1))"
    unfolding lo_def [symmetric] hi_def [symmetric] by (subst or.commute) (simp add: hi lo unat_ucast_up)
qed

text \<open>The number of auxiliary chains, from 1 to 256, and any nonce are read back from their packed
  depth.\<close>

lemma mm_depth_roundtrip:
  assumes "0 < n_aux_chains" "n_aux_chains \<le> 256"
  shows "\<exists>depth. encode_mm_depth n_aux_chains nonce = Some depth \<and>
    decode_mm_depth depth = (n_aux_chains, nonce)"
proof -
  define b where "b = n_bits_loop n_aux_chains 1"
  have n: "unat n_aux_chains \<le> 256" "0 < unat n_aux_chains"
    using assms by (simp_all add: word_le_nat_alt word_less_nat_alt)
  have b: "1 \<le> b" "b \<le> 8" "unat n_aux_chains \<le> 2 ^ b"
    using n_bits_loop_bounds [of 1 n_aux_chains] n by (simp_all add: b_def)
  define depth :: u64 where
    "depth = ucast (of_nat (b - 1) OR push_bit 3 (n_aux_chains - 1)) OR push_bit (3 + b) (ucast nonce)"
  note d = unat_mm_depth(1) [OF n b, of nonce, folded depth_def] unat_mm_depth(2) [OF n b]
  define q where "q = unat nonce * 2 ^ b + (unat n_aux_chains - 1)"
  have form: "unat depth = q * 8 + (b - 1)"
    unfolding d(1) q_def by (simp add: power_add distrib_right)
  have enc: "encode_mm_depth n_aux_chains nonce = Some depth"
    using assms by (simp add: encode_mm_depth_def b_def depth_def Let_def)
  have "unat (depth AND 7) = unat depth mod 2 ^ 3"
    using unat_and_mask [of depth 3] by (simp add: mask_eq_exp_minus_1)
  also have "\<dots> = b - 1" using b(2) by (simp add: form)
  finally have b': "1 + unat (depth AND 7) = b" using b(1) by simp
  have div8: "unat (drop_bit 3 depth) = unat nonce * 2 ^ b + (unat n_aux_chains - 1)"
    using b(2) unfolding q_def [symmetric] by (simp add: unat_drop_bit form)
  have "unat (drop_bit 3 depth AND (push_bit b 1 - 1)) = unat (drop_bit 3 depth) mod 2 ^ b"
    using unat_and_mask [of "drop_bit 3 depth" b] by (simp add: mask_eq_exp_minus_1)
  also have "\<dots> = unat n_aux_chains - 1"
    unfolding div8 mod_mult_self3 using n(2) b(3) by (intro mod_less) linarith
  finally have "unat (drop_bit 3 depth AND (push_bit b 1 - 1)) = unat n_aux_chains - 1" .
  then have fst: "1 + ucast (drop_bit 3 depth AND (push_bit b 1 - 1)) = n_aux_chains"
    using n by (intro word_unat_eqI, subst unat_plus_exact) (simp_all add: unat_ucast_mod)
  have "unat (drop_bit (3 + b) depth) = unat nonce"
    using d(2) by (simp add: unat_drop_bit d(1))
  then have "ucast (drop_bit (3 + b) depth) = nonce"
    by (intro word_unat_eqI) (simp add: unat_ucast_mod)
  then have "decode_mm_depth depth = (n_aux_chains, nonce)"
    unfolding decode_mm_depth_def Let_def b' fst by (simp only:)
  then show ?thesis using enc by simp
qed

lemma mm_depth_roundtrip_example:
  "\<exists>depth. encode_mm_depth 200 77 = Some depth \<and> decode_mm_depth depth = (200, 77)"
  by (rule mm_depth_roundtrip) (simp_all add: word_less_nat_alt word_le_nat_alt)

subsection \<open>Slots and paths\<close>

lemma distinct_index:
  "distinct xs \<Longrightarrow> k < length xs \<Longrightarrow> length (takeWhile (\<lambda>g. g \<noteq> xs ! k) xs) = k"
  by (induction xs arbitrary: k) (auto simp: nth_Cons split: nat.splits)

text \<open>A slot below the number of auxiliary chains has a path, and it is the path of the branch that
  proves the hash in that slot to be in the tree of the auxiliary chains.\<close>

lemma aux_slot_path:
  assumes "length hashes = unat n_aux_chains" "unat n_aux_chains \<le> 2 ^ 28" "slot < n_aux_chains" "distinct hashes"
  shows "\<exists>path branch root. get_path_from_aux_slot slot n_aux_chains = Some path \<and>
    tree_branch hashes (hashes ! unat slot) = Some (branch, path) \<and> tree_hash hashes = Some root \<and>
    is_branch_in_tree (hashes ! unat slot) root branch (length branch) path"
proof -
  have slot: "unat slot < length hashes" using assms(1,3) by (simp add: word_less_nat_alt)
  then have "branch_ok hashes (hashes ! unat slot)" using assms(1,2) by (intro branch_okI) auto
  moreover have "0 < n_aux_chains" using assms(3) by (simp add: word_less_nat_alt)
  ultimately show ?thesis
    using assms(1,3) distinct_index [OF assms(4) slot]
    unfolding branch_ok_def get_path_from_aux_slot_def by auto
qed

lemma aux_slot_path_example:
  "\<exists>path branch root. get_path_from_aux_slot 1 3 = Some path \<and>
    tree_branch [[1], [2], [3]] ([[1], [2], [3]] ! unat (1 :: u32)) = Some (branch, path) \<and>
    tree_hash [[1], [2], [3]] = Some root \<and>
    is_branch_in_tree ([[1], [2], [3]] ! unat (1 :: u32)) root branch (length branch) path"
  by (rule aux_slot_path) (simp_all add: word_less_nat_alt)

end
