(* ===== verification/Hex.thy ===== *)
theory Hex
  imports Hidering_Prelude
begin

unbundle bit_operations_syntax

section \<open>Hexadecimal text (\<open>contrib/epee/src/hex.cpp\<close>)\<close>

text \<open>
  Writing bytes as lower-case hexadecimal digits and reading digits of either case. Characters are
  bytes; \<open>None\<close> is a returned \<open>false\<close> or the thrown range error. The table \<open>isx\<close> has one entry per
  character code and the entry 255 for every character that is not a digit.
\<close>

definition hex_alphabet :: bytes where
  "hex_alphabet = map of_char ''0123456789abcdef''"

definition write_hex :: "bytes \<Rightarrow> bytes" where
  "write_hex src = concat (map (\<lambda>byte. [hex_alphabet ! unat (drop_bit 4 byte), hex_alphabet ! unat (byte AND 0x0F)]) src)"

definition to_hex_convert :: "bytes \<Rightarrow> bytes option" where
  "to_hex_convert src = (if (2 ^ 64 - 1) div 2 < length src then None else Some (write_hex src))"

definition to_hex_buffer :: "nat \<Rightarrow> bytes \<Rightarrow> bytes option" where
  "to_hex_buffer out_size src =
     (if out_size mod 2 \<noteq> 0 \<or> out_size div 2 \<noteq> length src then None else Some (write_hex src))"

definition isx :: "nat list" where
  "isx = replicate 48 0xff @ [0, 1, 2, 3, 4, 5, 6, 7, 8, 9] @ replicate 7 0xff @ [10, 11, 12, 13, 14, 15] @
     replicate 26 0xff @ [10, 11, 12, 13, 14, 15] @ replicate 153 0xff"

fun from_hex_loop :: "bytes \<Rightarrow> bytes option" where
  "from_hex_loop (c # c2 # src) =
     (let tmp = isx ! unat c
      in if tmp = 0xff then None
         else let t2 = isx ! unat c2
              in if t2 = 0xff then None
                 else map_option (\<lambda>dst. (push_bit 4 (of_nat tmp) OR of_nat t2) # dst) (from_hex_loop src))"
| "from_hex_loop src = Some []"

definition from_hex_to_buffer_unchecked :: "bytes \<Rightarrow> bytes option" where
  "from_hex_to_buffer_unchecked s = (if length s mod 2 \<noteq> 0 then None else from_hex_loop s)"

definition from_hex_to_string :: "bytes \<Rightarrow> bytes option" where
  "from_hex_to_string src = from_hex_to_buffer_unchecked src"

definition from_hex_to_buffer :: "nat \<Rightarrow> bytes \<Rightarrow> bytes option" where
  "from_hex_to_buffer out_size src =
     (if length src div 2 \<noteq> out_size then None else from_hex_to_buffer_unchecked src)"

definition hex_to_pod :: "nat \<Rightarrow> bytes \<Rightarrow> bytes option" where
  "hex_to_pod pod_size hex_str = from_hex_to_buffer pod_size hex_str"

subsection \<open>Digits\<close>

text \<open>The lower-case form of a hexadecimal digit.\<close>

definition hex_lower :: "u8 \<Rightarrow> u8" where
  "hex_lower c = (if 65 \<le> unat c \<and> unat c \<le> 70 then c + 32 else c)"

lemma unat_hex_lower: "unat (hex_lower c) = (if 65 \<le> unat c \<and> unat c \<le> 70 then unat c + 32 else unat c)"
  by (auto simp: hex_lower_def unat_plus_exact)

lemma hex_digit: "n < 16 \<Longrightarrow> unat (hex_alphabet ! n) = (if n < 10 then 48 + n else 87 + n)"
proof -
  have "list_all (\<lambda>n. unat (hex_alphabet ! n) = (if n < 10 then 48 + n else 87 + n)) [0..<16]" by code_simp
  then show "n < 16 \<Longrightarrow> unat (hex_alphabet ! n) = (if n < 10 then 48 + n else 87 + n)" by (rule all_below)
qed

lemma isx_value:
  "k < 256 \<Longrightarrow> isx ! k = (if 48 \<le> k \<and> k < 58 then k - 48 else if 65 \<le> k \<and> k < 71 then k - 55
     else if 97 \<le> k \<and> k < 103 then k - 87 else 255)"
proof -
  define ds ls :: "nat list" where lists: "ds = [0, 1, 2, 3, 4, 5, 6, 7, 8, 9]" "ls = [10, 11, 12, 13, 14, 15]"
  have ds: "length ds = 10" "ls \<noteq> []" "length ls = 6" by (simp_all add: lists)
  have nth: "j < 10 \<Longrightarrow> ds ! j = j" "j < 6 \<Longrightarrow> ls ! j = 10 + j" for j
    by (auto simp: lists less_Suc_eq numeral_eq_Suc)
  show "k < 256 \<Longrightarrow> isx ! k = (if 48 \<le> k \<and> k < 58 then k - 48 else if 65 \<le> k \<and> k < 71 then k - 55
     else if 97 \<le> k \<and> k < 103 then k - 87 else 255)"
    unfolding isx_def lists [symmetric] by (auto simp: nth_append ds nth)
qed

lemma isx_iff: "n < 16 \<Longrightarrow> isx ! unat c = n \<longleftrightarrow> hex_lower c = hex_alphabet ! n"
  using hex_digit [of n] isx_value [of "unat c"] unat_hex_lower [of c]
  by (auto simp: word_unat_eq_iff split: if_splits)

lemma isx_cases: "isx ! unat c = 255 \<or> isx ! unat c < 16" for c :: u8
  using isx_value [OF unat_u8_lt, of c] by (auto simp del: unat_u8_lt)

lemma length_write_hex: "length (write_hex bs) = 2 * length bs"
  by (induction bs) (simp_all add: write_hex_def)

lemma unat_nibbles: "unat (b AND 0x0F) = unat b mod 16" "unat (drop_bit 4 b) = unat b div 16" for b :: u8
proof -
  have "b AND 0x0F = b AND mask 4" by (simp add: mask_numeral)
  then show "unat (b AND 0x0F) = unat b mod 16" by (simp only: unat_and_mask) simp
qed (simp add: unat_drop_bit)

lemma byte_nibble_lt: "unat (drop_bit 4 b) < 16" "unat (b AND 0x0F) < 16" for b :: u8
  using unat_u8_lt [of b] by (simp_all add: unat_nibbles less_mult_imp_div_less del: unat_u8_lt)

lemma byte_nibbles:
  "t < 16 \<Longrightarrow> u < 16 \<Longrightarrow> push_bit 4 (of_nat t) OR of_nat u = (b :: u8) \<longleftrightarrow>
     unat (drop_bit 4 b) = t \<and> unat (b AND 0x0F) = u"
proof -
  assume tu: "t < 16" "u < 16"
  have un: "unat (of_nat u :: u8) = u" "unat (of_nat t :: u8) = t" using tu by (simp_all add: unat_of_nat)
  have sh: "unat (push_bit 4 (of_nat t) :: u8) = t * 16" using tu un(2) unfolding unat_push_bit_mod by simp
  have "push_bit 4 (of_nat t) OR of_nat u = (push_bit 4 (of_nat t) + of_nat u :: u8)"
    using tu un by (intro or_is_plus) simp
  then have v: "unat (push_bit 4 (of_nat t) OR of_nat u :: u8) = t * 16 + u"
    using tu un sh by (simp only:) (subst unat_plus_exact, simp_all)
  show ?thesis unfolding word_unat_eq_iff v unat_nibbles
    using nat_div_mod_unique [of t 16 u "unat b div 16" "unat b mod 16"] tu by auto
qed

lemma from_hex_loop_iff: "even (length s) \<Longrightarrow> from_hex_loop s = Some bs \<longleftrightarrow> map hex_lower s = write_hex bs"
proof (induction s arbitrary: bs rule: induct_list012)
  case (3 c c2 src)
  let ?t = "isx ! unat c" and ?u = "isx ! unat c2"
  show ?case
  proof (cases bs)
    case Nil
    then show ?thesis by (auto simp: write_hex_def Let_def)
  next
    case (Cons b bs')
    note hi = byte_nibble_lt [of b]
    have "from_hex_loop (c # c2 # src) = Some (b # bs') \<longleftrightarrow>
        ?t < 16 \<and> ?u < 16 \<and> push_bit 4 (of_nat ?t) OR of_nat ?u = b \<and> from_hex_loop src = Some bs'"
      using isx_cases [of c] isx_cases [of c2] by (auto simp: Let_def)
    also have "\<dots> \<longleftrightarrow> ?t = unat (drop_bit 4 b) \<and> ?u = unat (b AND 0x0F) \<and> from_hex_loop src = Some bs'"
      using byte_nibbles [of ?t ?u b] hi by auto
    also have "\<dots> \<longleftrightarrow> map hex_lower (c # c2 # src) = write_hex (b # bs')"
      using isx_iff [OF hi(1), of c] isx_iff [OF hi(2), of c2] 3
      by (auto simp: write_hex_def Let_def)
    finally show ?thesis using Cons by simp
  qed
qed (auto simp: write_hex_def)

text \<open>The reader accepts exactly the texts that are, up to the case of the digits, the hexadecimal
  form the writer gives to the bytes read.\<close>

lemma hex_text_exact:
  "from_hex_to_string s = Some bs \<longleftrightarrow> map hex_lower s = write_hex bs"
proof (cases "even (length s)")
  case True
  then show ?thesis
    using from_hex_loop_iff by (simp add: from_hex_to_string_def from_hex_to_buffer_unchecked_def even_iff_mod_2_eq_zero)
next
  case False
  then have "map hex_lower s \<noteq> write_hex bs"
    using length_write_hex [of bs] by (metis dvd_triv_left length_map)
  then show ?thesis using False
    by (simp add: from_hex_to_string_def from_hex_to_buffer_unchecked_def even_iff_mod_2_eq_zero)
qed

end
