(* ===== verification/Checkpoints.thy ===== *)
theory Checkpoints
  imports Hex Keccak Difficulty "HOL-Library.RBT"
begin

section \<open>Checkpoints (\<open>src/checkpoints/checkpoints.cpp\<close>)\<close>

text \<open>
  The container of block hashes fixed at given heights. The two \<open>std::map\<close>s are the ordered maps
  of the library. Every operation returns its result and the container, which a failing operation
  may already have changed. The constructor of \<open>difficulty_type\<close> from a string belongs to Boost and
  is the argument \<open>parse_difficulty\<close>, \<open>None\<close> where it throws. The contents of the JSON file are an
  argument, and so is \<open>load_txt_records\<close>, the DNS query for a list of host names, \<open>None\<close> where it fails.
\<close>

datatype network_type = MAINNET | TESTNET | STAGENET | FAKECHAIN | UNDEFINED

type_synonym difficulty_parser = "bytes \<Rightarrow> difficulty_type option"

record checkpoints =
  m_points :: "(u64, bytes) rbt"
  m_difficulty_points :: "(u64, difficulty_type) rbt"

definition checkpoints_new :: checkpoints where
  "checkpoints_new = \<lparr>m_points = RBT.empty, m_difficulty_points = RBT.empty\<rparr>"

definition add_checkpoint ::
  "difficulty_parser \<Rightarrow> u64 \<Rightarrow> bytes \<Rightarrow> bytes \<Rightarrow> checkpoints \<Rightarrow> bool \<times> checkpoints" where
  "add_checkpoint parse_difficulty height hash_str difficulty_str cp =
     (case hex_to_pod HASH_SIZE hash_str of None \<Rightarrow> (False, cp) | Some h \<Rightarrow>
        if RBT.lookup (m_points cp) height \<noteq> None \<and> RBT.lookup (m_points cp) height \<noteq> Some h then (False, cp)
        else let cp = cp\<lparr>m_points := RBT.insert height h (m_points cp)\<rparr>
             in if difficulty_str = [] then (True, cp)
                else case parse_difficulty difficulty_str of None \<Rightarrow> (False, cp) | Some difficulty \<Rightarrow>
                  if RBT.lookup (m_difficulty_points cp) height \<noteq> None \<and>
                     RBT.lookup (m_difficulty_points cp) height \<noteq> Some difficulty then (False, cp)
                  else (True, cp\<lparr>m_difficulty_points := RBT.insert height difficulty (m_difficulty_points cp)\<rparr>))"

text \<open>The last entry of the ordered map, and the entry before \<open>upper_bound(height)\<close>.\<close>

definition last_point :: "('k::linorder, 'v) rbt \<Rightarrow> ('k \<times> 'v) option" where
  "last_point m = (if RBT.entries m = [] then None else Some (last (RBT.entries m)))"

definition before_upper_bound :: "'k::linorder \<Rightarrow> ('k, 'v) rbt \<Rightarrow> ('k \<times> 'v) option" where
  "before_upper_bound k m =
     (let below = takeWhile (\<lambda>e. fst e \<le> k) (RBT.entries m) in if below = [] then None else Some (last below))"

definition is_in_checkpoint_zone :: "u64 \<Rightarrow> checkpoints \<Rightarrow> bool" where
  "is_in_checkpoint_zone height cp =
     (case last_point (m_points cp) of None \<Rightarrow> False | Some (highest, _) \<Rightarrow> height \<le> highest)"

definition check_block :: "u64 \<Rightarrow> bytes \<Rightarrow> checkpoints \<Rightarrow> bool \<times> bool" where
  "check_block height h cp =
     (let it = RBT.lookup (m_points cp) height; is_a_checkpoint = (it \<noteq> None)
      in if \<not> is_a_checkpoint then (True, is_a_checkpoint)
         else if it = Some h then (True, is_a_checkpoint)
         else (False, is_a_checkpoint))"

definition is_alternative_block_allowed :: "u64 \<Rightarrow> u64 \<Rightarrow> checkpoints \<Rightarrow> bool" where
  "is_alternative_block_allowed blockchain_height block_height cp =
     (if 0 = block_height then False
      else case before_upper_bound blockchain_height (m_points cp) of None \<Rightarrow> True
           | Some (checkpoint_height, _) \<Rightarrow> checkpoint_height < block_height)"

definition get_max_height :: "checkpoints \<Rightarrow> u64" where
  "get_max_height cp = (case last_point (m_points cp) of None \<Rightarrow> 0 | Some (highest, _) \<Rightarrow> highest)"

definition get_nearest_checkpoint_height :: "u64 \<Rightarrow> checkpoints \<Rightarrow> u64" where
  "get_nearest_checkpoint_height block_height cp =
     (case before_upper_bound block_height (m_points cp) of None \<Rightarrow> 0 | Some (height, _) \<Rightarrow> height)"

definition check_for_conflicts :: "checkpoints \<Rightarrow> checkpoints \<Rightarrow> bool" where
  "check_for_conflicts other cp =
     list_all (\<lambda>(height, h). RBT.lookup (m_points cp) height = None \<or> RBT.lookup (m_points cp) height = Some h)
       (RBT.entries (m_points other))"

text \<open>A run of \<open>ADD_CHECKPOINT\<close>s, which stops at the first that fails.\<close>

fun add_checkpoints ::
  "difficulty_parser \<Rightarrow> (u64 \<times> bytes \<times> bytes) list \<Rightarrow> checkpoints \<Rightarrow> bool \<times> checkpoints" where
  "add_checkpoints parse_difficulty [] cp = (True, cp)"
| "add_checkpoints parse_difficulty ((height, hash_str, difficulty_str) # points) cp =
     (case add_checkpoint parse_difficulty height hash_str difficulty_str cp of (r, cp) \<Rightarrow>
        if r then add_checkpoints parse_difficulty points cp else (False, cp))"

definition mainnet_checkpoints :: "(u64 \<times> bytes \<times> bytes) list" where
  "mainnet_checkpoints = map (\<lambda>(height, hash, difficulty). (height, map of_char hash, map of_char difficulty))
    [(2939, ''5155f6f679e60773331175024910019f0db9d30db8953d9227313ba563126592'', ''0x2e096dbbf''),
     (5000, ''b835c46b10bebf119ad4d22ae0db70265629b117d4acdaeb1466cc6214274640'', ''0x88748a6ee''),
     (11000, ''dcb632a807f8e5f92bc4d31eefb011fe720ad8d0c53afd6c4dc1b992a05d94a1'', ''0x253b1965c4''),
     (16000, ''ff85337d4adaf8185256870eea656f53beb48bfef5bcc44adf06066d6bcca7b7'', ''0x446ee5a6cd''),
     (20000, ''5f7832fd89793901bb7bca0928e26b7e7fb2eea1d21230842641e82de654a54e'', ''0x56176a690c''),
     (25000, ''59badae1d365803fef64439b263ae3de73f1563190bfb14fadfa50e0868dd188'', ''0x6adc13c1a9''),
     (80386, ''92e4d8914fa54ec17342c4a983cef4ea049bfb4a99907f0eefcdf269d35eca41'', ''0xa818c8c876''),
     (90000, ''dcb49faab9ed19a8929023f65f5212ffb604afcfc380a83de016c43862f38960'', ''0xabf31d0b40''),
     (110000, ''70b5abcee74bea8869bbb512327a1067081498a4bdf996e0768aec79176dfece'', ''0xb40da84356'')]"

definition init_default_checkpoints :: "difficulty_parser \<Rightarrow> network_type \<Rightarrow> checkpoints \<Rightarrow> bool \<times> checkpoints" where
  "init_default_checkpoints parse_difficulty nettype cp =
     (if nettype = TESTNET then (True, cp)
      else if nettype = STAGENET then (True, cp)
      else add_checkpoints parse_difficulty mainnet_checkpoints cp)"

text \<open>The file: missing, not readable as JSON, or its lines.\<close>

datatype hash_file = Not_found | Load_error | Hashlines "(u64 \<times> bytes) list"

definition load_checkpoints_from_json ::
  "difficulty_parser \<Rightarrow> hash_file \<Rightarrow> checkpoints \<Rightarrow> bool \<times> checkpoints" where
  "load_checkpoints_from_json parse_difficulty file cp =
     (case file of Not_found \<Rightarrow> (True, cp) | Load_error \<Rightarrow> (False, cp)
      | Hashlines hashlines \<Rightarrow>
          let prev_max_height = get_max_height cp
          in add_checkpoints parse_difficulty
               (map (\<lambda>(height, hash). (height, hash, []))
                  (filter (\<lambda>(height, hash). \<not> height \<le> prev_max_height) hashlines)) cp)"

text \<open>\<open>ss >> height\<close>: white space, an optional sign, decimal digits; an overflow fails, a minus sign negates.\<close>

definition read_uint64 :: "bytes \<Rightarrow> u64 option" where
  "read_uint64 s =
     (let s = dropWhile (\<lambda>c. c \<in> {9, 10, 11, 12, 13, 32}) s;
          neg = (s \<noteq> [] \<and> hd s = 45);
          s = (if s \<noteq> [] \<and> hd s \<in> {43, 45} then tl s else s);
          digits = takeWhile (\<lambda>c. 48 \<le> c \<and> c \<le> 57) s;
          v = foldl (\<lambda>v c. 10 * v + (unat c - 48)) 0 digits
      in if digits = [] \<or> 2 ^ 64 \<le> v then None else Some (if neg then - of_nat v else of_nat v))"

fun dns_points :: "bytes list \<Rightarrow> (u64 \<times> bytes \<times> bytes) list" where
  "dns_points [] = []"
| "dns_points (record # records) =
     (let pos = length (takeWhile (\<lambda>c. c \<noteq> 58) record)
      in if pos = length record then dns_points records
         else case read_uint64 (take pos record) of None \<Rightarrow> dns_points records | Some height \<Rightarrow>
           let hashStr = drop (pos + 1) record
           in case hex_to_pod HASH_SIZE hashStr of None \<Rightarrow> dns_points records
              | Some hash \<Rightarrow> (height, hashStr, []) # dns_points records)"

definition checkpoint_dns_urls :: "network_type \<Rightarrow> bytes list" where
  "checkpoint_dns_urls nettype =
     [map of_char (if nettype = TESTNET then ''testpoints.hidering.invalid''
        else if nettype = STAGENET then ''stagenetpoints.hidering.invalid'' else ''checkpoints.hidering.invalid'')]"

definition load_checkpoints_from_dns ::
  "difficulty_parser \<Rightarrow> (bytes list \<Rightarrow> bytes list option) \<Rightarrow> network_type \<Rightarrow> checkpoints \<Rightarrow> bool \<times> checkpoints" where
  "load_checkpoints_from_dns parse_difficulty load_txt_records nettype cp =
     (case load_txt_records (checkpoint_dns_urls nettype) of None \<Rightarrow> (True, cp)
      | Some records \<Rightarrow> add_checkpoints parse_difficulty (dns_points records) cp)"

definition load_new_checkpoints ::
  "difficulty_parser \<Rightarrow> (bytes list \<Rightarrow> bytes list option) \<Rightarrow> hash_file \<Rightarrow> network_type \<Rightarrow> bool \<Rightarrow>
     checkpoints \<Rightarrow> bool \<times> checkpoints" where
  "load_new_checkpoints parse_difficulty load_txt_records file nettype dns cp =
     (let (result, cp) = load_checkpoints_from_json parse_difficulty file cp
      in if dns then let (r, cp) = load_checkpoints_from_dns parse_difficulty load_txt_records nettype cp in (result \<and> r, cp)
         else (result, cp))"

subsection \<open>Ordered maps\<close>

lemma last_sorted:
  assumes "sorted (map fst es)" "distinct (map fst es)" "es \<noteq> []"
  shows "last es = e \<longleftrightarrow> e \<in> set es \<and> (\<forall>e' \<in> set es. fst e' \<le> fst e)"
proof -
  have le: "\<forall>e' \<in> set es. fst e' \<le> fst (last es)"
    using assms(1,3) by (induction es) (auto simp: last_in_set)
  have mem: "last es \<in> set es" using assms(3) by simp
  have "e = last es" if "e \<in> set es" "\<forall>e' \<in> set es. fst e' \<le> fst e"
    using that le mem eq_key_imp_eq_value [OF assms(2), of "fst e" "snd e" "snd (last es)"]
    by (metis order_antisym prod.collapse)
  then show ?thesis using le mem by blast
qed

lemma set_takeWhile_sorted:
  "sorted (map fst es) \<Longrightarrow> set (takeWhile (\<lambda>e. fst e \<le> k) es) = {e \<in> set es. fst e \<le> k}" for k :: "'k::linorder"
  by (induction es) (auto intro: order_trans)

lemma entries_iff: "(k, v) \<in> set (RBT.entries m) \<longleftrightarrow> RBT.lookup m k = Some v"
  by (simp add: RBT.lookup_in_tree)

lemma dom_entries: "dom (RBT.lookup m) = fst ` set (RBT.entries m)"
  by (simp only: RBT.map_of_entries [symmetric] dom_map_of_conv_image_fst)

lemma entries_Nil_iff: "RBT.entries m = [] \<longleftrightarrow> dom (RBT.lookup m) = {}"
  by (simp add: dom_entries)

lemma ball_entries: "(\<forall>e \<in> set (RBT.entries m). P (fst e)) \<longleftrightarrow> (\<forall>k \<in> dom (RBT.lookup m). P k)"
  by (simp add: dom_entries)

lemma last_point_iff:
  "last_point m = Some (k, v) \<longleftrightarrow> RBT.lookup m k = Some v \<and> (\<forall>k' \<in> dom (RBT.lookup m). k' \<le> k)"
  "last_point m = None \<longleftrightarrow> dom (RBT.lookup m) = {}"
proof -
  show "last_point m = None \<longleftrightarrow> dom (RBT.lookup m) = {}" by (simp add: last_point_def entries_Nil_iff)
  show "last_point m = Some (k, v) \<longleftrightarrow> RBT.lookup m k = Some v \<and> (\<forall>k' \<in> dom (RBT.lookup m). k' \<le> k)"
  proof (cases "RBT.entries m = []")
    case True
    then show ?thesis using entries_Nil_iff [of m] by (auto simp: last_point_def)
  next
    case False
    then show ?thesis
      using last_sorted [OF RBT.sorted_entries RBT.distinct_entries False, of "(k, v)"]
        ball_entries [of m "\<lambda>k'. k' \<le> k"]
      by (simp add: last_point_def entries_iff)
  qed
qed

lemma before_upper_bound_iff:
  "before_upper_bound x m = Some (k, v) \<longleftrightarrow>
     RBT.lookup m k = Some v \<and> k \<le> x \<and> (\<forall>k' \<in> dom (RBT.lookup m). k' \<le> x \<longrightarrow> k' \<le> k)"
  "before_upper_bound x m = None \<longleftrightarrow> (\<forall>k' \<in> dom (RBT.lookup m). x < k')"
proof -
  define b where "b = takeWhile (\<lambda>e. fst e \<le> x) (RBT.entries m)"
  have s: "set b = {e \<in> set (RBT.entries m). fst e \<le> x}"
    unfolding b_def by (rule set_takeWhile_sorted [OF RBT.sorted_entries])
  have so: "sorted (map fst b)" "distinct (map fst b)"
    using RBT.sorted_entries [of m] RBT.distinct_entries [of m] unfolding b_def
    by (metis map_append sorted_append distinct_append takeWhile_dropWhile_id)+
  have all: "(\<forall>e \<in> set b. P (fst e)) \<longleftrightarrow> (\<forall>k \<in> dom (RBT.lookup m). k \<le> x \<longrightarrow> P k)" for P
    unfolding s using ball_entries [of m "\<lambda>k. k \<le> x \<longrightarrow> P k"] by auto
  have empty: "b = [] \<longleftrightarrow> (\<forall>k' \<in> dom (RBT.lookup m). x < k')"
  proof -
    have "b = [] \<longleftrightarrow> (\<forall>e \<in> set b. False)" by (cases b) auto
    also have "\<dots> \<longleftrightarrow> (\<forall>k \<in> dom (RBT.lookup m). k \<le> x \<longrightarrow> False)" by (rule all)
    finally show ?thesis by (simp add: not_le)
  qed
  then show "before_upper_bound x m = None \<longleftrightarrow> (\<forall>k' \<in> dom (RBT.lookup m). x < k')"
    by (simp add: before_upper_bound_def flip: b_def)
  show "before_upper_bound x m = Some (k, v) \<longleftrightarrow>
     RBT.lookup m k = Some v \<and> k \<le> x \<and> (\<forall>k' \<in> dom (RBT.lookup m). k' \<le> x \<longrightarrow> k' \<le> k)"
  proof (cases "b = []")
    case True
    then have "\<not> (RBT.lookup m k = Some v \<and> k \<le> x)" using empty by (auto simp: dom_def not_le)
    then show ?thesis using True by (auto simp: before_upper_bound_def simp flip: b_def)
  next
    case False
    have "(k, v) \<in> set b \<longleftrightarrow> RBT.lookup m k = Some v \<and> k \<le> x" by (simp add: s entries_iff)
    then show ?thesis
      using False last_sorted [OF so False, of "(k, v)"] all [of "\<lambda>k'. k' \<le> k"]
      by (simp add: before_upper_bound_def flip: b_def)
  qed
qed

text \<open>An alternative block is allowed exactly above height 0 and above every checkpoint the main chain
  has already reached.\<close>

lemma alternative_block_rule:
  "is_alternative_block_allowed blockchain_height block_height cp \<longleftrightarrow>
     block_height \<noteq> 0 \<and> (\<forall>c \<in> dom (RBT.lookup (m_points cp)). c \<le> blockchain_height \<longrightarrow> c < block_height)"
proof (cases "before_upper_bound blockchain_height (m_points cp)")
  case None
  then show ?thesis using before_upper_bound_iff(2) [of blockchain_height "m_points cp"]
    by (fastforce simp: is_alternative_block_allowed_def simp flip: not_less)
next
  case (Some e)
  then obtain k v where kv: "before_upper_bound blockchain_height (m_points cp) = Some (k, v)" by (cases e) simp
  then have k: "k \<in> dom (RBT.lookup (m_points cp))" "k \<le> blockchain_height"
    "\<And>c. c \<in> dom (RBT.lookup (m_points cp)) \<Longrightarrow> c \<le> blockchain_height \<Longrightarrow> c \<le> k"
    unfolding before_upper_bound_iff(1) by blast+
  have "k < block_height \<longleftrightarrow> (\<forall>c \<in> dom (RBT.lookup (m_points cp)). c \<le> blockchain_height \<longrightarrow> c < block_height)"
    using k by (meson le_less_trans)
  then show ?thesis using kv by (simp add: is_alternative_block_allowed_def)
qed

lemma alternative_block_rule_example:
  "let cp = checkpoints_new\<lparr>m_points := RBT.insert 7 [1] RBT.empty\<rparr>
   in \<not> is_alternative_block_allowed 10 7 cp \<and> is_alternative_block_allowed 10 8 cp \<and>
      is_alternative_block_allowed 6 2 cp"
  using alternative_block_rule [of 10 7 "checkpoints_new\<lparr>m_points := RBT.insert 7 [1] RBT.empty\<rparr>"]
    alternative_block_rule [of 10 8 "checkpoints_new\<lparr>m_points := RBT.insert 7 [1] RBT.empty\<rparr>"]
    alternative_block_rule [of 6 2 "checkpoints_new\<lparr>m_points := RBT.insert 7 [1] RBT.empty\<rparr>"]
  by (simp add: Let_def word_le_nat_alt word_less_nat_alt)

subsection \<open>Fixed hashes stay fixed\<close>

definition extends :: "checkpoints \<Rightarrow> checkpoints \<Rightarrow> bool" where
  "extends cp cp' \<longleftrightarrow> RBT.lookup (m_points cp) \<subseteq>\<^sub>m RBT.lookup (m_points cp')"

lemma extends_refl [simp]: "extends cp cp"
  by (simp add: extends_def)

lemma extends_trans: "extends cp cp' \<Longrightarrow> extends cp' cp'' \<Longrightarrow> extends cp cp''"
  unfolding extends_def by (rule map_le_trans)

lemma add_checkpoint_extends: "extends cp (snd (add_checkpoint parse height hash_str diff cp))"
  by (auto simp: add_checkpoint_def extends_def map_le_def Let_def split: option.splits)

lemma add_checkpoints_extends: "extends cp (snd (add_checkpoints parse points cp))"
proof (induction points arbitrary: cp)
  case (Cons p points)
  obtain height hash diff where p: "p = (height, hash, diff)" by (cases p)
  show ?case
    using add_checkpoint_extends [of cp parse height hash diff] Cons [of "snd (add_checkpoint parse height hash diff cp)"]
    by (auto simp: p split: prod.splits intro: extends_trans)
qed simp

inductive checkpoints_step :: "difficulty_parser \<Rightarrow> checkpoints \<Rightarrow> checkpoints \<Rightarrow> bool" for parse where
  step_add: "checkpoints_step parse cp (snd (add_checkpoint parse height hash_str difficulty_str cp))"
| step_init: "checkpoints_step parse cp (snd (init_default_checkpoints parse nettype cp))"
| step_json: "checkpoints_step parse cp (snd (load_checkpoints_from_json parse hf cp))"
| step_dns: "checkpoints_step parse cp (snd (load_checkpoints_from_dns parse load_txt nettype cp))"
| step_new: "checkpoints_step parse cp (snd (load_new_checkpoints parse load_txt hf nettype dns cp))"

lemma step_extends: "checkpoints_step parse cp cp' \<Longrightarrow> extends cp cp'"
proof (induction rule: checkpoints_step.cases)
  case (step_new cp load_txt hf nettype dns)
  let ?cp = "snd (load_checkpoints_from_json parse hf cp)"
  have "extends cp ?cp" "extends ?cp (snd (load_checkpoints_from_dns parse load_txt nettype ?cp))"
    by (auto simp: add_checkpoints_extends load_checkpoints_from_json_def load_checkpoints_from_dns_def Let_def
        split: hash_file.splits option.splits)
  then show ?case using step_new
    by (auto simp: load_new_checkpoints_def Let_def split: prod.splits intro: extends_trans)
qed (auto simp: add_checkpoint_extends add_checkpoints_extends init_default_checkpoints_def load_checkpoints_from_json_def
       load_checkpoints_from_dns_def Let_def split: hash_file.splits option.splits)


lemma reaches_extends: "reaches (checkpoints_step parse) cp cp' \<Longrightarrow> extends cp cp'"
  by (induction rule: reaches.induct) (auto intro: extends_trans step_extends)

text \<open>C13: however checkpoints are added or loaded, a hash fixed at a height stays fixed there, so a block the
  checkpoints reject is rejected ever after.\<close>

theorem checkpoint_rejection_permanent:
  assumes "reaches (checkpoints_step parse) cp cp'" "\<not> fst (check_block height h cp)"
  shows "\<not> fst (check_block height h cp') \<and> RBT.lookup (m_points cp') height = RBT.lookup (m_points cp) height"
proof -
  obtain h' where h': "RBT.lookup (m_points cp) height = Some h'" "h' \<noteq> h"
    using assms(2) by (auto simp: check_block_def Let_def split: if_splits)
  moreover have "RBT.lookup (m_points cp') height = Some h'"
    using reaches_extends [OF assms(1)] h'(1) by (auto simp: extends_def map_le_def dom_def)
  ultimately show ?thesis by (simp add: check_block_def Let_def)
qed


theorem checkpoint_rejection_permanent_witness:
  "let cp = snd (add_checkpoint (\<lambda>_. None) 7
              (map of_char ''0000000000000000000000000000000000000000000000000000000000000000'') [] checkpoints_new);
       cp' = snd (add_checkpoint (\<lambda>_. None) 7
              (map of_char ''1111111111111111111111111111111111111111111111111111111111111111'') [] cp)
   in \<not> fst (check_block 7 [1] cp') \<and> RBT.lookup (m_points cp') 7 = RBT.lookup (m_points cp) 7"
  unfolding Let_def
proof (rule checkpoint_rejection_permanent)
  show "reaches (checkpoints_step (\<lambda>_. None))
      (snd (add_checkpoint (\<lambda>_. None) 7 (map of_char ''0000000000000000000000000000000000000000000000000000000000000000'') [] checkpoints_new))
      (snd (add_checkpoint (\<lambda>_. None) 7 (map of_char ''1111111111111111111111111111111111111111111111111111111111111111'') []
        (snd (add_checkpoint (\<lambda>_. None) 7 (map of_char ''0000000000000000000000000000000000000000000000000000000000000000'') [] checkpoints_new))))"
    by (rule reaches_step, rule reaches_refl, rule step_add)
  show "\<not> fst (check_block 7 [1] (snd (add_checkpoint (\<lambda>_. None) 7
      (map of_char ''0000000000000000000000000000000000000000000000000000000000000000'') [] checkpoints_new)))"
    by (simp add: add_checkpoint_def hex_to_pod_def from_hex_to_buffer_def from_hex_to_buffer_unchecked_def
        HASH_SIZE_def isx_value checkpoints_new_def check_block_def)
qed

subsection \<open>The anchors of the main network\<close>

lemma anchors_parse: "list_all (\<lambda>(height, hash, diff). hex_to_pod HASH_SIZE hash \<noteq> None) mainnet_checkpoints"
  by (simp add: mainnet_checkpoints_def hex_to_pod_def from_hex_to_buffer_def from_hex_to_buffer_unchecked_def
      HASH_SIZE_def isx_value)


text \<open>Adding points at new, distinct heights succeeds and fixes exactly their hashes.\<close>

lemma add_checkpoints_new:
  assumes "distinct (map fst points)" "\<forall>(height, hash, diff) \<in> set points.
      hex_to_pod HASH_SIZE hash \<noteq> None \<and> parse diff \<noteq> None \<and> diff \<noteq> [] \<and>
      RBT.lookup (m_points cp) height = None \<and> RBT.lookup (m_difficulty_points cp) height = None"
  shows "\<exists>cp'. add_checkpoints parse points cp = (True, cp') \<and>
    RBT.lookup (m_points cp') = RBT.lookup (m_points cp) ++
      map_of (map (\<lambda>(height, hash, diff). (height, the (hex_to_pod HASH_SIZE hash))) points)"
  using assms
proof (induction points arbitrary: cp)
  case (Cons p points)
  obtain height hash diff where p: "p = (height, hash, diff)" by (cases p)
  obtain h d where h: "hex_to_pod HASH_SIZE hash = Some h" "parse diff = Some d" using Cons.prems(2) p by auto
  define cp1 where "cp1 = cp\<lparr>m_points := RBT.insert height h (m_points cp),
      m_difficulty_points := RBT.insert height d (m_difficulty_points cp)\<rparr>"
  have add: "add_checkpoint parse height hash diff cp = (True, cp1)"
    using Cons.prems(2) p h by (auto simp: add_checkpoint_def cp1_def Let_def)
  have new: "height \<notin> fst ` set points" using Cons.prems(1) p by simp
  then have "\<forall>(height, hash, diff) \<in> set points.
      hex_to_pod HASH_SIZE hash \<noteq> None \<and> parse diff \<noteq> None \<and> diff \<noteq> [] \<and>
      RBT.lookup (m_points cp1) height = None \<and> RBT.lookup (m_difficulty_points cp1) height = None"
    using Cons.prems(2) by (force simp: cp1_def)
  then obtain cp' where cp': "add_checkpoints parse points cp1 = (True, cp')"
    "RBT.lookup (m_points cp') = RBT.lookup (m_points cp1) ++
      map_of (map (\<lambda>(height, hash, diff). (height, the (hex_to_pod HASH_SIZE hash))) points)"
    using Cons.IH [of cp1] Cons.prems(1) by auto
  have "map_of (map (\<lambda>(height, hash, diff). (height, the (hex_to_pod HASH_SIZE hash))) points) height = None"
    using new by (force simp: map_of_eq_None_iff image_iff)
  then have *: "RBT.lookup (m_points cp') = RBT.lookup (m_points cp) ++
      map_of (map (\<lambda>(height, hash, diff). (height, the (hex_to_pod HASH_SIZE hash))) (p # points))"
    using cp'(2) h by (auto simp: p cp1_def fun_eq_iff map_add_def split: option.splits)
  have "add_checkpoints parse (p # points) cp = (True, cp')" using add cp'(1) by (simp add: p)
  then show ?case using * by blast
qed simp


lemma anchors_shape:
  "distinct (map fst mainnet_checkpoints)" "list_all (\<lambda>(height, hash, diff). diff \<noteq> []) mainnet_checkpoints"
  "list_all (\<lambda>c. fst c \<le> 110000) mainnet_checkpoints" "110000 \<in> fst ` set mainnet_checkpoints"
  by (simp_all add: mainnet_checkpoints_def word_le_nat_alt)

lemma points_lookup:
  assumes "distinct (map fst ps)" "list_all (\<lambda>(height, hash, diff). hex_to_pod HASH_SIZE hash \<noteq> None) ps"
  shows "map_of (map (\<lambda>(height, hash, diff). (height, the (hex_to_pod HASH_SIZE hash))) ps) c = Some x \<longleftrightarrow>
    (\<exists>hash diff. (c, hash, diff) \<in> set ps \<and> hex_to_pod HASH_SIZE hash = Some x)"
  using assms
proof (induction ps)
  case (Cons p ps)
  obtain height hash diff where p: "p = (height, hash, diff)" by (cases p)
  have "(height, hash', diff') \<notin> set ps" for hash' diff' using Cons.prems(1) p by (force simp: image_iff)
  then show ?case using Cons p by (cases "c = height") auto
qed simp

lemma check_block_accepts: "fst (check_block height h cp) \<longleftrightarrow> (\<forall>x. RBT.lookup (m_points cp) height = Some x \<longrightarrow> x = h)"
  by (auto simp: check_block_def Let_def)

text \<open>Where every difficulty of the list parses, a mainnet node starts with all nine anchors: a block is
  accepted by the checkpoints exactly if its hash is the anchored one at an anchored height, and the
  checkpoint zone ends at height 110000.\<close>

lemma mainnet_anchors:
  assumes "list_all (\<lambda>(height, hash, diff). parse diff \<noteq> None) mainnet_checkpoints"
  shows "\<exists>cp. init_default_checkpoints parse MAINNET checkpoints_new = (True, cp) \<and>
    (\<forall>height h. fst (check_block height h cp) \<longleftrightarrow>
       list_all (\<lambda>(c, hash, diff). height = c \<longrightarrow> hex_to_pod HASH_SIZE hash = Some h) mainnet_checkpoints) \<and>
    (\<forall>height. is_in_checkpoint_zone height cp \<longleftrightarrow> height \<le> 110000)"
proof -
  let ?m = "map (\<lambda>(height, hash, diff). (height, the (hex_to_pod HASH_SIZE hash))) mainnet_checkpoints"
  obtain cp where cp: "add_checkpoints parse mainnet_checkpoints checkpoints_new = (True, cp)"
    "RBT.lookup (m_points cp) = map_of ?m"
    using add_checkpoints_new [OF anchors_shape(1), of parse checkpoints_new] assms anchors_shape(2) anchors_parse
    by (fastforce simp: list_all_iff checkpoints_new_def)
  have look: "RBT.lookup (m_points cp) c = Some x \<longleftrightarrow>
      (\<exists>hash diff. (c, hash, diff) \<in> set mainnet_checkpoints \<and> hex_to_pod HASH_SIZE hash = Some x)" for c x
    unfolding cp(2) by (rule points_lookup [OF anchors_shape(1) anchors_parse])
  have "fst (check_block height h cp) \<longleftrightarrow>
      list_all (\<lambda>(c, hash, diff). height = c \<longrightarrow> hex_to_pod HASH_SIZE hash = Some h) mainnet_checkpoints" for height h
    unfolding check_block_accepts look using anchors_parse by (fastforce simp: list_all_iff)
  moreover have "is_in_checkpoint_zone height cp \<longleftrightarrow> height \<le> 110000" for height
  proof -
    have dom: "dom (RBT.lookup (m_points cp)) = fst ` set mainnet_checkpoints"
      using anchors_parse by (force simp: dom_def look list_all_iff image_iff)
    have "(110000 :: u64) \<in> dom (RBT.lookup (m_points cp))" unfolding dom by (rule anchors_shape(4))
    then obtain x where "RBT.lookup (m_points cp) 110000 = Some x" by blast
    then have "last_point (m_points cp) = Some (110000, x)"
      unfolding last_point_iff dom using anchors_shape(3) by (auto simp: list_all_iff)
    then show ?thesis by (simp add: is_in_checkpoint_zone_def)
  qed
  ultimately show ?thesis using cp(1) by (auto simp: init_default_checkpoints_def)
qed


lemma mainnet_anchors_example:
  "\<exists>cp. init_default_checkpoints (\<lambda>s. if take 2 s = [48, 120]
        then Some (foldl (\<lambda>v c. 16 * v + of_nat (isx ! unat c)) 0 (drop 2 s)) else None) MAINNET checkpoints_new = (True, cp) \<and>
    (\<forall>height h. fst (check_block height h cp) \<longleftrightarrow>
       list_all (\<lambda>(c, hash, diff). height = c \<longrightarrow> hex_to_pod HASH_SIZE hash = Some h) mainnet_checkpoints) \<and>
    (\<forall>height. is_in_checkpoint_zone height cp \<longleftrightarrow> height \<le> 110000)"
  by (rule mainnet_anchors) (simp add: mainnet_checkpoints_def)

end
