(* ===== verification/Block_Queue.thy ===== *)
theory Block_Queue
  imports Pruning
begin

section \<open>The queue of block spans (\<open>src/cryptonote_protocol/block_queue.cpp\<close>)\<close>

text \<open>
  The queue of spans of blocks that are scheduled with a peer or already downloaded. The
  \<open>std::set\<close> of spans, ordered by \<open>start_block_height\<close>, is the list of its elements in order;
  inserting a span whose start is already present does nothing, as in the library. Hashes,
  downloaded blocks and addresses are opaque byte strings, a connection identifier is its 128 bits
  and a time the ticks since \<open>min_date_time\<close>. The download rate is stored by its bit pattern: the two queries that
  average rates compute in floating point and are not modelled. Every operation that
  changes the queue holds the mutex for its whole body, and so does every query but \<open>has_spans\<close>, which takes no lock:
  a history of the queue is a sequence of calls, where a call of \<open>has_spans\<close> is taken to overlap with
  no change. A thrown check is \<open>None\<close>.
\<close>

type_synonym crypto_hash = bytes
type_synonym connection = "128 word"

record span =
  start_block_height :: u64
  span_hashes :: "crypto_hash list"
  span_blocks :: "bytes list"
  connection_id :: connection
  nblocks :: u64
  rate :: u32
  span_size :: u64
  time :: int
  origin :: bytes

definition min_date_time :: int where "min_date_time = 0"

definition filled_span :: "u64 \<Rightarrow> bytes list \<Rightarrow> connection \<Rightarrow> bytes \<Rightarrow> u32 \<Rightarrow> u64 \<Rightarrow> span" where
  "filled_span start bcel conn addr rt sz =
     \<lparr>start_block_height = start, span_hashes = [], span_blocks = bcel, connection_id = conn,
      nblocks = of_nat (length bcel), rate = rt, span_size = sz, time = min_date_time, origin = addr\<rparr>"

definition scheduled_span :: "u64 \<Rightarrow> u64 \<Rightarrow> connection \<Rightarrow> bytes \<Rightarrow> int \<Rightarrow> span" where
  "scheduled_span start n conn addr t =
     \<lparr>start_block_height = start, span_hashes = [], span_blocks = [], connection_id = conn,
      nblocks = n, rate = 0, span_size = 0, time = t, origin = addr\<rparr>"

record block_queue =
  blocks :: "span list"
  requested_hashes :: "crypto_hash set"
  have_blocks :: "crypto_hash \<Rightarrow> u64 option"

definition block_queue_new :: block_queue where
  "block_queue_new = \<lparr>blocks = [], requested_hashes = {}, have_blocks = Map.empty\<rparr>"

text \<open>\<open>blocks.insert(s)\<close>\<close>

fun set_insert :: "span \<Rightarrow> span list \<Rightarrow> span list" where
  "set_insert s [] = [s]"
| "set_insert s (t # ts) =
     (if start_block_height s < start_block_height t then s # t # ts
      else if start_block_height s = start_block_height t then t # ts
      else t # set_insert s ts)"

subsection \<open>Operations that change the queue\<close>

definition erase_block :: "span \<Rightarrow> block_queue \<Rightarrow> block_queue" where
  "erase_block j q =
     q\<lparr>requested_hashes := requested_hashes q - set (span_hashes j),
       have_blocks := have_blocks q |` (- set (span_hashes j)),
       blocks := filter (\<lambda>s. start_block_height s \<noteq> start_block_height j) (blocks q)\<rparr>"

definition erase_where :: "(span \<Rightarrow> bool) \<Rightarrow> block_queue \<Rightarrow> block_queue" where
  "erase_where P q = fold (\<lambda>j q. if P j then erase_block j q else q) (blocks q) q"

definition flush_spans :: "connection \<Rightarrow> bool \<Rightarrow> block_queue \<Rightarrow> block_queue" where
  "flush_spans conn all_spans =
     erase_where (\<lambda>j. connection_id j = conn \<and> (all_spans \<or> length (span_blocks j) = 0))"

definition flush_stale_spans :: "connection set \<Rightarrow> block_queue \<Rightarrow> block_queue" where
  "flush_stale_spans live_connections =
     erase_where (\<lambda>j. span_blocks j = [] \<and> connection_id j \<notin> live_connections)"

definition remove_span :: "u64 \<Rightarrow> block_queue \<Rightarrow> (bool \<times> crypto_hash list) \<times> block_queue" where
  "remove_span start q =
     (case find (\<lambda>i. start_block_height i = start) (blocks q) of
        None \<Rightarrow> ((False, []), q)
      | Some i \<Rightarrow> ((True, span_hashes i), erase_block i q))"

definition remove_spans :: "connection \<Rightarrow> u64 \<Rightarrow> block_queue \<Rightarrow> block_queue" where
  "remove_spans conn start =
     erase_where (\<lambda>j. connection_id j = conn \<and> start_block_height j \<le> start)"

definition set_span_hashes :: "u64 \<Rightarrow> connection \<Rightarrow> crypto_hash list \<Rightarrow> block_queue \<Rightarrow> block_queue" where
  "set_span_hashes start conn hashes q =
     (case find (\<lambda>i. start_block_height i = start \<and> connection_id i = conn) (blocks q) of
        None \<Rightarrow> q
      | Some i \<Rightarrow>
          let s = i\<lparr>span_hashes := hashes\<rparr>;
              q = erase_block i q;
              q = q\<lparr>requested_hashes := requested_hashes q \<union> set hashes\<rparr>
          in q\<lparr>blocks := set_insert s (blocks q)\<rparr>)"

text \<open>\<open>have_blocks.emplace\<close> keeps an entry that is already there.\<close>

definition emplace :: "crypto_hash \<Rightarrow> u64 \<Rightarrow> (crypto_hash \<Rightarrow> u64 option) \<Rightarrow> crypto_hash \<Rightarrow> u64 option" where
  "emplace h height m = (if m h = None then m(h \<mapsto> height) else m)"

fun note_hashes :: "crypto_hash list \<Rightarrow> u64 \<Rightarrow> block_queue \<Rightarrow> block_queue" where
  "note_hashes [] height q = q"
| "note_hashes (h # hashes) height q =
     note_hashes hashes (height + 1)
       (q\<lparr>requested_hashes := insert h (requested_hashes q), have_blocks := emplace h height (have_blocks q)\<rparr>)"

definition add_filled_blocks ::
  "u64 \<Rightarrow> bytes list \<Rightarrow> connection \<Rightarrow> bytes \<Rightarrow> u32 \<Rightarrow> u64 \<Rightarrow> block_queue \<Rightarrow> block_queue" where
  "add_filled_blocks height bcel conn addr rt sz q =
     (let ((has_hashes, hashes), q) = remove_span height q;
          q = q\<lparr>blocks := set_insert (filled_span height bcel conn addr rt sz) (blocks q)\<rparr>
      in if has_hashes then set_span_hashes height conn hashes (note_hashes hashes height q) else q)"

definition add_scheduled_blocks :: "u64 \<Rightarrow> u64 \<Rightarrow> connection \<Rightarrow> bytes \<Rightarrow> int \<Rightarrow> block_queue \<Rightarrow> block_queue option" where
  "add_scheduled_blocks height n conn addr t q =
     (if \<not> 0 < n then None
      else Some (q\<lparr>blocks := set_insert (scheduled_span height n conn addr t) (blocks q)\<rparr>))"

definition reset_next_span_time :: "int \<Rightarrow> block_queue \<Rightarrow> block_queue option" where
  "reset_next_span_time t q =
     (case blocks q of [] \<Rightarrow> None
      | i # rest \<Rightarrow> if span_blocks i \<noteq> [] then None else Some (q\<lparr>blocks := i\<lparr>time := t\<rparr> # rest\<rparr>))"

subsection \<open>Reserving a span\<close>

definition requested :: "crypto_hash \<Rightarrow> block_queue \<Rightarrow> bool" where
  "requested hash q = (hash \<in> requested_hashes q)"

text \<open>
  Skipping requested hashes: the rest of the hashes and the height of its first one. Then the
  hashes of the span, up to \<open>max_blocks\<close> of them (here the number still allowed).
\<close>

fun skip_requested :: "block_queue \<Rightarrow> (crypto_hash \<times> u64) list \<Rightarrow> u64 \<Rightarrow> (crypto_hash \<times> u64) list \<times> u64" where
  "skip_requested q [] height = ([], height)"
| "skip_requested q (i # rest) height =
     (if requested (fst i) q then skip_requested q rest (height + 1) else (i # rest, height))"

fun take_span :: "(u64 \<Rightarrow> bool) \<Rightarrow> (crypto_hash \<times> u64) list \<Rightarrow> nat \<Rightarrow> u64 \<Rightarrow> crypto_hash list" where
  "take_span ok (i # rest) (Suc n) height =
     (if ok height then fst i # take_span ok rest n (height + 1) else [])"
| "take_span ok _ _ height = []"

definition span_block_ok :: "bool \<Rightarrow> u32 \<Rightarrow> u32 \<Rightarrow> u64 \<Rightarrow> bool \<Rightarrow> u64 \<Rightarrow> bool" where
  "span_block_ok sync_pruned_blocks local_pruning_seed pruning_seed blockchain_height first_is_pruned height =
     ((sync_pruned_blocks \<or> has_unpruned_block height blockchain_height pruning_seed) \<and>
      \<not> (sync_pruned_blocks \<and> first_is_pruned = has_unpruned_block height blockchain_height local_pruning_seed))"

definition reserve_span ::
  "u64 \<Rightarrow> u64 \<Rightarrow> u64 \<Rightarrow> connection \<Rightarrow> bytes \<Rightarrow> bool \<Rightarrow> u32 \<Rightarrow> u32 \<Rightarrow> u64 \<Rightarrow> (crypto_hash \<times> u64) list \<Rightarrow> int \<Rightarrow>
   block_queue \<Rightarrow> ((u64 \<times> u64) \<times> block_queue) option" where
  "reserve_span first_block_height last_block_height max_blocks conn addr sync_pruned_blocks
     local_pruning_seed pruning_seed blockchain_height block_hashes t q =
     (if last_block_height < first_block_height \<or> max_blocks = 0 then Some ((0, 0), q)
      else if last_block_height < of_nat (length block_hashes) then Some ((0, 0), q)
      else let block_hashes_start_height = last_block_height - of_nat (length block_hashes) + 1;
               (_, span_start_height) = skip_requested q block_hashes block_hashes_start_height;
               span_start_height =
                 (if \<not> sync_pruned_blocks
                  then let next_unpruned_height =
                             ucast (ucast (get_next_unpruned_block_height span_start_height blockchain_height pruning_seed) :: u32)
                       in if span_start_height < next_unpruned_height \<and>
                             next_unpruned_height < span_start_height + CRYPTONOTE_PRUNING_STRIPE_SIZE
                          then next_unpruned_height else span_start_height
                  else span_start_height)
           in if of_nat (length block_hashes) + block_hashes_start_height \<le> span_start_height then Some ((0, 0), q)
              else let (rest, span_start_height) =
                         skip_requested q (drop (unat (span_start_height - block_hashes_start_height)) block_hashes)
                           span_start_height;
                       first_is_pruned = (sync_pruned_blocks \<and>
                         \<not> has_unpruned_block span_start_height blockchain_height local_pruning_seed);
                       hashes = take_span (span_block_ok sync_pruned_blocks local_pruning_seed pruning_seed
                                  blockchain_height first_is_pruned) rest (unat max_blocks) span_start_height;
                       span_length = of_nat (length hashes)
                   in if span_length = 0 then Some ((0, 0), q)
                      else case add_scheduled_blocks span_start_height span_length conn addr t q of None \<Rightarrow> None
                           | Some q \<Rightarrow> Some ((span_start_height, span_length),
                                             set_span_hashes span_start_height conn hashes q))"

subsection \<open>Queries\<close>

definition get_max_block_height :: "block_queue \<Rightarrow> u64" where
  "get_max_block_height q =
     fold (\<lambda>s height. let h = start_block_height s + nblocks s - 1 in if height < h then h else height) (blocks q) 0"

fun needed_from :: "u64 \<Rightarrow> span list \<Rightarrow> u64 \<Rightarrow> u64" where
  "needed_from blockchain_height [] covered_until = covered_until"
| "needed_from blockchain_height (s # rest) covered_until =
     (let span_end = start_block_height s + nblocks s - 1
      in if span_end < blockchain_height then needed_from blockchain_height rest covered_until
         else if covered_until < start_block_height s then covered_until
         else needed_from blockchain_height rest (max covered_until (start_block_height s + nblocks s)))"

definition get_next_needed_height :: "u64 \<Rightarrow> block_queue \<Rightarrow> u64" where
  "get_next_needed_height blockchain_height q =
     (if blocks q = [] then blockchain_height else needed_from blockchain_height (blocks q) blockchain_height)"

definition have_hash :: "crypto_hash \<Rightarrow> block_queue \<Rightarrow> bool" where
  "have_hash hash q = (have_blocks q hash \<noteq> None)"

definition have_height :: "crypto_hash \<Rightarrow> block_queue \<Rightarrow> u64" where
  "have_height hash q = (case have_blocks q hash of None \<Rightarrow> - 1 | Some height \<Rightarrow> height)"

text \<open>\<open>None\<close> stands for the pair \<open>(0, 0)\<close>, with the reference parameters left alone.\<close>

definition get_next_span_if_scheduled :: "block_queue \<Rightarrow> ((u64 \<times> u64) \<times> crypto_hash list \<times> connection \<times> int) option" where
  "get_next_span_if_scheduled q =
     (case blocks q of [] \<Rightarrow> None
      | i # _ \<Rightarrow> if span_blocks i \<noteq> [] then None
                 else Some ((start_block_height i, nblocks i), span_hashes i, connection_id i, time i))"

definition get_next_span :: "bool \<Rightarrow> block_queue \<Rightarrow> (u64 \<times> bytes list \<times> connection \<times> bytes) option" where
  "get_next_span filled q =
     map_option (\<lambda>i. (start_block_height i, span_blocks i, connection_id i, origin i))
       (find (\<lambda>i. \<not> filled \<or> span_blocks i \<noteq> []) (blocks q))"

definition has_next_span_of :: "connection \<Rightarrow> block_queue \<Rightarrow> (bool \<times> int) option" where
  "has_next_span_of conn q =
     (case blocks q of [] \<Rightarrow> None
      | i # _ \<Rightarrow> if connection_id i \<noteq> conn then None else Some (span_blocks i \<noteq> [], time i))"

definition has_next_span_at :: "u64 \<Rightarrow> block_queue \<Rightarrow> (bool \<times> int \<times> connection) option" where
  "has_next_span_at height q =
     (case blocks q of [] \<Rightarrow> None
      | i # _ \<Rightarrow> if height < start_block_height i then None else Some (span_blocks i \<noteq> [], time i, connection_id i))"

definition get_data_size :: "block_queue \<Rightarrow> u64" where
  "get_data_size q = sum_list (map span_size (blocks q))"

definition get_num_filled_spans_prefix :: "block_queue \<Rightarrow> nat" where
  "get_num_filled_spans_prefix q = length (takeWhile (\<lambda>i. span_blocks i \<noteq> []) (blocks q))"

definition get_num_filled_spans :: "block_queue \<Rightarrow> nat" where
  "get_num_filled_spans q = length (filter (\<lambda>i. span_blocks i \<noteq> []) (blocks q))"

text \<open>\<open>hashes.back()\<close> of an empty vector is undefined behaviour: \<open>None\<close>.\<close>

definition get_last_known_hash :: "connection \<Rightarrow> block_queue \<Rightarrow> crypto_hash option" where
  "get_last_known_hash conn q =
     map_option fst (fold (\<lambda>s r. case r of None \<Rightarrow> None | Some (hash, highest_height) \<Rightarrow>
         if connection_id s \<noteq> conn then r
         else let h = start_block_height s + nblocks s - 1
              in if highest_height < h \<and> of_nat (length (span_hashes s)) = nblocks s
                 then (if span_hashes s = [] then None else Some (last (span_hashes s), h)) else r)
       (blocks q) (Some (replicate 32 0, 0)))"

definition has_spans :: "connection \<Rightarrow> block_queue \<Rightarrow> bool" where
  "has_spans conn q = list_ex (\<lambda>s. connection_id s = conn) (blocks q)"

fun overview_from :: "u64 \<Rightarrow> span list \<Rightarrow> u64 \<Rightarrow> string" where
  "overview_from blockchain_height [] expected = '']''"
| "overview_from blockchain_height (i # rest) expected =
     (if start_block_height i < expected then ''<'' @ overview_from blockchain_height rest expected
      else (if expected < start_block_height i
            then replicate (unat (max 1 ((start_block_height i - expected) div (if nblocks i \<noteq> 0 then nblocks i else 1)))) (CHR ''_'')
            else []) @
           (if span_blocks i = [] then ''.'' else if start_block_height i = blockchain_height then ''m'' else ''o'') @
           overview_from blockchain_height rest (start_block_height i + nblocks i))"

definition get_overview :: "u64 \<Rightarrow> block_queue \<Rightarrow> string" where
  "get_overview blockchain_height q =
     (if blocks q = [] then ''[]'' else ''['' @ overview_from blockchain_height (blocks q) blockchain_height)"

definition foreach :: "(span \<Rightarrow> bool) \<Rightarrow> block_queue \<Rightarrow> bool" where
  "foreach f q = list_all f (blocks q)"

subsection \<open>The set of spans\<close>

abbreviation starts :: "span list \<Rightarrow> u64 list" where
  "starts \<equiv> map start_block_height"

lemma set_insert_set:
  "sorted_wrt (<) (starts ts) \<Longrightarrow>
   set (set_insert s ts) = (if start_block_height s \<in> set (starts ts) then set ts else insert s (set ts))"
  by (induction ts) auto

lemma set_insert_sorted: "sorted_wrt (<) (starts ts) \<Longrightarrow> sorted_wrt (<) (starts (set_insert s ts))"
  by (induction ts) (auto simp: set_insert_set split: if_splits)

lemma starts_unique:
  "sorted_wrt (<) (starts ts) \<Longrightarrow> s \<in> set ts \<Longrightarrow> t \<in> set ts \<Longrightarrow> start_block_height s = start_block_height t \<Longrightarrow> s = t"
  by (induction ts) auto

lemma sorted_filter: "sorted_wrt (<) (starts ts) \<Longrightarrow> sorted_wrt (<) (starts (filter P ts))"
  by (induction ts) auto

subsection \<open>The invariant and the steps\<close>

definition queued_hashes :: "block_queue \<Rightarrow> crypto_hash set" where
  "queued_hashes q = (\<Union>s \<in> set (blocks q). set (span_hashes s))"

definition queue_inv :: "block_queue \<Rightarrow> bool" where
  "queue_inv q \<longleftrightarrow> sorted_wrt (<) (starts (blocks q)) \<and> requested_hashes q \<subseteq> queued_hashes q \<and>
     dom (have_blocks q) \<subseteq> requested_hashes q"

text \<open>Erasing several spans at once.\<close>

definition hashes_of :: "(span \<Rightarrow> bool) \<Rightarrow> span list \<Rightarrow> crypto_hash set" where
  "hashes_of P js = set (concat (map span_hashes (filter P js)))"

lemma erase_fold:
  "fold (\<lambda>j q. if P j then erase_block j q else q) js q =
     q\<lparr>requested_hashes := requested_hashes q - hashes_of P js,
       have_blocks := have_blocks q |` (- hashes_of P js),
       blocks := filter (\<lambda>s. \<forall>j \<in> set js. P j \<longrightarrow> start_block_height s \<noteq> start_block_height j) (blocks q)\<rparr>"
proof (induction js arbitrary: q)
  case (Cons j js)
  have "- hashes_of P (j # js) = (if P j then - set (span_hashes j) else UNIV) \<inter> - hashes_of P js"
    by (auto simp: hashes_of_def)
  moreover have "A - hashes_of P (j # js) = (if P j then A - set (span_hashes j) else A) - hashes_of P js" for A
    by (auto simp: hashes_of_def)
  ultimately show ?case
    by (cases "P j") (simp_all add: Cons erase_block_def conj_commute)
qed (simp add: hashes_of_def restrict_map_def)

lemma erase_where_eq:
  assumes "sorted_wrt (<) (starts (blocks q))"
  shows "erase_where P q =
     q\<lparr>requested_hashes := requested_hashes q - hashes_of P (blocks q),
       have_blocks := have_blocks q |` (- hashes_of P (blocks q)),
       blocks := filter (\<lambda>s. \<not> P s) (blocks q)\<rparr>"
proof -
  have "filter (\<lambda>s. \<forall>j \<in> set (blocks q). P j \<longrightarrow> start_block_height s \<noteq> start_block_height j) (blocks q) =
      filter (\<lambda>s. \<not> P s) (blocks q)"
    using starts_unique [OF assms] by (intro filter_cong) auto
  then show ?thesis by (simp add: erase_where_def erase_fold)
qed

lemma erase_where_inv: "queue_inv q \<Longrightarrow> queue_inv (erase_where P q)"
  by (auto simp: queue_inv_def erase_where_eq sorted_filter queued_hashes_def hashes_of_def; blast)

lemma erase_block_where:
  assumes "sorted_wrt (<) (starts (blocks q))" "j \<in> set (blocks q)"
  shows "erase_block j q = erase_where (\<lambda>s. s = j) q"
proof -
  have "filter (\<lambda>s. start_block_height s \<noteq> start_block_height j) (blocks q) = filter (\<lambda>s. s \<noteq> j) (blocks q)"
    using starts_unique [OF assms(1)] assms(2) by (intro filter_cong) auto
  moreover have "hashes_of (\<lambda>s. s = j) (blocks q) = set (span_hashes j)"
    using assms(2) by (auto simp: hashes_of_def)
  ultimately show ?thesis using assms(1) by (simp add: erase_where_eq erase_block_def)
qed


lemma erase_block_inv: "queue_inv q \<Longrightarrow> j \<in> set (blocks q) \<Longrightarrow> queue_inv (erase_block j q)"
  using erase_block_where erase_where_inv by (metis queue_inv_def)

lemma erase_block_blocks [simp]:
  "blocks (erase_block j q) = filter (\<lambda>s. start_block_height s \<noteq> start_block_height j) (blocks q)"
  by (simp add: erase_block_def)

lemma insert_span_inv:
  assumes "queue_inv q" "span_hashes s = []"
  shows "queue_inv (q\<lparr>blocks := set_insert s (blocks q)\<rparr>)"
  using assms set_insert_set [of "blocks q" s]
  by (auto simp: queue_inv_def set_insert_sorted queued_hashes_def)

text \<open>Giving a span its hashes; the hashes may have been marked as requested before.\<close>

lemma find_SomeD: "find P xs = Some x \<Longrightarrow> x \<in> set xs \<and> P x"
  by (auto simp: find_Some_iff)

lemma set_span_hashes_inv:
  assumes i: "find (\<lambda>i. start_block_height i = start \<and> connection_id i = conn) (blocks q) = Some i"
    and s: "sorted_wrt (<) (starts (blocks q))"
    and r: "requested_hashes q \<subseteq> queued_hashes q \<union> set hashes" "dom (have_blocks q) \<subseteq> requested_hashes q"
  shows "queue_inv (set_span_hashes start conn hashes q)"
proof -
  let ?s = "i\<lparr>span_hashes := hashes\<rparr>"
  let ?others = "filter (\<lambda>t. start_block_height t \<noteq> start_block_height i) (blocks q)"
  let ?q = "set_span_hashes start conn hashes q"
  have mem: "i \<in> set (blocks q)" using find_SomeD [OF i] by simp
  have others: "sorted_wrt (<) (starts ?others)" by (rule sorted_filter [OF s])
  have q: "blocks ?q = set_insert ?s ?others" "requested_hashes ?q = requested_hashes q - set (span_hashes i) \<union> set hashes"
    "have_blocks ?q = have_blocks q |` (- set (span_hashes i))"
    using i by (simp_all add: set_span_hashes_def Let_def erase_block_def)
  have "set (blocks ?q) = insert ?s (set ?others)" unfolding q using set_insert_set [OF others, of ?s] by auto
  then have hashes: "queued_hashes ?q = set hashes \<union> (\<Union>t \<in> set ?others. set (span_hashes t))"
    by (simp add: queued_hashes_def)
  have "queued_hashes q \<subseteq> set (span_hashes i) \<union> (\<Union>t \<in> set ?others. set (span_hashes t))"
    using starts_unique [OF s _ mem] unfolding queued_hashes_def by fastforce
  then have "requested_hashes ?q \<subseteq> queued_hashes ?q" unfolding q hashes using r(1) by blast
  moreover have "dom (have_blocks ?q) \<subseteq> requested_hashes ?q" unfolding q using r(2) by auto
  moreover have "sorted_wrt (<) (starts (blocks ?q))" unfolding q by (rule set_insert_sorted [OF others])
  ultimately show ?thesis by (simp add: queue_inv_def)
qed

lemma set_span_hashes_keeps_inv: "queue_inv q \<Longrightarrow> queue_inv (set_span_hashes start conn hashes q)"
proof (cases "find (\<lambda>i. start_block_height i = start \<and> connection_id i = conn) (blocks q)")
  case None
  then show "queue_inv q \<Longrightarrow> ?thesis" by (simp add: set_span_hashes_def)
next
  case (Some i)
  then show "queue_inv q \<Longrightarrow> ?thesis" by (rule set_span_hashes_inv) (auto simp: queue_inv_def)
qed

lemma note_hashes_effect:
  "blocks (note_hashes hashes height q) = blocks q"
  "requested_hashes (note_hashes hashes height q) = requested_hashes q \<union> set hashes"
  "dom (have_blocks (note_hashes hashes height q)) = dom (have_blocks q) \<union> set hashes"
  by (induction hashes arbitrary: height q) (auto simp: emplace_def)


lemma find_inserted:
  assumes "sorted_wrt (<) (starts ts)" "start_block_height s \<notin> set (starts ts)" "P s" "\<And>t. P t \<Longrightarrow> start_block_height t = start_block_height s"
  shows "find P (set_insert s ts) = Some s"
  using assms(1,2)
proof (induction ts)
  case (Cons t ts)
  then have "\<not> P t" using assms(4) [of t] by auto
  then show ?case using Cons assms(3) by auto
qed (simp add: assms(3))

lemma add_filled_blocks_inv:
  assumes "queue_inv q"
  shows "queue_inv (add_filled_blocks height bcel conn addr rt sz q)"
proof (cases "find (\<lambda>i. start_block_height i = height) (blocks q)")
  case None
  then show ?thesis using insert_span_inv [OF assms] 
    by (simp add: add_filled_blocks_def remove_span_def filled_span_def)
next
  case (Some i)
  let ?s = "filled_span height bcel conn addr rt sz"
  have i: "i \<in> set (blocks q)" "start_block_height i = height" using find_SomeD [OF Some] by simp_all
  define q1 where "q1 = erase_block i q"
  define q2 where "q2 = q1\<lparr>blocks := set_insert ?s (blocks q1)\<rparr>"
  have q1: "queue_inv q1" "height \<notin> set (starts (blocks q1))"
    using erase_block_inv [OF assms i(1)] i(2) by (auto simp: q1_def)
  then have q2: "queue_inv q2" unfolding q2_def by (intro insert_span_inv) (simp_all add: filled_span_def)
  let ?q3 = "note_hashes (span_hashes i) height q2"
  have "find (\<lambda>j. start_block_height j = height \<and> connection_id j = conn) (blocks ?q3) = Some ?s"
    unfolding note_hashes_effect q2_def using q1
    by (simp, intro find_inserted) (auto simp: filled_span_def queue_inv_def)
  then have "queue_inv (set_span_hashes height conn (span_hashes i) ?q3)"
    by (rule set_span_hashes_inv) (use q2 in \<open>auto simp: note_hashes_effect queue_inv_def queued_hashes_def\<close>)
  then show ?thesis using Some
    by (simp add: add_filled_blocks_def remove_span_def q1_def q2_def)
qed

lemma reserve_span_inv:
  assumes "queue_inv q" "reserve_span fst_h lst_h mx conn addr sync lseed seed bch hs t q = Some (r, q')"
  shows "queue_inv q'"
proof -
  consider "q' = q" | start hashes q1 n where "add_scheduled_blocks start n conn addr t q = Some q1" "q' = set_span_hashes start conn hashes q1"
    using assms(2) unfolding reserve_span_def Let_def by (auto split: if_splits prod.splits option.splits)
  then show ?thesis
  proof cases
    case 2
    then have "queue_inv q1"
      using insert_span_inv [OF assms(1)] by (auto simp: add_scheduled_blocks_def scheduled_span_def split: if_splits)
    then show ?thesis using 2 by (simp add: set_span_hashes_keeps_inv)
  qed (use assms in simp)
qed

inductive queue_step :: "block_queue \<Rightarrow> block_queue \<Rightarrow> bool" where
  "queue_step q (add_filled_blocks height bcel conn addr rt sz q)"
| "add_scheduled_blocks height n conn addr t q = Some q' \<Longrightarrow> queue_step q q'"
| "queue_step q (flush_spans conn all_spans q)"
| "queue_step q (flush_stale_spans live_connections q)"
| "queue_step q (snd (remove_span start q))"
| "queue_step q (remove_spans conn start q)"
| "reserve_span fst_h lst_h mx conn addr sync lseed seed bch hs t q = Some (r, q') \<Longrightarrow> queue_step q q'"
| "reset_next_span_time t q = Some q' \<Longrightarrow> queue_step q q'"
| "queue_step q (set_span_hashes start conn hashes q)"

lemma queue_step_inv: "queue_step q q' \<Longrightarrow> queue_inv q \<Longrightarrow> queue_inv q'"
proof (induction rule: queue_step.induct)
  case (2 height n conn addr t q q')
  then show ?case using insert_span_inv by (auto simp: add_scheduled_blocks_def scheduled_span_def split: if_splits)
next
  case (5 q start)
  then show ?case using erase_block_inv find_SomeD by (fastforce simp: remove_span_def split: option.splits)
next
  case (8 t q q')
  then show ?case by (auto simp: reset_next_span_time_def queue_inv_def queued_hashes_def split: list.splits if_splits; blast)
qed (simp_all add: add_filled_blocks_inv flush_spans_def flush_stale_spans_def remove_spans_def erase_where_inv
       set_span_hashes_keeps_inv reserve_span_inv)

interpretation queue: transition_system "\<lambda>q. q = block_queue_new" queue_step queue_inv
proof unfold_locales
  show "q = block_queue_new \<Longrightarrow> queue_inv q" for q by (simp add: queue_inv_def block_queue_new_def queued_hashes_def)
qed (rule queue_step_inv)

text \<open>C12: in every history of calls on the queue the spans stay ordered by distinct starts, every hash marked as
  requested belongs to a span of the queue, and every hash recorded as downloaded is marked as requested.\<close>

theorem queue_consistent:
  assumes "reaches queue_step block_queue_new q"
  shows "sorted_wrt (<) (map start_block_height (blocks q)) \<and>
    (\<forall>h. requested h q \<longrightarrow> (\<exists>s \<in> set (blocks q). h \<in> set (span_hashes s))) \<and>
    (\<forall>h. have_hash h q \<longrightarrow> requested h q)"
  using queue.inv_reachable [OF refl assms]
  by (auto simp: queue_inv_def queued_hashes_def requested_def have_hash_def dom_def)


theorem queue_consistent_witness:
  "let q = flush_spans 1 True (add_filled_blocks 5 [[0]] 1 [] 0 10 block_queue_new)
   in sorted_wrt (<) (map start_block_height (blocks q)) \<and>
    (\<forall>h. requested h q \<longrightarrow> (\<exists>s \<in> set (blocks q). h \<in> set (span_hashes s))) \<and>
    (\<forall>h. have_hash h q \<longrightarrow> requested h q)"
  unfolding Let_def
  by (rule queue_consistent)
     (rule reaches_step, rule reaches_step, rule reaches_refl, rule queue_step.intros, rule queue_step.intros)

subsection \<open>The next height to ask for\<close>

definition covers :: "span \<Rightarrow> nat \<Rightarrow> bool" where
  "covers s h \<longleftrightarrow> unat (start_block_height s) \<le> h \<and> h < unat (start_block_height s) + unat (nblocks s)"

lemma needed_from_spec:
  assumes "sorted_wrt (<) (starts ss)" "\<forall>s \<in> set ss. unat (start_block_height s) + unat (nblocks s) < 2 ^ 64"
    "bh \<le> c"
  defines "r \<equiv> needed_from bh ss c"
  shows "c \<le> r \<and> (\<forall>h. unat c \<le> h \<and> h < unat r \<longrightarrow> (\<exists>s \<in> set ss. covers s h)) \<and> (\<forall>s \<in> set ss. \<not> covers s (unat r))"
  using assms(1-3) unfolding r_def
proof (induction ss arbitrary: c)
  case (Cons s ss)
  let ?e = "start_block_height s + nblocks s"
  have e: "unat ?e = unat (start_block_height s) + unat (nblocks s)"
    using Cons.prems(2) by (intro unat_plus_exact) simp
  show ?case
  proof (cases "?e - 1 < bh")
    case True
    have "?e \<le> bh"
    proof (cases "?e = 0")
      case False
      then have "unat (?e - 1) = unat ?e - 1" by (subst unat_minus_exact) (simp_all add: word_le_nat_alt unat_gt_0 Suc_le_eq)
      then show ?thesis using True by (simp add: word_less_nat_alt word_le_nat_alt)
    qed simp
    then have "?e \<le> c" using Cons.prems(3) by (rule order_trans)
    then show ?thesis using Cons.IH [of c] Cons.prems True e
      by (auto simp: Let_def covers_def word_le_nat_alt)
  next
    case False
    show ?thesis
    proof (cases "c < start_block_height s")
      case True
      then have "\<not> covers t (unat c)" if "t \<in> set (s # ss)" for t
        using that Cons.prems(1) by (auto simp: covers_def word_less_nat_alt)
      then show ?thesis using False True by (auto simp: Let_def)
    next
      case gap: False
      define r' where "r' = needed_from bh ss (max c ?e)"
      have r: "needed_from bh (s # ss) c = r'" using False gap by (simp add: Let_def r'_def)
      have IH: "max c ?e \<le> r'" "\<forall>h. unat (max c ?e) \<le> h \<and> h < unat r' \<longrightarrow> (\<exists>s \<in> set ss. covers s h)"
        "\<forall>s \<in> set ss. \<not> covers s (unat r')"
        using Cons.IH [of "max c ?e"] Cons.prems by (auto simp: r'_def le_max_iff_disj)
      have "?e \<le> r'" using IH(1) by simp
      then have "\<not> covers s (unat r')" using e by (simp add: covers_def word_le_nat_alt)
      moreover have "covers s h" if "unat c \<le> h" "h < unat (max c ?e)" for h
        using that gap e by (auto simp: covers_def max_def word_less_nat_alt word_le_nat_alt split: if_splits)
      moreover have "c \<le> r'" using IH(1) by simp
      moreover have "\<exists>t \<in> set (s # ss). covers t h" if "unat c \<le> h" "h < unat r'" for h
        using that calculation(2) [of h] IH(2) by (cases "h < unat (max c ?e)") (auto simp: not_less)
      ultimately show ?thesis unfolding r using IH(3) by simp
    qed
  qed
qed simp

text \<open>C16: the next needed height is the least height from the chain's height on that no span of the queue
  covers, for every reachable queue whose spans end below the largest 64-bit height.\<close>

theorem next_needed_height_least:
  fixes blockchain_height :: u64
  assumes "reaches queue_step block_queue_new q"
    "\<forall>s \<in> set (blocks q). unat (start_block_height s) + unat (nblocks s) < 2 ^ 64"
  defines "r \<equiv> get_next_needed_height blockchain_height q"
  shows "blockchain_height \<le> r \<and> (\<forall>s \<in> set (blocks q). \<not> covers s (unat r)) \<and>
    (\<forall>h. unat blockchain_height \<le> h \<and> h < unat r \<longrightarrow> (\<exists>s \<in> set (blocks q). covers s h))"
  using queue.inv_reachable [OF refl assms(1)] needed_from_spec [OF _ assms(2) order_refl, of blockchain_height]
  by (auto simp: r_def get_next_needed_height_def queue_inv_def)

theorem next_needed_height_least_witness:
  "let q = add_filled_blocks 5 [[0], [1]] 1 [] 0 10 block_queue_new; r = get_next_needed_height 5 q
   in r = 7 \<and> 5 \<le> r \<and> (\<forall>s \<in> set (blocks q). \<not> covers s (unat r)) \<and>
     (\<forall>h. unat (5 :: u64) \<le> h \<and> h < unat r \<longrightarrow> (\<exists>s \<in> set (blocks q). covers s h))"
proof -
  let ?q = "add_filled_blocks 5 [[0], [1]] 1 [] 0 10 block_queue_new"
  have b: "blocks ?q = [filled_span 5 [[0], [1]] 1 [] 0 10]"
    by (simp add: add_filled_blocks_def remove_span_def block_queue_new_def)
  have "reaches queue_step block_queue_new ?q"
    by (rule reaches_step, rule reaches_refl, rule queue_step.intros)
  from next_needed_height_least [OF this, of 5] show ?thesis
    by (simp add: b filled_span_def get_next_needed_height_def)
qed

subsection \<open>Reserved spans\<close>

lemma skip_requested_drop:
  "\<exists>k \<le> length hs. skip_requested q hs height = (drop k hs, height + of_nat k) \<and>
     (k < length hs \<longrightarrow> \<not> requested (fst (hs ! k)) q)"
proof (induction hs arbitrary: height)
  case (Cons i hs)
  show ?case
  proof (cases "requested (fst i) q")
    case True
    obtain k where "k \<le> length hs" "skip_requested q hs (height + 1) = (drop k hs, height + 1 + of_nat k)"
      "k < length hs \<longrightarrow> \<not> requested (fst (hs ! k)) q" using Cons [of "height + 1"] by blast
    then show ?thesis using True by (intro exI [of _ "Suc k"]) (simp add: add.assoc)
  next
    case False
    then show ?thesis by (intro exI [of _ 0]) simp
  qed
qed simp

lemma take_span_numeral:
  "take_span ok (i # rest) (numeral m) height = (if ok height then fst i # take_span ok rest (pred_numeral m) (height + 1) else [])"
  by (simp add: numeral_eq_Suc)

lemma take_span_spec:
  "take_span ok hs n height = map fst (take (length (take_span ok hs n height)) hs) \<and>
   length (take_span ok hs n height) \<le> length hs \<and> length (take_span ok hs n height) \<le> n \<and>
   (\<forall>i < length (take_span ok hs n height). ok (height + of_nat i))"
proof (induction ok hs n height rule: take_span.induct)
  case (1 ok i rest n height)
  then show ?case by (auto simp: less_Suc_eq_0_disj add.assoc)
qed simp_all

text \<open>The stages of \<open>reserve_span\<close> on success: \<open>s2\<close> is the start after the jump to the peer's stripe.\<close>

lemma reserve_span_stages:
  assumes r: "reserve_span fbh lbh mx conn addr sync lseed seed bch hs t q = Some ((start, n), q')" "n \<noteq> 0"
  defines "s0 \<equiv> lbh - of_nat (length hs) + 1"
  obtains k1 s2 k2 ok hashes where "\<not> lbh < of_nat (length hs)" "k1 \<le> length hs"
    "s2 = s0 + of_nat k1 \<or> s0 + of_nat k1 < s2" "s2 < of_nat (length hs) + s0"
    "k2 \<le> length (drop (unat (s2 - s0)) hs)"
    "k2 < length (drop (unat (s2 - s0)) hs) \<longrightarrow> \<not> requested (fst (drop (unat (s2 - s0)) hs ! k2)) q"
    "start = s2 + of_nat k2" "hashes = take_span ok (drop k2 (drop (unat (s2 - s0)) hs)) (unat mx) start"
    "n = of_nat (length hashes)" "\<And>h. ok h \<Longrightarrow> \<not> sync \<Longrightarrow> has_unpruned_block h bch seed"
proof -
  obtain k1 where k1: "k1 \<le> length hs" "skip_requested q hs s0 = (drop k1 hs, s0 + of_nat k1)"
    using skip_requested_drop by blast
  define nu :: u64 where "nu = ucast (ucast (get_next_unpruned_block_height (s0 + of_nat k1) bch seed) :: u32)"
  define s2 where "s2 = (if \<not> sync then if s0 + of_nat k1 < nu \<and> nu < s0 + of_nat k1 + CRYPTONOTE_PRUNING_STRIPE_SIZE
      then nu else s0 + of_nat k1 else s0 + of_nat k1)"
  obtain k2 where k2: "k2 \<le> length (drop (unat (s2 - s0)) hs)"
    "skip_requested q (drop (unat (s2 - s0)) hs) s2 = (drop k2 (drop (unat (s2 - s0)) hs), s2 + of_nat k2)"
    "k2 < length (drop (unat (s2 - s0)) hs) \<longrightarrow> \<not> requested (fst (drop (unat (s2 - s0)) hs ! k2)) q"
    using skip_requested_drop by blast
  define ok where "ok = span_block_ok sync lseed seed bch (sync \<and> \<not> has_unpruned_block (s2 + of_nat k2) bch lseed)"
  define hashes where "hashes = take_span ok (drop k2 (drop (unat (s2 - s0)) hs)) (unat mx) (s2 + of_nat k2)"
  have "\<not> lbh < of_nat (length hs) \<and> s2 < of_nat (length hs) + s0 \<and> start = s2 + of_nat k2 \<and> n = of_nat (length hashes)"
    using r unfolding reserve_span_def Let_def s0_def [symmetric] k1(2) prod.case nu_def [symmetric]
      s2_def [symmetric] k2(2) ok_def [symmetric] hashes_def [symmetric]
    by (auto simp: not_le split: if_splits option.splits)
  then show ?thesis
    using k1(1) k2(1,3) by (intro that [of k1 s2 k2 hashes ok]) (auto simp: s2_def hashes_def ok_def span_block_ok_def)
qed

text \<open>The heights of the offered hashes end at \<open>lbh\<close> and none of the sums below wraps around.\<close>

lemma hashes_heights:
  assumes "L \<le> unat lbh" "s2 < of_nat L + (lbh - of_nat L + 1 :: u64)"
  shows "unat lbh + 1 < 2 ^ 64" "unat (lbh - of_nat L + 1) + L = unat lbh + 1"
    "\<And>w k. unat (w :: u64) + k \<le> unat lbh + 1 \<Longrightarrow> unat (w + of_nat k) = unat w + k"
proof -
  have "lbh \<noteq> - 1"
  proof
    assume "lbh = - 1"
    then have "of_nat L + (lbh - of_nat L + 1) = 0" by simp
    then show False using assms(2) by simp
  qed
  then show lt: "unat lbh + 1 < 2 ^ 64"
    using unat_u64_lt [of lbh] unat_max64 by (auto simp: word_unat_eq_iff simp del: unat_u64_lt)
  have no_wrap: "unat (w + of_nat k) = unat w + k" if "unat w + k \<le> unat lbh + 1" for w :: u64 and k
  proof -
    have "unat (of_nat k :: u64) = k" using that lt by (intro unat_of_nat64) linarith
    then show ?thesis using that lt by (subst unat_plus_exact) simp_all
  qed
  then show "\<And>w k. unat (w :: u64) + k \<le> unat lbh + 1 \<Longrightarrow> unat (w + of_nat k) = unat w + k" .
  have "unat (of_nat L :: u64) = L" using assms(1) lt by (intro unat_of_nat64) linarith
  then have "unat (lbh - of_nat L) = unat lbh - L"
    using assms(1) by (subst unat_minus_exact) (simp_all add: word_le_nat_alt)
  then show "unat (lbh - of_nat L + 1) + L = unat lbh + 1"
    using no_wrap [of "lbh - of_nat L" 1] assms(1) by simp
qed

text \<open>C14: a span that is handed out has at most \<open>max_blocks\<close> blocks, lies within the offered hashes and ends at or
  below \<open>last_block_height\<close>, starts with a hash that was not requested, and, unless pruned blocks are
  synced, contains only blocks the peer keeps.\<close>

theorem reserve_span_sound:
  assumes "reserve_span first_block_height last_block_height max_blocks conn addr sync_pruned_blocks
     local_pruning_seed pruning_seed blockchain_height block_hashes t q = Some ((start, n), q')" "n \<noteq> 0"
    "length block_hashes < 2 ^ 64"
  shows "n \<le> max_blocks \<and> unat start + unat n \<le> unat last_block_height + 1 \<and>
    (\<exists>k. k + unat n \<le> length block_hashes \<and> unat start + length block_hashes = unat last_block_height + 1 + k \<and>
         \<not> requested (fst (block_hashes ! k)) q) \<and>
    (\<not> sync_pruned_blocks \<longrightarrow> (\<forall>i < unat n. has_unpruned_block (start + of_nat i) blockchain_height pruning_seed))"
proof -
  let ?L = "length block_hashes"
  define s0 where "s0 = last_block_height - of_nat ?L + 1"
  obtain k1 s2 k2 ok hashes where *: "\<not> last_block_height < of_nat ?L" "k1 \<le> ?L"
    "s2 = s0 + of_nat k1 \<or> s0 + of_nat k1 < s2" "s2 < of_nat ?L + s0"
    "k2 \<le> length (drop (unat (s2 - s0)) block_hashes)"
    "k2 < length (drop (unat (s2 - s0)) block_hashes) \<longrightarrow> \<not> requested (fst (drop (unat (s2 - s0)) block_hashes ! k2)) q"
    "start = s2 + of_nat k2" "hashes = take_span ok (drop k2 (drop (unat (s2 - s0)) block_hashes)) (unat max_blocks) start"
    "n = of_nat (length hashes)" "\<And>h. ok h \<Longrightarrow> \<not> sync_pruned_blocks \<Longrightarrow> has_unpruned_block h blockchain_height pruning_seed"
    using reserve_span_stages [OF assms(1,2), folded s0_def] by metis
  have L: "unat (of_nat ?L :: u64) = ?L" using assms(3) by (rule unat_of_nat64)
  then have le: "?L \<le> unat last_block_height" using *(1) by (simp add: word_less_nat_alt not_less)
  note h = hashes_heights [OF le *(4) [unfolded s0_def], folded s0_def]
  note no_wrap = h(3)
  define d where "d = unat s0 - 1"
  have d1: "d + 1 + ?L = unat last_block_height + 1" and s0: "unat s0 = d + 1" using h(2) le by (simp_all add: d_def)
  have k1: "unat (s0 + of_nat k1) = d + 1 + k1" using no_wrap [of s0 k1] s0 *(2) d1 by linarith
  have top: "unat (of_nat ?L + s0) = unat last_block_height + 1"
    using no_wrap [of s0 ?L] s0 d1 by (simp add: add.commute)
  have s2: "d + 1 \<le> unat s2" "unat s2 < unat last_block_height + 1"
    using *(3,4) k1 top by (auto simp: word_less_nat_alt)
  have j: "unat (s2 - s0) = unat s2 - (d + 1)"
    using s2 s0 by (subst unat_minus_exact) (simp_all add: word_le_nat_alt)
  define k where "k = unat (s2 - s0) + k2"
  have drops: "drop k2 (drop (unat (s2 - s0)) block_hashes) = drop k block_hashes"
    by (simp add: k_def add.commute)
  have kL: "k \<le> ?L" using *(5) j s2 d1 by (simp add: k_def)
  have start: "unat start = d + 1 + k"
    unfolding *(7) using no_wrap [of s2 k2] kL j s2 d1 by (simp add: k_def)
  have len: "length hashes \<le> ?L - k" "length hashes \<le> unat max_blocks" "\<forall>i < length hashes. ok (start + of_nat i)"
    using take_span_spec [of ok "drop k block_hashes" "unat max_blocks" start] unfolding *(8) drops by auto
  have n: "unat n = length hashes" unfolding *(9) using len(1) assms(3) by (intro unat_of_nat64) linarith
  have "0 < unat n" using assms(2) by (simp add: unat_gt_0 word_gt_0)
  then have "\<not> requested (fst (block_hashes ! k)) q" using *(6) len(1) n by (auto simp: k_def)
  moreover have "k + unat n \<le> ?L" "n \<le> max_blocks" using len kL n by (simp_all add: word_le_nat_alt)
  moreover have "unat start + ?L = unat last_block_height + 1 + k" using start d1 by simp
  ultimately show ?thesis using *(10) len(3) n by auto
qed

theorem reserve_span_sound_witness:
  "\<exists>q'. reserve_span 5 6 2 1 [] False 0 0 100 [([1], 0), ([2], 0)] 0 block_queue_new = Some ((5, 2), q') \<and>
    (2 :: u64) \<le> 2 \<and> unat (5 :: u64) + unat (2 :: u64) \<le> unat (6 :: u64) + 1 \<and>
    (\<exists>k. k + unat (2 :: u64) \<le> length [([1], 0), ([2], 0)] \<and>
         unat (5 :: u64) + length [([1], 0), ([2], 0)] = unat (6 :: u64) + 1 + k \<and>
         \<not> requested (fst ([([1], 0), ([2], 0)] ! k)) block_queue_new) \<and>
    (\<not> False \<longrightarrow> (\<forall>i < unat (2 :: u64). has_unpruned_block (5 + of_nat i) 100 0))"
proof -
  obtain q' where r: "reserve_span 5 6 2 1 [] False 0 0 100 [([1], 0), ([2], 0)] 0 block_queue_new = Some ((5, 2), q')"
    by (simp add: reserve_span_def requested_def block_queue_new_def get_next_unpruned_block_height_def
        get_pruning_stripe_of_seed_def has_unpruned_block_def span_block_ok_def add_scheduled_blocks_def
        CRYPTONOTE_MAX_BLOCK_NUMBER_def CRYPTONOTE_PRUNING_STRIPE_SIZE_def take_span_numeral)
  from reserve_span_sound [OF r] r show ?thesis by simp
qed

end
