(* ===== verification/Rolling_Median.thy ===== *)
theory Rolling_Median
  imports Misc_Language "HOL-Library.Signed_Division"
begin

section \<open>The rolling median (\<open>contrib/epee/include/rolling_median.h\<close>)\<close>

text \<open>
  The median of the last \<open>N\<close> inserted values, kept in a circular buffer \<open>data\<close> and an array
  \<open>heap\<close> of buffer indices: the median at index 0, a min heap at the positive and a max heap at the
  negative indices, with \<open>pos\<close> as the inverse of \<open>heap\<close>. The three arrays are functions on the
  indices of the allocated block; what the block holds before the first write is arbitrary. The
  values have the type \<open>uint64_t\<close> the program uses. \<open>int\<close> counters are unbounded here: the
  constructor computes the size of the block, \<open>16 * N\<close>, in an \<open>int\<close>, and no index is beyond
  \<open>2 * N\<close>. A loop that does not end is \<open>None\<close>, and so is an insertion into an object of size 0, which
  divides by zero. Division of integers rounds towards zero (\<open>sdiv\<close>).
\<close>

record rolling_median_t =
  rm_data :: "int \<Rightarrow> u64"
  rm_pos :: "int \<Rightarrow> int"
  rm_heap :: "int \<Rightarrow> int"
  rm_N :: int
  rm_idx :: int
  minCt :: int
  maxCt :: int
  rm_sz :: int

definition mmless :: "rolling_median_t \<Rightarrow> int \<Rightarrow> int \<Rightarrow> bool" where
  "mmless s i j \<longleftrightarrow> rm_data s (rm_heap s i) < rm_data s (rm_heap s j)"

definition mmexchange :: "int \<Rightarrow> int \<Rightarrow> rolling_median_t \<Rightarrow> rolling_median_t" where
  "mmexchange i j s =
     (let t = rm_heap s i;
          s = s\<lparr>rm_heap := (rm_heap s)(i := rm_heap s j)\<rparr>;
          s = s\<lparr>rm_heap := (rm_heap s)(j := t)\<rparr>;
          s = s\<lparr>rm_pos := (rm_pos s)(rm_heap s i := i)\<rparr>
      in s\<lparr>rm_pos := (rm_pos s)(rm_heap s j := j)\<rparr>)"

definition mmCmpExch :: "int \<Rightarrow> int \<Rightarrow> rolling_median_t \<Rightarrow> bool \<times> rolling_median_t" where
  "mmCmpExch i j s = (if mmless s i j then (True, mmexchange i j s) else (False, s))"

partial_function (option) minSortDown_loop :: "int \<Rightarrow> rolling_median_t \<Rightarrow> rolling_median_t option" where
  "minSortDown_loop i s =
     (if i \<le> minCt s
      then let i = (if i < minCt s \<and> mmless s (i + 1) i then i + 1 else i)
           in case mmCmpExch i (i sdiv 2) s of (swapped, s) \<Rightarrow>
                if \<not> swapped then Some s else minSortDown_loop (i * 2) s
      else Some s)"

definition minSortDown :: "int \<Rightarrow> rolling_median_t \<Rightarrow> rolling_median_t option" where
  "minSortDown i s = minSortDown_loop (i * 2) s"

partial_function (option) maxSortDown_loop :: "int \<Rightarrow> rolling_median_t \<Rightarrow> rolling_median_t option" where
  "maxSortDown_loop i s =
     (if - maxCt s \<le> i
      then let i = (if - maxCt s < i \<and> mmless s i (i - 1) then i - 1 else i)
           in case mmCmpExch (i sdiv 2) i s of (swapped, s) \<Rightarrow>
                if \<not> swapped then Some s else maxSortDown_loop (i * 2) s
      else Some s)"

definition maxSortDown :: "int \<Rightarrow> rolling_median_t \<Rightarrow> rolling_median_t option" where
  "maxSortDown i s = maxSortDown_loop (i * 2) s"

lemma sdiv_half: "0 \<le> i \<Longrightarrow> i sdiv 2 = i div 2" "i \<le> 0 \<Longrightarrow> i sdiv 2 = - ((- i) div 2)" for i :: int
  by (auto simp: signed_divide_int_def sgn_if)

function minSortUp :: "int \<Rightarrow> rolling_median_t \<Rightarrow> bool \<times> rolling_median_t" where
  "minSortUp i s =
     (if 0 < i
      then case mmCmpExch i (i sdiv 2) s of (swapped, s) \<Rightarrow>
             if swapped then minSortUp (i sdiv 2) s else (i = 0, s)
      else (i = 0, s))"
  by pat_completeness auto
termination
  by (relation "measure (\<lambda>(i, s). nat i)") (auto simp: sdiv_half)

function maxSortUp :: "int \<Rightarrow> rolling_median_t \<Rightarrow> bool \<times> rolling_median_t" where
  "maxSortUp i s =
     (if i < 0
      then case mmCmpExch (i sdiv 2) i s of (swapped, s) \<Rightarrow>
             if swapped then maxSortUp (i sdiv 2) s else (i = 0, s)
      else (i = 0, s))"
  by pat_completeness auto
termination
  by (relation "measure (\<lambda>(i, s). nat (- i))") (auto simp: sdiv_half)

declare minSortUp.simps [simp del] maxSortUp.simps [simp del]

definition rm_clear :: "rolling_median_t \<Rightarrow> rolling_median_t" where
  "rm_clear s =
     fold (\<lambda>nItems s.
         let s = s\<lparr>rm_pos := (rm_pos s)(nItems := ((nItems + 1) div 2) * (if odd nItems then - 1 else 1))\<rparr>
         in s\<lparr>rm_heap := (rm_heap s)(rm_pos s nItems := nItems)\<rparr>)
       (rev [0..rm_N s - 1]) (s\<lparr>rm_idx := 0, minCt := 0, maxCt := 0, rm_sz := 0\<rparr>)"

text \<open>The constructor; \<open>mem\<close> stands for the contents of the allocated block.\<close>

definition rolling_median_new :: "int \<Rightarrow> rolling_median_t \<Rightarrow> rolling_median_t" where
  "rolling_median_new n mem = rm_clear (mem\<lparr>rm_N := n\<rparr>)"

definition rm_size :: "rolling_median_t \<Rightarrow> int" where
  "rm_size s = rm_sz s"

text \<open>The first statements of \<open>insert\<close>: the value replaces the oldest one.\<close>

definition rm_put :: "u64 \<Rightarrow> rolling_median_t \<Rightarrow> rolling_median_t" where
  "rm_put v s = s\<lparr>rm_data := (rm_data s)(rm_idx s := v), rm_idx := (rm_idx s + 1) mod rm_N s,
     rm_sz := min (rm_sz s + 1) (rm_N s)\<rparr>"

definition rm_insert :: "u64 \<Rightarrow> rolling_median_t \<Rightarrow> rolling_median_t option" where
  "rm_insert v s =
     (if rm_N s = 0 then None else
      let p = rm_pos s (rm_idx s);
          old = rm_data s (rm_idx s);
          s = rm_put v s
      in if 0 < p
         then if \<not> minCt s < (rm_N s - 1) div 2 \<and> old < v then minSortDown p s
              else let s = (if minCt s < (rm_N s - 1) div 2 then s\<lparr>minCt := minCt s + 1\<rparr> else s);
                       (changed, s) = minSortUp p s;
                       (swapped, s) = (if changed then mmCmpExch 0 (- 1) s else (False, s))
                   in if swapped then maxSortDown (- 1) s else Some s
         else if p < 0
         then if \<not> maxCt s < rm_N s div 2 \<and> v < old then maxSortDown p s
              else let s = (if maxCt s < rm_N s div 2 then s\<lparr>maxCt := maxCt s + 1\<rparr> else s);
                       (changed, s) = maxSortUp p s;
                       (swapped, s) = (if changed \<and> minCt s \<noteq> 0 then mmCmpExch 1 0 s else (False, s))
                   in if swapped then minSortDown 1 s else Some s
         else let (changed, s) = (if maxCt s \<noteq> 0 then maxSortUp (- 1) s else (False, s))
              in Option.bind (if changed then maxSortDown (- 1) s else Some s) (\<lambda>s.
                 let (changed, s) = (if minCt s \<noteq> 0 then minSortUp 1 s else (False, s))
                 in if changed then minSortDown 1 s else Some s))"

definition rm_median :: "rolling_median_t \<Rightarrow> u64" where
  "rm_median s =
     (let v = rm_data s (rm_heap s 0)
      in if minCt s < maxCt s then get_mid v (rm_data s (rm_heap s (- 1))) else v)"

subsection \<open>The mirror image\<close>

text \<open>
  Negating the indices of the heap and complementing the values exchanges the two heaps, so that
  every statement about the min heap gives the one about the max heap.
\<close>

definition mirror :: "rolling_median_t \<Rightarrow> rolling_median_t" where
  "mirror s = s\<lparr>rm_data := \<lambda>k. NOT (rm_data s k), rm_pos := \<lambda>k. - rm_pos s k,
     rm_heap := \<lambda>i. rm_heap s (- i), minCt := maxCt s, maxCt := minCt s\<rparr>"

lemma mirror_simps [simp]:
  "rm_data (mirror s) k = NOT (rm_data s k)" "rm_pos (mirror s) k = - rm_pos s k" "rm_heap (mirror s) i = rm_heap s (- i)"
  "minCt (mirror s) = maxCt s" "maxCt (mirror s) = minCt s" "rm_N (mirror s) = rm_N s" "rm_idx (mirror s) = rm_idx s"
  "rm_sz (mirror s) = rm_sz s"
  by (simp_all add: mirror_def)

lemma mirror_mirror [simp]: "mirror (mirror s) = s"
  by (simp add: mirror_def)

lemma not_less_not [simp]: "NOT a < NOT b \<longleftrightarrow> b < a" "NOT a \<le> NOT b \<longleftrightarrow> b \<le> a" for a b :: u64
proof -
  have "NOT x = - 1 - x" for x :: u64 by (simp add: not_eq_complement)
  moreover have "unat (- 1 - x) = 2 ^ 64 - 1 - unat x" for x :: u64
    using unat_minus_exact [of x "- 1"] by (simp add: unat_max64)
  ultimately have "unat (NOT x) = 2 ^ 64 - 1 - unat x" for x :: u64 by simp
  from this [of a] this [of b] show "NOT a < NOT b \<longleftrightarrow> b < a" "NOT a \<le> NOT b \<longleftrightarrow> b \<le> a"
    using unat_u64_lt [of a] unat_u64_lt [of b] unfolding word_less_nat_alt word_le_nat_alt by (simp_all del: unat_u64_lt) arith+
qed

lemma mmless_mirror: "mmless (mirror s) i j \<longleftrightarrow> mmless s (- j) (- i)"
  by (simp add: mmless_def)

lemma sdiv_uminus: "(- i) sdiv 2 = - (i sdiv 2)" for i :: int
  by (simp add: signed_divide_int_def sgn_if)

lemma mmexchange_fields [simp]:
  "rm_data (mmexchange i j s) = rm_data s" "minCt (mmexchange i j s) = minCt s" "maxCt (mmexchange i j s) = maxCt s"
  "rm_N (mmexchange i j s) = rm_N s" "rm_idx (mmexchange i j s) = rm_idx s" "rm_sz (mmexchange i j s) = rm_sz s"
  "rm_heap (mmexchange i j s) = (rm_heap s)(i := rm_heap s j, j := rm_heap s i)"
  by (simp_all add: mmexchange_def Let_def)

lemma mmexchange_pos:
  "rm_pos (mmexchange i j s) =
     (rm_pos s)((if i = j then rm_heap s i else rm_heap s j) := i, rm_heap s i := j)"
  by (auto simp: mmexchange_def Let_def)

lemma mmexchange_mirror: "rm_heap s (- i) \<noteq> rm_heap s (- j) \<Longrightarrow> mmexchange i j (mirror s) = mirror (mmexchange (- j) (- i) s)"
  by (auto simp: mmexchange_def mirror_def Let_def fun_eq_iff)

lemma mmCmpExch_mirror: "mmCmpExch i j (mirror s) = map_prod id mirror (mmCmpExch (- j) (- i) s)"
proof (cases "mmless s (- j) (- i)")
  case True
  then have "rm_heap s (- i) \<noteq> rm_heap s (- j)" by (auto simp: mmless_def)
  with True show ?thesis by (simp add: mmCmpExch_def mmless_mirror mmexchange_mirror)
qed (simp add: mmCmpExch_def mmless_mirror)

lemma maxSortDown_loop_mirror:
  "0 < i \<Longrightarrow> maxSortDown_loop (- i) s = map_option mirror (minSortDown_loop i (mirror s))"
proof (induction "nat (maxCt s + 1 - i)" arbitrary: i s rule: less_induct)
  case less
  define k where "k = (if i < maxCt s \<and> mmless s (- i) (- i - 1) then i + 1 else i)"
  have k: "i \<le> k" unfolding k_def by simp
  have up: "maxSortDown_loop (- i) s = (if i \<le> maxCt s
      then case mmCmpExch (- k sdiv 2) (- k) s of (b, s) \<Rightarrow> if \<not> b then Some s else maxSortDown_loop (- (k * 2)) s
      else Some s)"
  proof -
    have "(if - maxCt s < - i \<and> mmless s (- i) (- i - 1) then - i - 1 else - i) = - k" by (simp add: k_def)
    then show ?thesis by (subst maxSortDown_loop.simps) (simp only: Let_def mult_minus_left neg_le_iff_le)
  qed
  have down: "minSortDown_loop i (mirror s) = (if i \<le> maxCt s
      then case mmCmpExch k (k sdiv 2) (mirror s) of (b, s) \<Rightarrow> if \<not> b then Some s else minSortDown_loop (k * 2) s
      else Some (mirror s))"
  proof -
    have "(if i < maxCt s \<and> mmless (mirror s) (i + 1) i then i + 1 else i) = k" by (simp add: k_def mmless_mirror)
    then show ?thesis by (subst minSortDown_loop.simps) (simp only: Let_def mirror_simps)
  qed
  have e: "mmCmpExch k (k sdiv 2) (mirror s) = map_prod id mirror (mmCmpExch (- k sdiv 2) (- k) s)"
    by (simp only: mmCmpExch_mirror sdiv_uminus)
  have "maxSortDown_loop (- (k * 2)) (mmexchange a b s) = map_option mirror (minSortDown_loop (k * 2) (mirror (mmexchange a b s)))"
    if "i \<le> maxCt s" for a b using that less.prems k by (intro less.hyps) auto
  then show ?case unfolding up down e by (simp add: mmCmpExch_def)
qed

lemma maxSortDown_mirror: "0 < i \<Longrightarrow> maxSortDown (- i) s = map_option mirror (minSortDown i (mirror s))"
  using maxSortDown_loop_mirror [of "i * 2" s] by (simp add: maxSortDown_def minSortDown_def)

lemma maxSortUp_mirror: "maxSortUp (- i) s = map_prod id mirror (minSortUp i (mirror s))"
proof (induction i "mirror s" arbitrary: s rule: minSortUp.induct)
  case (1 i)
  show ?case
  proof (cases "0 < i \<and> mmless s (- i sdiv 2) (- i)")
    case True
    let ?s = "mmexchange (- i sdiv 2) (- i) s"
    have c: "mmCmpExch (- i sdiv 2) (- i) s = (True, ?s)" using True by (simp add: mmCmpExch_def)
    then have d: "mmCmpExch i (i sdiv 2) (mirror s) = (True, mirror ?s)"
      by (simp only: mmCmpExch_mirror sdiv_uminus map_prod_simp id_apply)
    have "maxSortUp (- (i sdiv 2)) ?s = map_prod id mirror (minSortUp (i sdiv 2) (mirror ?s))"
      using True by (intro 1) (simp_all add: d)
    then show ?thesis using True c d
      by (subst maxSortUp.simps, subst minSortUp.simps) (simp add: sdiv_uminus)
  next
    case False
    then have c: "0 < i \<Longrightarrow> mmCmpExch (- i sdiv 2) (- i) s = (False, s)" by (auto simp: mmCmpExch_def)
    then have "0 < i \<Longrightarrow> mmCmpExch i (i sdiv 2) (mirror s) = (False, mirror s)"
      by (simp only: mmCmpExch_mirror sdiv_uminus map_prod_simp id_apply)
    then show ?thesis using c by (subst maxSortUp.simps, subst minSortUp.simps) auto
  qed
qed

subsection \<open>Sifting in the min heap\<close>

abbreviation (input) rm_val :: "rolling_median_t \<Rightarrow> int \<Rightarrow> u64" where
  "rm_val s i \<equiv> rm_data s (rm_heap s i)"

text \<open>\<open>heap\<close> and \<open>pos\<close> are inverse bijections between the heap indices and the buffer indices.\<close>

definition perm_ok :: "int \<Rightarrow> int \<Rightarrow> rolling_median_t \<Rightarrow> bool" where
  "perm_ok lo hi s \<longleftrightarrow>
     (\<forall>i. lo \<le> i \<and> i \<le> hi \<longrightarrow> 0 \<le> rm_heap s i \<and> rm_heap s i < rm_N s \<and> rm_pos s (rm_heap s i) = i) \<and>
     (\<forall>k. 0 \<le> k \<and> k < rm_N s \<longrightarrow> lo \<le> rm_pos s k \<and> rm_pos s k \<le> hi \<and> rm_heap s (rm_pos s k) = k)"

text \<open>Only the arrangement of the indices \<open>A\<close> of the heap differs.\<close>

definition rearranged :: "int set \<Rightarrow> rolling_median_t \<Rightarrow> rolling_median_t \<Rightarrow> bool" where
  "rearranged A s t \<longleftrightarrow> t = s\<lparr>rm_heap := rm_heap t, rm_pos := rm_pos t\<rparr> \<and> (\<forall>i. i \<notin> A \<longrightarrow> rm_heap t i = rm_heap s i)"

definition min_ordered :: "rolling_median_t \<Rightarrow> bool" where
  "min_ordered s \<longleftrightarrow> (\<forall>j. 1 \<le> j \<and> j \<le> minCt s \<longrightarrow> rm_val s (j div 2) \<le> rm_val s j)"

lemma rearranged_refl [simp]: "rearranged A s s"
  by (simp add: rearranged_def)

lemma rearranged_trans: "rearranged A s t \<Longrightarrow> rearranged A t u \<Longrightarrow> rearranged A s u"
  unfolding rearranged_def by (cases s; cases t; cases u) auto

lemma rearranged_mono: "rearranged A s t \<Longrightarrow> A \<subseteq> B \<Longrightarrow> rearranged B s t"
  by (auto simp: rearranged_def)

lemma rearranged_fields:
  assumes "rearranged A s t"
  shows "rm_data t = rm_data s" "minCt t = minCt s" "maxCt t = maxCt s" "rm_N t = rm_N s" "rm_idx t = rm_idx s" "rm_sz t = rm_sz s"
  using assms unfolding rearranged_def by (cases s; cases t; auto)+

lemma rearranged_val: "rearranged A s t \<Longrightarrow> i \<notin> A \<Longrightarrow> rm_val t i = rm_val s i"
  using rearranged_fields(1) [of A s t] by (simp add: rearranged_def)

lemma rearranged_exchange: "i \<in> A \<Longrightarrow> j \<in> A \<Longrightarrow> rearranged A s (mmexchange i j s)"
  unfolding rearranged_def by (cases s) (auto simp: mmexchange_def Let_def)

lemma perm_ok_exchange:
  assumes "perm_ok lo hi s" "lo \<le> i" "i \<le> hi" "lo \<le> j" "j \<le> hi"
  shows "perm_ok lo hi (mmexchange i j s)"
proof -
  have inj: "rm_heap s a = rm_heap s b \<longleftrightarrow> a = b" if "lo \<le> a" "a \<le> hi" "lo \<le> b" "b \<le> hi" for a b
    using assms(1) that unfolding perm_ok_def by metis
  show ?thesis
    using assms(1) inj assms(2-5) unfolding perm_ok_def
    by (auto simp: mmexchange_pos)
qed

lemma minSortDown_step:
  fixes s :: rolling_median_t
  assumes "0 < p"
  defines "k \<equiv> (if p * 2 < minCt s \<and> mmless s (p * 2 + 1) (p * 2) then p * 2 + 1 else p * 2)"
  shows "minSortDown p s =
    (if p * 2 \<le> minCt s \<and> mmless s k p then minSortDown k (mmexchange k p s) else Some s)"
proof -
  have "k sdiv 2 = p" using assms by (simp add: sdiv_half)
  then show ?thesis
    unfolding minSortDown_def by (subst minSortDown_loop.simps) (simp add: Let_def mmCmpExch_def flip: k_def)
qed

lemma minSortDown_sifts:
  assumes "perm_ok lo hi s" "lo \<le> 0" "minCt s \<le> hi" "1 \<le> p"
    "\<And>j. 1 \<le> j \<Longrightarrow> j \<le> minCt s \<Longrightarrow> j div 2 \<noteq> p \<Longrightarrow> rm_val s (j div 2) \<le> rm_val s j"
    "\<And>j. 1 \<le> j \<Longrightarrow> j \<le> minCt s \<Longrightarrow> j div 2 = p \<Longrightarrow> rm_val s (p div 2) \<le> rm_val s j"
  shows "\<exists>t. minSortDown p s = Some t \<and> rearranged {p..minCt s} s t \<and> perm_ok lo hi t \<and> min_ordered t"
  using assms
proof (induction "nat (minCt s - p)" arbitrary: p s rule: less_induct)
  case less
  define k where "k = (if p * 2 < minCt s \<and> mmless s (p * 2 + 1) (p * 2) then p * 2 + 1 else p * 2)"
  note step = minSortDown_step [of p s, folded k_def]
  have k: "k div 2 = p" "p < k" using less.prems(4) by (auto simp: k_def)
  have least: "rm_val s k \<le> rm_val s j" if "p * 2 \<le> minCt s" "j \<le> minCt s" "j div 2 = p" for j
  proof -
    have "j = p * 2 \<or> j = p * 2 + 1" using that(3) by linarith
    then show ?thesis using that(2) by (auto simp: k_def mmless_def)
  qed
  show ?case
  proof (cases "p * 2 \<le> minCt s \<and> mmless s k p")
    case True
    define t where "t = mmexchange k p s"
    have kle: "k \<le> minCt s" using True by (simp add: k_def)
    have val: "rm_val t i = (if i = p then rm_val s k else if i = k then rm_val s p else rm_val s i)" for i
      by (simp add: t_def)
    have lt: "rm_val s k < rm_val s p" using True by (simp add: mmless_def)
    have "\<exists>u. minSortDown k t = Some u \<and> rearranged {k..minCt t} t u \<and> perm_ok lo hi u \<and> min_ordered u"
    proof (rule less.hyps)
      show "nat (minCt t - k) < nat (minCt s - p)" using k(2) kle by (simp add: t_def)
      show "perm_ok lo hi t" unfolding t_def
        using less.prems(1-4) k(2) kle by (intro perm_ok_exchange) auto
      show "rm_val t (j div 2) \<le> rm_val t j" if "1 \<le> j" "j \<le> minCt t" "j div 2 \<noteq> k" for j
      proof (cases "j div 2 = p")
        case True
        then show ?thesis using that least [of j] \<open>p * 2 \<le> minCt s \<and> _\<close> lt k(2) by (auto simp: val t_def)
      next
        case False
        moreover have "rm_val s (p div 2) \<le> rm_val s k" using less.prems(6) [of k] k kle less.prems(4) by simp
        ultimately show ?thesis using that less.prems(5) [of j] k less.prems(4) by (auto simp: val t_def)
      qed
      show "rm_val t (k div 2) \<le> rm_val t j" if "1 \<le> j" "j \<le> minCt t" "j div 2 = k" for j
        using that less.prems(5) [of j] k less.prems(4) by (auto simp: val t_def)
    qed (use less.prems k in \<open>simp_all add: t_def\<close>)
    then obtain u where u: "minSortDown k t = Some u" "rearranged {k..minCt t} t u" "perm_ok lo hi u" "min_ordered u" by blast
    have "rearranged {p..minCt s} s t" unfolding t_def using k(2) kle by (intro rearranged_exchange) auto
    moreover have "rearranged {p..minCt s} t u" by (rule rearranged_mono [OF u(2)]) (use k(2) in \<open>auto simp: t_def\<close>)
    ultimately have "rearranged {p..minCt s} s u" by (rule rearranged_trans)
    moreover have "minSortDown p s = Some u" using True u(1) step less.prems(4) by (simp add: t_def)
    ultimately show ?thesis using u(3,4) by blast
  next
    case False
    have "min_ordered s" unfolding min_ordered_def
    proof (intro allI impI)
      fix j assume j: "1 \<le> j \<and> j \<le> minCt s"
      show "rm_val s (j div 2) \<le> rm_val s j"
      proof (cases "j div 2 = p")
        case True
        then have "p * 2 \<le> minCt s" using j by linarith
        then show ?thesis using False least [of j] j True by (auto simp: mmless_def)
      qed (use less.prems(5) j in blast)
    qed
    then show ?thesis using False step less.prems(1,4) by auto
  qed
qed

lemma minSortUp_step:
  "0 < p \<Longrightarrow> minSortUp p s = (if mmless s p (p div 2) then minSortUp (p div 2) (mmexchange p (p div 2) s) else (False, s))"
  "minSortUp 0 s = (True, s)"
  by (subst minSortUp.simps, simp add: mmCmpExch_def sdiv_half)+

lemma minSortUp_sifts:
  assumes "perm_ok lo hi s" "lo \<le> 0" "minCt s \<le> hi" "0 \<le> p" "p \<le> minCt s"
    "\<And>j. 1 \<le> j \<Longrightarrow> j \<le> minCt s \<Longrightarrow> j \<noteq> p \<Longrightarrow> rm_val s (j div 2) \<le> rm_val s j"
    "\<And>j. 1 \<le> j \<Longrightarrow> j \<le> minCt s \<Longrightarrow> j div 2 = p \<Longrightarrow> 0 < p \<Longrightarrow> rm_val s (p div 2) \<le> rm_val s j"
  shows "\<exists>b t. minSortUp p s = (b, t) \<and> rearranged {0..minCt s} s t \<and> perm_ok lo hi t \<and> min_ordered t \<and>
    (if b then 0 < p \<longrightarrow> rm_heap t 0 = rm_heap s p \<and> rm_heap t 1 = rm_heap s 0 \<and> rm_val s p < rm_val s 0
     else rm_heap t 0 = rm_heap s 0)"
  using assms
proof (induction "nat p" arbitrary: p s rule: less_induct)
  case less
  define q where "q = p div 2"
  show ?case
  proof (cases "0 < p \<and> mmless s p q")
    case True
    define t where "t = mmexchange p q s"
    have q: "q < p" "0 \<le> q" using True by (auto simp: q_def)
    have lt: "rm_val s p < rm_val s q" using True by (simp add: mmless_def)
    have val: "rm_val t i = (if i = q then rm_val s p else if i = p then rm_val s q else rm_val s i)" for i
      using q(1) by (simp add: t_def)
    have up: "rm_val s (q div 2) \<le> rm_val s q" if "0 < q" using that less.prems(6) [of q] less.prems(5) q by simp
    have "\<exists>b u. minSortUp q t = (b, u) \<and> rearranged {0..minCt t} t u \<and> perm_ok lo hi u \<and> min_ordered u \<and>
        (if b then 0 < q \<longrightarrow> rm_heap u 0 = rm_heap t q \<and> rm_heap u 1 = rm_heap t 0 \<and> rm_val t q < rm_val t 0
         else rm_heap u 0 = rm_heap t 0)"
    proof (rule less.hyps)
      show "perm_ok lo hi t" unfolding t_def using less.prems(1-5) q by (intro perm_ok_exchange) auto
      show "rm_val t (j div 2) \<le> rm_val t j" if "1 \<le> j" "j \<le> minCt t" "j \<noteq> q" for j
      proof (cases "j = p")
        case True
        then show ?thesis using lt q(1) by (simp add: val flip: q_def)
      next
        case False
        then have "rm_val s (j div 2) \<le> rm_val s j" using that less.prems(6) [of j] by (simp add: t_def)
        moreover have "rm_val s q \<le> rm_val s j" if "j div 2 = p"
          using that less.prems(7) [of j] \<open>1 \<le> j\<close> \<open>j \<le> minCt t\<close> q by (simp add: t_def q_def)
        ultimately show ?thesis using False \<open>j \<noteq> q\<close> lt by (auto simp: val)
      qed
      show "rm_val t (q div 2) \<le> rm_val t j" if "1 \<le> j" "j \<le> minCt t" "j div 2 = q" "0 < q" for j
        using that up less.prems(6) [of j] q lt by (cases "j = p") (auto simp: val t_def)
    qed (use less.prems q True in \<open>simp_all add: t_def\<close>)
    then obtain b u where u: "minSortUp q t = (b, u)" "rearranged {0..minCt t} t u" "perm_ok lo hi u" "min_ordered u"
      "if b then 0 < q \<longrightarrow> rm_heap u 0 = rm_heap t q \<and> rm_heap u 1 = rm_heap t 0 \<and> rm_val t q < rm_val t 0
         else rm_heap u 0 = rm_heap t 0" by blast
    have "rearranged {0..minCt s} s t" unfolding t_def using q less.prems(5) True by (intro rearranged_exchange) auto
    then have "rearranged {0..minCt s} s u" using u(2) by (auto simp: t_def intro: rearranged_trans)
    moreover have "minSortUp p s = (b, u)" using True u(1) by (simp add: minSortUp_step(1) q_def [symmetric] t_def [symmetric])
    moreover have "if b then 0 < p \<longrightarrow> rm_heap u 0 = rm_heap s p \<and> rm_heap u 1 = rm_heap s 0 \<and> rm_val s p < rm_val s 0
        else rm_heap u 0 = rm_heap s 0"
    proof (cases "q = 0")
      case True
      then have "p = 1" using q \<open>0 < p \<and> _\<close> by (auto simp: q_def)
      moreover have "b" "u = t" using u(1) True by (simp_all add: minSortUp_step(2))
      ultimately show ?thesis using True lt by (simp add: t_def)
    next
      case False
      then show ?thesis using u(5) q by (auto simp: t_def split: if_splits)
    qed
    ultimately show ?thesis using u(3,4) by blast
  next
    case False
    then have "min_ordered s" unfolding min_ordered_def using less.prems(4,6) by (metis mmless_def not_less q_def not_one_le_zero order_less_le zero_less_one)
    then show ?thesis using False less.prems(1,4)
      by (cases "p = 0") (auto simp: minSortUp_step simp flip: q_def)
  qed
qed

subsection \<open>Restoring both heaps\<close>

lemma perm_ok_mirror: "perm_ok (- hi) (- lo) (mirror s) \<longleftrightarrow> perm_ok lo hi s"
proof -
  have "perm_ok (- hi) (- lo) (mirror s)" if "perm_ok lo hi s" for lo hi s
    unfolding perm_ok_def
  proof (intro conjI allI impI)
    fix i assume "- hi \<le> i \<and> i \<le> - lo"
    then have "lo \<le> - i \<and> - i \<le> hi" by linarith
    then show "0 \<le> rm_heap (mirror s) i" "rm_heap (mirror s) i < rm_N (mirror s)"
      "rm_pos (mirror s) (rm_heap (mirror s) i) = i"
      using that by (simp_all add: perm_ok_def)
  qed (use that in \<open>simp_all add: perm_ok_def\<close>)
  from this [of lo hi s] this [of "- hi" "- lo" "mirror s"] show ?thesis by auto
qed

lemma rearranged_mirror: "rearranged {a..b} (mirror s) (mirror t) \<longleftrightarrow> rearranged {- b..- a} s t"
proof -
  have "rearranged {- b..- a} (mirror s) (mirror t)" if "rearranged {a..b} s t" for a b s t
    using that unfolding rearranged_def by (cases s; cases t) (auto simp: mirror_def)
  from this [of "- b" "- a" s t] this [of a b "mirror s" "mirror t"] show ?thesis by auto
qed

definition max_ordered :: "rolling_median_t \<Rightarrow> bool" where
  "max_ordered s \<longleftrightarrow> min_ordered (mirror s)"

lemma max_ordered_iff:
  "max_ordered s \<longleftrightarrow> (\<forall>j. 1 \<le> j \<and> j \<le> maxCt s \<longrightarrow> rm_val s (- j) \<le> rm_val s (- (j div 2)))"
  by (simp add: max_ordered_def min_ordered_def)

lemma ordered_mirror [simp]: "min_ordered (mirror s) = max_ordered s" "max_ordered (mirror s) = min_ordered s"
  by (simp_all add: max_ordered_def)

definition heaps_ok :: "int \<Rightarrow> int \<Rightarrow> rolling_median_t \<Rightarrow> bool" where
  "heaps_ok lo hi s \<longleftrightarrow> perm_ok lo hi s \<and> min_ordered s \<and> max_ordered s"

lemma heaps_ok_mirror: "heaps_ok (- hi) (- lo) (mirror s) \<longleftrightarrow> heaps_ok lo hi s"
  by (auto simp: heaps_ok_def perm_ok_mirror)

text \<open>The end of \<open>insert\<close> in the min heap when the value moves up.\<close>

definition settle_up :: "int \<Rightarrow> rolling_median_t \<Rightarrow> rolling_median_t option" where
  "settle_up p s =
     (let (changed, s) = minSortUp p s;
          (swapped, s) = (if changed \<and> maxCt s \<noteq> 0 then mmCmpExch 0 (- 1) s else (False, s))
      in if swapped then maxSortDown (- 1) s else Some s)"

lemma settle_swapped:
  assumes "perm_ok lo hi s" "lo \<le> - maxCt s" "minCt s \<le> hi" "0 \<le> minCt s" "1 \<le> maxCt s"
    "min_ordered s" "\<And>j. 2 \<le> j \<Longrightarrow> j \<le> maxCt s \<Longrightarrow> rm_val s (- j) \<le> rm_val s (- (j div 2))"
    "1 \<le> minCt s \<Longrightarrow> rm_val s (- 1) \<le> rm_val s 1" "mmless s 0 (- 1)"
  shows "\<exists>t. maxSortDown (- 1) (mmexchange 0 (- 1) s) = Some t \<and> rearranged {- maxCt s..minCt s} s t \<and> heaps_ok lo hi t"
proof -
  let ?s = "mmexchange 0 (- 1) s"
  have "\<exists>u. minSortDown 1 (mirror ?s) = Some u \<and> rearranged {1..minCt (mirror ?s)} (mirror ?s) u \<and>
      perm_ok (- hi) (- lo) u \<and> min_ordered u"
  proof (rule minSortDown_sifts)
    show "perm_ok (- hi) (- lo) (mirror ?s)"
      unfolding perm_ok_mirror using assms(1-5) by (intro perm_ok_exchange) auto
    show "rm_val (mirror ?s) (j div 2) \<le> rm_val (mirror ?s) j"
      if "1 \<le> j" "j \<le> minCt (mirror ?s)" "j div 2 \<noteq> 1" for j
    proof (cases "j = 1")
      case True
      then show ?thesis using assms(9) by (simp add: mmless_def)
    next
      case False
      then have "1 < j" "0 < j div 2" using that by auto
      then show ?thesis using that assms(7) [of j] by auto
    qed
    show "rm_val (mirror ?s) (1 div 2) \<le> rm_val (mirror ?s) j"
      if "1 \<le> j" "j \<le> minCt (mirror ?s)" "j div 2 = 1" for j
      using that assms(7) [of j] by (cases "j = 1") auto
  qed (use assms in auto)
  then obtain u where u: "minSortDown 1 (mirror ?s) = Some u" "rearranged {1..maxCt s} (mirror ?s) u"
    "perm_ok (- hi) (- lo) u" "min_ordered u" by auto
  let ?t = "mirror u"
  have r: "rearranged {- maxCt s..- 1} ?s ?t" using u(2) rearranged_mirror [of 1 "maxCt s" ?s ?t] by simp
  have "rearranged {- maxCt s..minCt s} s ?s" using assms(4,5) by (intro rearranged_exchange) auto
  moreover have "rearranged {- maxCt s..minCt s} ?s ?t" using r by (rule rearranged_mono) (use assms(4) in auto)
  ultimately have "rearranged {- maxCt s..minCt s} s ?t" by (rule rearranged_trans)
  moreover have "min_ordered ?t" unfolding min_ordered_def
  proof (intro allI impI)
    fix j assume j: "1 \<le> j \<and> j \<le> minCt ?t"
    have v: "rm_val ?t i = rm_val ?s i" if "0 \<le> i" for i using r that by (intro rearranged_val [OF r]) simp
    show "rm_val ?t (j div 2) \<le> rm_val ?t j"
      using j v [of j] v [of "j div 2"] assms(6,8) rearranged_fields(2) [OF r]
      by (cases "j = 1") (auto simp: min_ordered_def)
  qed
  moreover have "maxSortDown (- 1) ?s = Some ?t" using maxSortDown_mirror [of 1 ?s] u(1) by simp
  moreover have "perm_ok lo hi ?t" using u(3) perm_ok_mirror [of hi lo ?t] by simp
  ultimately show ?thesis using u(4) by (simp add: heaps_ok_def)
qed

lemma settle_up_ok:
  assumes "perm_ok lo hi s" "lo \<le> - maxCt s" "minCt s \<le> hi" "0 \<le> maxCt s" "1 \<le> p" "p \<le> minCt s" "max_ordered s"
    "\<And>j. 1 \<le> j \<Longrightarrow> j \<le> minCt s \<Longrightarrow> j \<noteq> p \<Longrightarrow> rm_val s (j div 2) \<le> rm_val s j"
    "\<And>j. 1 \<le> j \<Longrightarrow> j \<le> minCt s \<Longrightarrow> j div 2 = p \<Longrightarrow> rm_val s (p div 2) \<le> rm_val s j"
  shows "\<exists>t. settle_up p s = Some t \<and> rearranged {- maxCt s..minCt s} s t \<and> heaps_ok lo hi t"
proof -
  obtain b u where u: "minSortUp p s = (b, u)" "rearranged {0..minCt s} s u" "perm_ok lo hi u" "min_ordered u"
    "if b then 0 < p \<longrightarrow> rm_heap u 0 = rm_heap s p \<and> rm_heap u 1 = rm_heap s 0 \<and> rm_val s p < rm_val s 0
     else rm_heap u 0 = rm_heap s 0"
    using minSortUp_sifts [of lo hi s p] assms by auto
  note f = rearranged_fields [OF u(2)]
  have neg: "rm_val u (- j) = rm_val s (- j)" if "1 \<le> j" for j using that by (intro rearranged_val [OF u(2)]) simp
  have r: "rearranged {- maxCt s..minCt s} s u" using u(2) by (rule rearranged_mono) (use assms(4) in auto)
  have max2: "rm_val u (- j) \<le> rm_val u (- (j div 2))" if "2 \<le> j" "j \<le> maxCt u" for j
    using that assms(7) neg [of j] neg [of "j div 2"] f(3) by (auto simp: max_ordered_iff)
  show ?thesis
  proof (cases "b \<and> maxCt s \<noteq> 0 \<and> mmless u 0 (- 1)")
    case True
    have "rm_val u 1 = rm_val s 0" using True u(5) assms(5) f(1) by simp
    moreover have "rm_val s (- 1) \<le> rm_val s 0" using assms(4,7) True by (auto simp: max_ordered_iff dest: spec [of _ 1])
    ultimately have le: "rm_val u (- 1) \<le> rm_val u 1" using neg [of 1] by simp
    obtain t where "maxSortDown (- 1) (mmexchange 0 (- 1) u) = Some t" "rearranged {- maxCt u..minCt u} u t" "heaps_ok lo hi t"
      using settle_swapped [of lo hi u] u(3,4) le max2 True assms(2-6) f by auto
    then show ?thesis using True u(1) f rearranged_trans [OF r] by (auto simp: settle_up_def mmCmpExch_def)
  next
    case False
    have "max_ordered u" unfolding max_ordered_iff
    proof (intro allI impI)
      fix j assume j: "1 \<le> j \<and> j \<le> maxCt u"
      show "rm_val u (- j) \<le> rm_val u (- (j div 2))"
      proof (cases "j = 1")
        case True
        moreover have "rm_val u (- 1) \<le> rm_val u 0"
        proof (cases b)
          case True
          then show ?thesis using False j f(3) by (auto simp: mmless_def)
        next
          case False
          then have "rm_val u 0 = rm_val s 0" using u(5) f(1) by simp
          then show ?thesis using assms(7) j f(3) neg [of 1] by (auto simp: max_ordered_iff dest: spec [of _ 1])
        qed
        ultimately show ?thesis by simp
      qed (use max2 j in auto)
    qed
    then show ?thesis using False u(1,3,4) r f by (auto simp: settle_up_def mmCmpExch_def heaps_ok_def)
  qed
qed

lemma minSortDown_ok:
  assumes "perm_ok lo hi s" "lo \<le> 0" "minCt s \<le> hi" "0 \<le> maxCt s" "1 \<le> p" "max_ordered s"
    "\<And>j. 1 \<le> j \<Longrightarrow> j \<le> minCt s \<Longrightarrow> j div 2 \<noteq> p \<Longrightarrow> rm_val s (j div 2) \<le> rm_val s j"
    "\<And>j. 1 \<le> j \<Longrightarrow> j \<le> minCt s \<Longrightarrow> j div 2 = p \<Longrightarrow> rm_val s (p div 2) \<le> rm_val s j"
  shows "\<exists>t. minSortDown p s = Some t \<and> rearranged {- maxCt s..minCt s} s t \<and> heaps_ok lo hi t"
proof -
  obtain t where t: "minSortDown p s = Some t" "rearranged {p..minCt s} s t" "perm_ok lo hi t" "min_ordered t"
    using minSortDown_sifts [of lo hi s p] assms by blast
  have "rm_val t (- j) = rm_val s (- j)" if "0 \<le> j" for j
    using that assms(5) by (intro rearranged_val [OF t(2)]) simp
  then have "max_ordered t" using assms(6) rearranged_fields(3) [OF t(2)] by (simp add: max_ordered_iff)
  moreover have "rearranged {- maxCt s..minCt s} s t" using t(2) by (rule rearranged_mono) (use assms(4,5) in auto)
  ultimately show ?thesis using t by (simp add: heaps_ok_def)
qed

definition settle_right :: "rolling_median_t \<Rightarrow> rolling_median_t option" where
  "settle_right s =
     (let (changed, s) = (if minCt s \<noteq> 0 then minSortUp 1 s else (False, s))
      in if changed then minSortDown 1 s else Some s)"

lemma settle_right_ok:
  assumes "perm_ok lo hi s" "lo \<le> 0" "minCt s \<le> hi" "0 \<le> minCt s"
    "\<And>j. 2 \<le> j \<Longrightarrow> j \<le> minCt s \<Longrightarrow> rm_val s (j div 2) \<le> rm_val s j"
  shows "\<exists>t. settle_right s = Some t \<and> rearranged {0..minCt s} s t \<and> perm_ok lo hi t \<and> min_ordered t \<and>
    (t = s \<or> 1 \<le> minCt s \<and> rm_val t 0 = rm_val s 1 \<and> rm_val s 1 < rm_val s 0)"
proof (cases "1 \<le> minCt s \<and> mmless s 1 0")
  case True
  let ?s = "mmexchange 1 0 s"
  have r: "rearranged {0..minCt s} s ?s" using True by (intro rearranged_exchange) auto
  have "\<exists>t. minSortDown 1 ?s = Some t \<and> rearranged {1..minCt ?s} ?s t \<and> perm_ok lo hi t \<and> min_ordered t"
  proof (rule minSortDown_sifts)
    show "perm_ok lo hi ?s" using assms(1-3) True by (intro perm_ok_exchange) auto
    show "rm_val ?s (j div 2) \<le> rm_val ?s j" if "1 \<le> j" "j \<le> minCt ?s" "j div 2 \<noteq> 1" for j
    proof (cases "j = 1")
      case False
      then have "1 < j" "0 < j div 2" using that by auto
      then show ?thesis using that assms(5) [of j] by auto
    qed (use True in \<open>auto simp: mmless_def\<close>)
    show "rm_val ?s (1 div 2) \<le> rm_val ?s j" if "1 \<le> j" "j \<le> minCt ?s" "j div 2 = 1" for j
      using that assms(5) [of j] by (cases "j = 1") auto
  qed (use assms in auto)
  then obtain t where t: "minSortDown 1 ?s = Some t" "rearranged {1..minCt s} ?s t" "perm_ok lo hi t" "min_ordered t" by auto
  have "rearranged {0..minCt s} ?s t" using t(2) by (rule rearranged_mono) auto
  then have "rearranged {0..minCt s} s t" by (rule rearranged_trans [OF r])
  moreover have "rm_val t 0 = rm_val s 1" using rearranged_val [OF t(2), of 0] by simp
  ultimately show ?thesis using True t by (auto simp: settle_right_def minSortUp_step mmless_def)
next
  case False
  have "min_ordered s" unfolding min_ordered_def
  proof (intro allI impI)
    fix j assume j: "1 \<le> j \<and> j \<le> minCt s"
    show "rm_val s (j div 2) \<le> rm_val s j" using j False assms(5) [of j] by (cases "j = 1") (auto simp: mmless_def)
  qed
  then show ?thesis using False assms(1,4) by (auto simp: settle_right_def minSortUp_step)
qed

text \<open>The mirror images.\<close>

definition settle_down :: "int \<Rightarrow> rolling_median_t \<Rightarrow> rolling_median_t option" where
  "settle_down p s =
     (let (changed, s) = maxSortUp p s;
          (swapped, s) = (if changed \<and> minCt s \<noteq> 0 then mmCmpExch 1 0 s else (False, s))
      in if swapped then minSortDown 1 s else Some s)"

definition settle_left :: "rolling_median_t \<Rightarrow> rolling_median_t option" where
  "settle_left s =
     (let (changed, s) = (if maxCt s \<noteq> 0 then maxSortUp (- 1) s else (False, s))
      in if changed then maxSortDown (- 1) s else Some s)"

lemma minSortDown_mirror: "0 < i \<Longrightarrow> minSortDown i s = map_option mirror (maxSortDown (- i) (mirror s))"
  using maxSortDown_mirror [of i "mirror s"] by (cases "minSortDown i s") auto

lemma settle_down_mirror: "settle_down (- p) s = map_option mirror (settle_up p (mirror s))"
proof -
  obtain b u where u: "minSortUp p (mirror s) = (b, u)" by (cases "minSortUp p (mirror s)")
  then have m: "maxSortUp (- p) s = (b, mirror u)" by (simp add: maxSortUp_mirror)
  have "mmCmpExch 1 0 (mirror u) = map_prod id mirror (mmCmpExch 0 (- 1) u)" by (simp add: mmCmpExch_mirror)
  then show ?thesis
    using u m by (auto simp: settle_down_def settle_up_def minSortDown_mirror split: prod.splits)
qed

lemma settle_left_mirror: "settle_left s = map_option mirror (settle_right (mirror s))"
proof -
  obtain b u where u: "minSortUp 1 (mirror s) = (b, u)" by (cases "minSortUp 1 (mirror s)")
  then have m: "maxSortUp (- 1) s = (b, mirror u)" by (simp add: maxSortUp_mirror)
  then show ?thesis using u maxSortDown_mirror [of 1 "mirror u"] by (auto simp: settle_left_def settle_right_def)
qed

lemma settle_down_ok:
  assumes "perm_ok lo hi s" "lo \<le> - maxCt s" "minCt s \<le> hi" "0 \<le> minCt s" "1 \<le> p" "p \<le> maxCt s" "min_ordered s"
    "\<And>j. 1 \<le> j \<Longrightarrow> j \<le> maxCt s \<Longrightarrow> j \<noteq> p \<Longrightarrow> rm_val s (- j) \<le> rm_val s (- (j div 2))"
    "\<And>j. 1 \<le> j \<Longrightarrow> j \<le> maxCt s \<Longrightarrow> j div 2 = p \<Longrightarrow> rm_val s (- j) \<le> rm_val s (- (p div 2))"
  shows "\<exists>t. settle_down (- p) s = Some t \<and> rearranged {- maxCt s..minCt s} s t \<and> heaps_ok lo hi t"
proof -
  obtain t where "settle_up p (mirror s) = Some t" "rearranged {- minCt s..maxCt s} (mirror s) t" "heaps_ok (- hi) (- lo) t"
    using settle_up_ok [of "- hi" "- lo" "mirror s" p] assms by (auto simp: perm_ok_mirror)
  then show ?thesis
    using rearranged_mirror [of "- minCt s" "maxCt s" s "mirror t"] heaps_ok_mirror [of hi lo "mirror t"]
    by (auto simp: settle_down_mirror)
qed

lemma maxSortDown_ok:
  assumes "perm_ok lo hi s" "0 \<le> hi" "lo \<le> - maxCt s" "0 \<le> minCt s" "1 \<le> p" "min_ordered s"
    "\<And>j. 1 \<le> j \<Longrightarrow> j \<le> maxCt s \<Longrightarrow> j div 2 \<noteq> p \<Longrightarrow> rm_val s (- j) \<le> rm_val s (- (j div 2))"
    "\<And>j. 1 \<le> j \<Longrightarrow> j \<le> maxCt s \<Longrightarrow> j div 2 = p \<Longrightarrow> rm_val s (- j) \<le> rm_val s (- (p div 2))"
  shows "\<exists>t. maxSortDown (- p) s = Some t \<and> rearranged {- maxCt s..minCt s} s t \<and> heaps_ok lo hi t"
proof -
  obtain t where "minSortDown p (mirror s) = Some t" "rearranged {- minCt s..maxCt s} (mirror s) t" "heaps_ok (- hi) (- lo) t"
    using minSortDown_ok [of "- hi" "- lo" "mirror s" p] assms by (auto simp: perm_ok_mirror)
  then show ?thesis
    using rearranged_mirror [of "- minCt s" "maxCt s" s "mirror t"] heaps_ok_mirror [of hi lo "mirror t"] assms(5)
    by (auto simp: maxSortDown_mirror)
qed

lemma settle_left_ok:
  assumes "perm_ok lo hi s" "0 \<le> hi" "lo \<le> - maxCt s" "0 \<le> maxCt s"
    "\<And>j. 2 \<le> j \<Longrightarrow> j \<le> maxCt s \<Longrightarrow> rm_val s (- j) \<le> rm_val s (- (j div 2))"
  shows "\<exists>t. settle_left s = Some t \<and> rearranged {- maxCt s..0} s t \<and> perm_ok lo hi t \<and> max_ordered t \<and>
    (t = s \<or> 1 \<le> maxCt s \<and> rm_val t 0 = rm_val s (- 1))"
proof -
  obtain t where t: "settle_right (mirror s) = Some t" "rearranged {0..maxCt s} (mirror s) t" "perm_ok (- hi) (- lo) t"
    "min_ordered t" "t = mirror s \<or> 1 \<le> maxCt s \<and> rm_val t 0 = rm_val (mirror s) 1"
    using settle_right_ok [of "- hi" "- lo" "mirror s"] assms by (auto simp: perm_ok_mirror)
  have "mirror t = s \<or> 1 \<le> maxCt s \<and> rm_val (mirror t) 0 = rm_val s (- 1)" using t(5) by auto
  moreover have "rearranged {- maxCt s..0} s (mirror t)" using t(2) rearranged_mirror [of 0 "maxCt s" s "mirror t"] by simp
  moreover have "perm_ok lo hi (mirror t)" using t(3) perm_ok_mirror [of hi lo "mirror t"] by simp
  ultimately show ?thesis using t(1,4) by (auto simp: settle_left_mirror)
qed

lemma settle_median_ok:
  assumes "perm_ok lo hi s" "lo \<le> - maxCt s" "minCt s \<le> hi" "0 \<le> minCt s" "0 \<le> maxCt s"
    "\<And>j. 2 \<le> j \<Longrightarrow> j \<le> minCt s \<Longrightarrow> rm_val s (j div 2) \<le> rm_val s j"
    "\<And>j. 2 \<le> j \<Longrightarrow> j \<le> maxCt s \<Longrightarrow> rm_val s (- j) \<le> rm_val s (- (j div 2))"
    "1 \<le> minCt s \<Longrightarrow> 1 \<le> maxCt s \<Longrightarrow> rm_val s (- 1) \<le> rm_val s 1"
  shows "\<exists>t. Option.bind (settle_left s) settle_right = Some t \<and> rearranged {- maxCt s..minCt s} s t \<and> heaps_ok lo hi t"
proof -
  obtain t where t: "settle_left s = Some t" "rearranged {- maxCt s..0} s t" "perm_ok lo hi t" "max_ordered t"
    "t = s \<or> 1 \<le> maxCt s \<and> rm_val t 0 = rm_val s (- 1)"
    using settle_left_ok [of lo hi s] assms by auto
  note f = rearranged_fields [OF t(2)]
  have right: "rm_val t j = rm_val s j" if "1 \<le> j" for j using that by (intro rearranged_val [OF t(2)]) simp
  have "rm_val t (j div 2) \<le> rm_val t j" if "2 \<le> j" "j \<le> minCt t" for j
    using that assms(6) [of j] right [of j] right [of "j div 2"] f(2) by simp
  then obtain u where u: "settle_right t = Some u" "rearranged {0..minCt t} t u" "perm_ok lo hi u" "min_ordered u"
    "u = t \<or> 1 \<le> minCt t \<and> rm_val u 0 = rm_val t 1 \<and> rm_val t 1 < rm_val t 0"
    using settle_right_ok [of lo hi t] t(3) assms(2-5) f by auto
  note g = rearranged_fields [OF u(2)]
  have "max_ordered u" unfolding max_ordered_iff
  proof (intro allI impI)
    fix j assume j: "1 \<le> j \<and> j \<le> maxCt u"
    have left: "rm_val u (- i) = rm_val t (- i)" if "1 \<le> i" for i using that by (intro rearranged_val [OF u(2)]) simp
    show "rm_val u (- j) \<le> rm_val u (- (j div 2))"
    proof (cases "u = t")
      case False
      then have u0: "1 \<le> minCt t" "rm_val u 0 = rm_val t 1" "rm_val t 1 < rm_val t 0" using u(5) by auto
      show ?thesis
      proof (cases "j = 1")
        case True
        have "t = s" using u0(1,3) t(5) assms(8) right [of 1] f(2) by auto
        then show ?thesis using True u0 left [of 1] assms(8) j f g by simp
      next
        case False
        then have "1 \<le> j div 2" using j by arith
        then show ?thesis using t(4) j left [of j] left [of "j div 2"] g(3) by (auto simp: max_ordered_iff)
      qed
    qed (use t(4) j in \<open>auto simp: max_ordered_iff\<close>)
  qed
  moreover have "rearranged {- maxCt s..minCt s} s t" using t(2) by (rule rearranged_mono) (use assms(4) in auto)
  moreover have "rearranged {- maxCt s..minCt s} t u" using u(2) by (rule rearranged_mono) (use assms(5) f(2) in auto)
  ultimately show ?thesis using t(1) u by (auto simp: heaps_ok_def intro: rearranged_trans)
qed

subsection \<open>The window\<close>

text \<open>The heap index that \<open>clear\<close> gives to a buffer index.\<close>

definition slot :: "int \<Rightarrow> int" where
  "slot k = ((k + 1) div 2) * (if odd k then - 1 else 1)"

definition counts_of :: "int \<Rightarrow> int \<times> int" where
  "counts_of n = (n div 2, if n = 0 then 0 else (n - 1) div 2)"

definition rm_lo :: "rolling_median_t \<Rightarrow> int" where "rm_lo s = - (rm_N s div 2)"

definition rm_hi :: "rolling_median_t \<Rightarrow> int" where "rm_hi s = (rm_N s - 1) div 2"

text \<open>The object holds the window \<open>w\<close>, oldest value first.\<close>

definition rm_holds :: "rolling_median_t \<Rightarrow> u64 list \<Rightarrow> bool" where
  "rm_holds s w \<longleftrightarrow>
     1 \<le> rm_N s \<and> rm_sz s = int (length w) \<and> rm_sz s \<le> rm_N s \<and> 0 \<le> rm_idx s \<and> rm_idx s < rm_N s \<and>
     (rm_sz s < rm_N s \<longrightarrow> rm_idx s = rm_sz s) \<and>
     (maxCt s, minCt s) = counts_of (rm_sz s) \<and>
     heaps_ok (rm_lo s) (rm_hi s) s \<and>
     (\<forall>k. rm_sz s \<le> k \<and> k < rm_N s \<longrightarrow> rm_pos s k = slot k) \<and>
     (\<forall>k. 0 \<le> k \<and> k < rm_sz s \<longrightarrow> - maxCt s \<le> rm_pos s k \<and> rm_pos s k \<le> minCt s) \<and>
     (\<forall>j < length w. rm_data s ((rm_idx s - rm_sz s + int j) mod rm_N s) = w ! j)"

lemma rm_put_fields [simp]:
  "rm_data (rm_put v s) = (rm_data s)(rm_idx s := v)" "rm_pos (rm_put v s) = rm_pos s" "rm_heap (rm_put v s) = rm_heap s"
  "rm_N (rm_put v s) = rm_N s" "rm_idx (rm_put v s) = (rm_idx s + 1) mod rm_N s" "minCt (rm_put v s) = minCt s"
  "maxCt (rm_put v s) = maxCt s" "rm_sz (rm_put v s) = min (rm_sz s + 1) (rm_N s)"
  by (simp_all add: rm_put_def)

lemma maxCt_minSortUp: "maxCt (snd (minSortUp i t)) = maxCt t"
proof (induction i t rule: minSortUp.induct)
  case (1 i s)
  then show ?case by (subst minSortUp.simps) (auto simp: mmCmpExch_def)
qed

lemma rm_insert_right:
  assumes "0 < rm_pos s (rm_idx s)" "maxCt s \<noteq> 0" "1 \<le> rm_N s"
  shows "rm_insert v s =
    (if \<not> minCt s < (rm_N s - 1) div 2 \<and> rm_data s (rm_idx s) < v then minSortDown (rm_pos s (rm_idx s)) (rm_put v s)
     else settle_up (rm_pos s (rm_idx s))
            (if minCt s < (rm_N s - 1) div 2 then (rm_put v s)\<lparr>minCt := minCt s + 1\<rparr> else rm_put v s))"
proof -
  have "(let (changed, t) = minSortUp p s; (swapped, t) = (if changed then mmCmpExch 0 (- 1) t else (False, t))
      in if swapped then maxSortDown (- 1) t else Some t) = settle_up p s" if "maxCt s \<noteq> 0" for p s
    using that maxCt_minSortUp [of p s] unfolding settle_up_def by (cases "minSortUp p s") simp
  then show ?thesis
    using assms unfolding rm_insert_def Let_def
    by (cases "minCt s < (rm_N s - 1) div 2"; cases "rm_data s (rm_idx s) < v") simp_all
qed

lemma rm_insert_left:
  "rm_pos s (rm_idx s) < 0 \<Longrightarrow> 1 \<le> rm_N s \<Longrightarrow> rm_insert v s =
    (if \<not> maxCt s < rm_N s div 2 \<and> v < rm_data s (rm_idx s) then maxSortDown (rm_pos s (rm_idx s)) (rm_put v s)
     else settle_down (rm_pos s (rm_idx s))
            (if maxCt s < rm_N s div 2 then (rm_put v s)\<lparr>maxCt := maxCt s + 1\<rparr> else rm_put v s))"
  unfolding rm_insert_def settle_down_def Let_def
  by (cases "maxCt s < rm_N s div 2"; cases "v < rm_data s (rm_idx s)") simp_all

lemma rm_insert_median:
  assumes "rm_pos s (rm_idx s) = 0" "1 \<le> rm_N s"
  shows "rm_insert v s = Option.bind (settle_left (rm_put v s)) settle_right"
proof -
  have "settle_right = (\<lambda>s. let (changed, s) = (if minCt s \<noteq> 0 then minSortUp 1 s else (False, s))
      in if changed then minSortDown 1 s else Some s)"
    by (simp add: settle_right_def fun_eq_iff)
  then show ?thesis
    using assms unfolding rm_insert_def settle_left_def
    by (cases "maxCt s = 0"; cases "maxSortUp (- 1) (rm_put v s)") (simp_all add: Let_def)
qed

lemma slot_cases:
  assumes "0 \<le> k"
  obtains (zero) "k = 0" "slot k = 0"
  | (right) m where "1 \<le> m" "k = 2 * m" "slot k = m"
  | (left) m where "1 \<le> m" "k = 2 * m - 1" "slot k = - m"
proof (cases "even k")
  case True
  then obtain m where "k = 2 * m" by (elim evenE)
  then show ?thesis using assms that(1) that(2) [of m] by (cases "m = 0") (simp_all add: slot_def)
next
  case False
  then obtain m where "k = 2 * m + 1" by (elim oddE)
  then show ?thesis using assms that(3) [of "m + 1"] by (simp add: slot_def)
qed

lemma slot_sign:
  "0 \<le> k \<Longrightarrow> 0 < slot k \<Longrightarrow> \<exists>m\<ge>1. k = 2 * m \<and> slot k = m"
  "0 \<le> k \<Longrightarrow> slot k < 0 \<Longrightarrow> \<exists>m\<ge>1. k = 2 * m - 1 \<and> slot k = - m"
  "0 \<le> k \<Longrightarrow> slot k = 0 \<Longrightarrow> k = 0"
  by (erule slot_cases; force)+

lemma slot_inside: "0 \<le> k \<Longrightarrow> - fst (counts_of (k + 1)) \<le> slot k \<and> slot k \<le> snd (counts_of (k + 1))"
  by (rule slot_cases [of k]) (auto simp: counts_of_def)

lemma slot_outside: "1 \<le> n \<Longrightarrow> n \<le> k \<Longrightarrow> slot k < - fst (counts_of n) \<or> snd (counts_of n) < slot k"
  by (rule slot_cases [of k]) (auto simp: counts_of_def)

text \<open>The object after the new value has been written and counted, before the heaps are restored.\<close>

definition rm_counted :: "u64 \<Rightarrow> rolling_median_t \<Rightarrow> rolling_median_t" where
  "rm_counted v s = (rm_put v s)\<lparr>maxCt := fst (counts_of (min (rm_sz s + 1) (rm_N s))),
     minCt := snd (counts_of (min (rm_sz s + 1) (rm_N s)))\<rparr>"

lemma rm_counted_fields [simp]:
  "rm_data (rm_counted v s) = (rm_data s)(rm_idx s := v)" "rm_pos (rm_counted v s) = rm_pos s" "rm_heap (rm_counted v s) = rm_heap s"
  "rm_N (rm_counted v s) = rm_N s" "rm_idx (rm_counted v s) = (rm_idx s + 1) mod rm_N s" "rm_sz (rm_counted v s) = min (rm_sz s + 1) (rm_N s)"
  by (simp_all add: rm_counted_def)

lemma rm_counted_counts:
  "maxCt (rm_counted v s) = fst (counts_of (min (rm_sz s + 1) (rm_N s)))"
  "minCt (rm_counted v s) = snd (counts_of (min (rm_sz s + 1) (rm_N s)))"
  by (simp_all add: rm_counted_def)

lemma rm_counted_put:
  "maxCt (rm_counted v s) = maxCt s \<Longrightarrow> minCt (rm_counted v s) = m \<Longrightarrow> (rm_put v s)\<lparr>minCt := m\<rparr> = rm_counted v s"
  "minCt (rm_counted v s) = minCt s \<Longrightarrow> maxCt (rm_counted v s) = m \<Longrightarrow> (rm_put v s)\<lparr>maxCt := m\<rparr> = rm_counted v s"
  "minCt (rm_counted v s) = minCt s \<Longrightarrow> maxCt (rm_counted v s) = maxCt s \<Longrightarrow> rm_put v s = rm_counted v s"
  by (cases s; simp add: rm_counted_def rm_put_def)+

lemma hold_facts:
  assumes "rm_holds s w"
  shows "perm_ok (rm_lo s) (rm_hi s) s"
    "rm_lo s \<le> rm_pos s (rm_idx s)" "rm_pos s (rm_idx s) \<le> rm_hi s" "rm_heap s (rm_pos s (rm_idx s)) = rm_idx s"
    "rm_sz s = rm_N s \<or> rm_sz s < rm_N s \<and> 0 \<le> rm_sz s \<and> rm_pos s (rm_idx s) = slot (rm_sz s)"
    "maxCt s = fst (counts_of (rm_sz s))" "minCt s = snd (counts_of (rm_sz s))" "1 \<le> rm_N s"
    "\<And>j. 1 \<le> j \<Longrightarrow> j \<le> minCt s \<Longrightarrow> rm_val s (j div 2) \<le> rm_val s j"
    "\<And>j. 1 \<le> j \<Longrightarrow> j \<le> maxCt s \<Longrightarrow> rm_val s (- j) \<le> rm_val s (- (j div 2))"
proof -
  have h: "0 \<le> rm_idx s" "rm_idx s < rm_N s" "perm_ok (rm_lo s) (rm_hi s) s"
    using assms unfolding rm_holds_def heaps_ok_def by auto
  then show "rm_lo s \<le> rm_pos s (rm_idx s)" "rm_pos s (rm_idx s) \<le> rm_hi s" "rm_heap s (rm_pos s (rm_idx s)) = rm_idx s"
    unfolding perm_ok_def by blast+
  show "perm_ok (rm_lo s) (rm_hi s) s" by (rule h)
  show "\<And>j. 1 \<le> j \<Longrightarrow> j \<le> minCt s \<Longrightarrow> rm_val s (j div 2) \<le> rm_val s j"
    "\<And>j. 1 \<le> j \<Longrightarrow> j \<le> maxCt s \<Longrightarrow> rm_val s (- j) \<le> rm_val s (- (j div 2))"
    using assms unfolding rm_holds_def heaps_ok_def min_ordered_def max_ordered_iff by blast+
qed (use assms in \<open>auto simp: rm_holds_def prod_eq_iff\<close>)

lemma insert_facts:
  assumes "rm_holds s w"
  shows "perm_ok (rm_lo s) (rm_hi s) (rm_counted v s)" "rm_lo s \<le> - maxCt (rm_counted v s)" "minCt (rm_counted v s) \<le> rm_hi s"
    "0 \<le> maxCt (rm_counted v s)" "0 \<le> minCt (rm_counted v s)" "maxCt s \<le> maxCt (rm_counted v s)" "minCt s \<le> minCt (rm_counted v s)"
    "\<And>i. rm_lo s \<le> i \<Longrightarrow> i \<le> rm_hi s \<Longrightarrow>
       rm_val (rm_counted v s) i = (if i = rm_pos s (rm_idx s) then v else rm_val s i)"
proof -
  note h = hold_facts [OF assms]
  show "rm_val (rm_counted v s) i = (if i = rm_pos s (rm_idx s) then v else rm_val s i)" if "rm_lo s \<le> i" "i \<le> rm_hi s" for i
    using that h(1-4) by (auto simp: perm_ok_def)
  show "perm_ok (rm_lo s) (rm_hi s) (rm_counted v s)" using h(1) by (simp add: perm_ok_def)
  show "rm_lo s \<le> - maxCt (rm_counted v s)" "minCt (rm_counted v s) \<le> rm_hi s" "0 \<le> maxCt (rm_counted v s)"
    "0 \<le> minCt (rm_counted v s)" "maxCt s \<le> maxCt (rm_counted v s)" "minCt s \<le> minCt (rm_counted v s)"
    using h(5-8) by (auto simp: rm_counted_counts counts_of_def rm_lo_def rm_hi_def)
qed

definition restored :: "u64 \<Rightarrow> rolling_median_t \<Rightarrow> bool" where
  "restored v s \<longleftrightarrow> (\<exists>t. rm_insert v s = Some t \<and>
     rearranged {- maxCt (rm_counted v s)..minCt (rm_counted v s)} (rm_counted v s) t \<and> heaps_ok (rm_lo s) (rm_hi s) t)"

lemma restored_right:
  assumes "rm_holds s w" "0 < rm_pos s (rm_idx s)"
  shows "restored v s"
proof -
  define u p where "u = rm_counted v s" "p = rm_pos s (rm_idx s)"
  note f = insert_facts [OF assms(1), where v = v, folded u_p_def] and h = hold_facts [OF assms(1), folded u_p_def(2)]
  have q: "maxCt u = maxCt s \<and> maxCt s \<noteq> 0 \<and> (if rm_sz s < rm_N s then minCt u = p \<and> minCt s = p - 1 \<and> minCt s < rm_hi s
      else minCt u = minCt s \<and> minCt s = rm_hi s)"
    using h(5)
  proof
    assume "rm_sz s = rm_N s"
    then show ?thesis using h(3,6-8) assms(2) by (auto simp: u_p_def rm_counted_counts counts_of_def rm_hi_def)
  next
    assume sl: "rm_sz s < rm_N s \<and> 0 \<le> rm_sz s \<and> p = slot (rm_sz s)"
    then obtain m where "rm_sz s = 2 * m" "p = m" "1 \<le> m" using assms(2) slot_sign(1) [of "rm_sz s"] by (auto simp: u_p_def)
    then show ?thesis using h(6-8) sl by (auto simp: u_p_def(1) rm_counted_counts counts_of_def rm_hi_def) arith
  qed
  have p: "1 \<le> p" "p \<le> minCt u" using assms(2) q h(3) by (auto simp: u_p_def(2) split: if_splits)
  have max: "max_ordered u" unfolding max_ordered_iff
  proof (intro allI impI)
    fix j assume j: "1 \<le> j \<and> j \<le> maxCt u"
    have "rm_val u (- i) = rm_val s (- i)" if "0 \<le> i" "i \<le> j" for i using f(8) [of "- i"] f(2-5) j p(1) that by simp
    moreover have "0 \<le> j div 2" "j div 2 \<le> j" using j by arith+
    ultimately have "rm_val u (- j) = rm_val s (- j)" "rm_val u (- (j div 2)) = rm_val s (- (j div 2))" using j by auto
    then show "rm_val u (- j) \<le> rm_val u (- (j div 2))" using j q h(10) [of j] by simp
  qed
  have old: "rm_val s p = rm_data s (rm_idx s)" using h(4) by simp
  have val: "rm_val u j = (if j = p then v else rm_val s j)" if "0 \<le> j" "j \<le> minCt u" for j
    using that f(2-5) by (intro f(8)) auto
  show ?thesis
  proof (cases "\<not> rm_sz s < rm_N s \<and> rm_data s (rm_idx s) < v")
    case True
    have "\<exists>t. minSortDown p u = Some t \<and> rearranged {- maxCt u..minCt u} u t \<and> heaps_ok (rm_lo s) (rm_hi s) t"
    proof (rule minSortDown_ok)
      show "rm_val u (j div 2) \<le> rm_val u j" if "1 \<le> j" "j \<le> minCt u" "j div 2 \<noteq> p" for j
        using that val [of j] val [of "j div 2"] h(9) [of j] q True old by (auto split: if_splits)
      show "rm_val u (p div 2) \<le> rm_val u j" if "1 \<le> j" "j \<le> minCt u" "j div 2 = p" for j
        using that val [of j] val [of "p div 2"] h(9) [of j] h(9) [of p] q True p by (auto split: if_splits)
    qed (use f max p in auto)
    moreover have "rm_insert v s = minSortDown p u"
      using True q assms(2) h(8) rm_insert_right [of s v] by (simp add: u_p_def rm_hi_def rm_counted_put(3))
    ultimately show ?thesis by (simp add: restored_def u_p_def)
  next
    case False
    have "\<exists>t. settle_up p u = Some t \<and> rearranged {- maxCt u..minCt u} u t \<and> heaps_ok (rm_lo s) (rm_hi s) t"
    proof (rule settle_up_ok)
      show "rm_val u (j div 2) \<le> rm_val u j" if "1 \<le> j" "j \<le> minCt u" "j \<noteq> p" for j
        using that val [of j] val [of "j div 2"] h(9) [of j] q False old by (auto split: if_splits)
      show "rm_val u (p div 2) \<le> rm_val u j" if "1 \<le> j" "j \<le> minCt u" "j div 2 = p" for j
        using that val [of j] val [of "p div 2"] h(9) [of j] h(9) [of p] q p by (auto split: if_splits)
    qed (use f max p in auto)
    moreover have "rm_insert v s = settle_up p u"
    proof -
      have "(if minCt s < rm_hi s then (rm_put v s)\<lparr>minCt := minCt s + 1\<rparr> else rm_put v s) = u"
        using q by (cases "rm_sz s < rm_N s") (simp_all add: u_p_def(1) rm_counted_put)
      then show ?thesis using False q assms(2) h(8) rm_insert_right [of s v] by (auto simp: u_p_def(2) rm_hi_def)
    qed
    ultimately show ?thesis by (simp add: restored_def u_p_def)
  qed
qed

lemma restored_left:
  assumes "rm_holds s w" "rm_pos s (rm_idx s) < 0"
  shows "restored v s"
proof -
  define u p where "u = rm_counted v s" "p = - rm_pos s (rm_idx s)"
  have pos: "rm_pos s (rm_idx s) = - p" by (simp add: u_p_def)
  note f = insert_facts [OF assms(1), where v = v, folded u_p_def, unfolded pos] and h = hold_facts [OF assms(1), unfolded pos]
  have q: "minCt u = minCt s \<and> (if rm_sz s < rm_N s then maxCt u = p \<and> maxCt s = p - 1 \<and> maxCt s < rm_N s div 2
      else maxCt u = maxCt s \<and> maxCt s = rm_N s div 2)"
    using h(5)
  proof
    assume "rm_sz s = rm_N s"
    then show ?thesis using h(6-8) by (auto simp: u_p_def rm_counted_counts counts_of_def)
  next
    assume sl: "rm_sz s < rm_N s \<and> 0 \<le> rm_sz s \<and> - p = slot (rm_sz s)"
    then obtain m where "rm_sz s = 2 * m - 1" "p = m" "1 \<le> m" using assms(2) pos slot_sign(2) [of "rm_sz s"] by auto
    then show ?thesis using h(6-8) sl by (auto simp: u_p_def(1) rm_counted_counts counts_of_def) arith
  qed
  have p: "1 \<le> p" "p \<le> maxCt u" using assms(2) q h(2) pos by (auto simp: rm_lo_def split: if_splits)
  have min: "min_ordered u" unfolding min_ordered_def
  proof (intro allI impI)
    fix j assume j: "1 \<le> j \<and> j \<le> minCt u"
    have "rm_val u i = rm_val s i" if "0 \<le> i" "i \<le> j" for i using f(8) [of i] f(2-5) j p(1) that by simp
    moreover have "0 \<le> j div 2" "j div 2 \<le> j" using j by arith+
    ultimately have "rm_val u j = rm_val s j" "rm_val u (j div 2) = rm_val s (j div 2)" using j by auto
    then show "rm_val u (j div 2) \<le> rm_val u j" using j q h(9) [of j] by simp
  qed
  have old: "rm_val s (- p) = rm_data s (rm_idx s)" using h(4) by simp
  have val: "rm_val u (- j) = (if j = p then v else rm_val s (- j))" if "0 \<le> j" "j \<le> maxCt u" for j
    using that f(2-5) f(8) [of "- j"] by auto
  show ?thesis
  proof (cases "\<not> rm_sz s < rm_N s \<and> v < rm_data s (rm_idx s)")
    case True
    have "\<exists>t. maxSortDown (- p) u = Some t \<and> rearranged {- maxCt u..minCt u} u t \<and> heaps_ok (rm_lo s) (rm_hi s) t"
    proof (rule maxSortDown_ok)
      show "rm_val u (- j) \<le> rm_val u (- (j div 2))" if "1 \<le> j" "j \<le> maxCt u" "j div 2 \<noteq> p" for j
        using that val [of j] val [of "j div 2"] h(10) [of j] q True old by (auto split: if_splits)
      show "rm_val u (- j) \<le> rm_val u (- (p div 2))" if "1 \<le> j" "j \<le> maxCt u" "j div 2 = p" for j
        using that val [of j] val [of "p div 2"] h(10) [of j] h(10) [of p] q True p by (auto split: if_splits)
    qed (use f min p in auto)
    moreover have "rm_insert v s = maxSortDown (- p) u"
      using True q p(1) pos h(8) rm_insert_left [of s v] by (simp add: u_p_def(1) rm_counted_put(3))
    ultimately show ?thesis by (simp add: restored_def u_p_def(1))
  next
    case False
    have "\<exists>t. settle_down (- p) u = Some t \<and> rearranged {- maxCt u..minCt u} u t \<and> heaps_ok (rm_lo s) (rm_hi s) t"
    proof (rule settle_down_ok)
      show "rm_val u (- j) \<le> rm_val u (- (j div 2))" if "1 \<le> j" "j \<le> maxCt u" "j \<noteq> p" for j
        using that val [of j] val [of "j div 2"] h(10) [of j] q False old by (auto split: if_splits)
      show "rm_val u (- j) \<le> rm_val u (- (p div 2))" if "1 \<le> j" "j \<le> maxCt u" "j div 2 = p" for j
        using that val [of j] val [of "p div 2"] h(10) [of j] h(10) [of p] q p by (auto split: if_splits)
    qed (use f min p in auto)
    moreover have "rm_insert v s = settle_down (- p) u"
    proof -
      have "(if maxCt s < rm_N s div 2 then (rm_put v s)\<lparr>maxCt := maxCt s + 1\<rparr> else rm_put v s) = u"
        using q by (cases "rm_sz s < rm_N s") (simp_all add: u_p_def(1) rm_counted_put)
      then show ?thesis using False q p(1) pos h(8) rm_insert_left [of s v] by auto
    qed
    ultimately show ?thesis by (simp add: restored_def u_p_def(1))
  qed
qed

lemma restored_median:
  assumes "rm_holds s w" "rm_pos s (rm_idx s) = 0"
  shows "restored v s"
proof -
  define u where "u = rm_counted v s"
  note f = insert_facts [OF assms(1), where v = v, folded u_def, unfolded assms(2)] and h = hold_facts [OF assms(1), unfolded assms(2)]
  have q: "minCt u = minCt s \<and> maxCt u = maxCt s"
    using h(5)
  proof
    assume "rm_sz s < rm_N s \<and> 0 \<le> rm_sz s \<and> 0 = slot (rm_sz s)"
    then have "rm_sz s = 0" using slot_sign(3) [of "rm_sz s"] by simp
    then show ?thesis using h(6-8) by (auto simp: u_def rm_counted_counts counts_of_def)
  qed (use h(6-8) in \<open>auto simp: u_def rm_counted_counts counts_of_def\<close>)
  have val: "rm_val u i = (if i = 0 then v else rm_val s i)" if "- maxCt u \<le> i" "i \<le> minCt u" for i
    using that f(2,3) f(8) by auto
  have "\<exists>t. Option.bind (settle_left u) settle_right = Some t \<and> rearranged {- maxCt u..minCt u} u t \<and> heaps_ok (rm_lo s) (rm_hi s) t"
  proof (rule settle_median_ok)
    show "rm_val u (j div 2) \<le> rm_val u j" if "2 \<le> j" "j \<le> minCt u" for j
      using that val [of j] val [of "j div 2"] h(9) [of j] q f(4) by auto
    show "rm_val u (- j) \<le> rm_val u (- (j div 2))" if "2 \<le> j" "j \<le> maxCt u" for j
      using that val [of "- j"] val [of "- (j div 2)"] h(10) [of j] q f(5) by auto
    show "rm_val u (- 1) \<le> rm_val u 1" if "1 \<le> minCt u" "1 \<le> maxCt u"
      using that val [of 1] val [of "- 1"] h(9) [of 1] h(10) [of 1] q by auto
  qed (use f in auto)
  moreover have "rm_insert v s = Option.bind (settle_left u) settle_right"
    using assms(2) h(8) rm_insert_median [of s v] q by (simp add: u_def rm_counted_put(3))
  ultimately show ?thesis by (simp add: restored_def u_def)
qed

subsection \<open>Insertion moves the window\<close>

lemma mod_shift: "(a mod n - b + c) mod n = (a - b + c) mod n" for n :: int
  using mod_diff_left_eq [of a n "b - c"] by (simp add: algebra_simps)

lemma moved_window:
  assumes "rm_holds s w" "j < length w'" "w' = (if int (length w) < rm_N s then w else tl w) @ [v]"
  shows "((rm_data s)(rm_idx s := v)) (((rm_idx s + 1) mod rm_N s - min (rm_sz s + 1) (rm_N s) + int j) mod rm_N s) = w' ! j"
proof -
  let ?n = "rm_N s"
  have h: "1 \<le> ?n" "rm_sz s = int (length w)" "0 \<le> rm_idx s" "rm_idx s < ?n" "rm_sz s < ?n \<longrightarrow> rm_idx s = rm_sz s" "rm_sz s \<le> ?n"
    "\<And>j. j < length w \<Longrightarrow> rm_data s ((rm_idx s - rm_sz s + int j) mod ?n) = w ! j"
    using assms(1) unfolding rm_holds_def by auto
  show ?thesis
  proof (cases "int (length w) < ?n")
    case True
    have "((rm_sz s + 1) mod ?n - (rm_sz s + 1) + int j) mod ?n = int j mod ?n" by (simp add: mod_shift)
    also have "\<dots> = int j" using True assms(2,3) by simp
    finally have "((rm_idx s + 1) mod ?n - min (rm_sz s + 1) ?n + int j) mod ?n = int j" using True h by simp
    moreover have "rm_data s (int j) = w ! j" if "j < length w" using h(7) [OF that] True h(2,5) that by simp
    ultimately show ?thesis using True assms(2,3) h(2,5) by (auto simp: nth_append)
  next
    case False
    then have l: "int (length w) = ?n" "rm_sz s = ?n" using h by auto
    have i: "((rm_idx s + 1) mod ?n - min (rm_sz s + 1) ?n + int j) mod ?n = (rm_idx s + (1 + int j)) mod ?n"
    proof -
      have "((rm_idx s + 1) mod ?n - ?n + int j) mod ?n = (rm_idx s + (1 + int j) - ?n) mod ?n"
        unfolding mod_shift by (rule arg_cong [where f = "\<lambda>x. x mod ?n"]) simp
      then show ?thesis using l by simp
    qed
    show ?thesis
    proof (cases "j = length w - 1")
      case True
      then have "(rm_idx s + (1 + int j)) mod ?n = rm_idx s" using l h(1,3,4) by simp
      then show ?thesis unfolding i using True False assms(3) l h(1) by (simp add: nth_append)
    next
      case False
      then have j: "Suc j < length w" using assms(2,3) \<open>\<not> int (length w) < ?n\<close> by auto
      have "(rm_idx s + (1 + int j)) mod ?n \<noteq> rm_idx s"
      proof
        assume "(rm_idx s + (1 + int j)) mod ?n = rm_idx s"
        then have "(rm_idx s + (1 + int j)) mod ?n = (rm_idx s + 0) mod ?n" using h(3,4) by simp
        then have "?n dvd 1 + int j" by (simp only: mod_eq_dvd_iff) simp
        then show False using j l zdvd_imp_le [of ?n "1 + int j"] by simp
      qed
      moreover have "rm_data s ((rm_idx s + (1 + int j)) mod ?n) = w ! Suc j"
      proof -
        have "(rm_idx s - ?n + int (Suc j)) mod ?n = (rm_idx s + (1 + int j)) mod ?n" by (simp add: mod_simps algebra_simps)
        then show ?thesis using h(7) [OF j] l by simp
      qed
      moreover have "j < length w - 1" using j by simp
      ultimately show ?thesis unfolding i using \<open>\<not> int (length w) < ?n\<close> assms(3) by (simp add: nth_append nth_tl)
    qed
  qed
qed

lemma insert_holds:
  assumes "rm_holds s w"
  shows "\<exists>t. rm_insert v s = Some t \<and> rm_N t = rm_N s \<and> rm_holds t ((if int (length w) < rm_N s then w else tl w) @ [v])"
proof -
  let ?u = "rm_counted v s" and ?w = "(if int (length w) < rm_N s then w else tl w) @ [v]"
  have "restored v s"
    using assms restored_right restored_left restored_median linorder_less_linear [of "rm_pos s (rm_idx s)" 0] by blast
  then obtain t where t: "rm_insert v s = Some t" "rearranged {- maxCt ?u..minCt ?u} ?u t" "heaps_ok (rm_lo s) (rm_hi s) t"
    by (auto simp: restored_def)
  note f = rearranged_fields [OF t(2)]
  have h: "1 \<le> rm_N s" "rm_sz s = int (length w)" "rm_sz s \<le> rm_N s" "0 \<le> rm_idx s" "rm_idx s < rm_N s" "rm_sz s < rm_N s \<longrightarrow> rm_idx s = rm_sz s"
    "\<And>k. rm_sz s \<le> k \<Longrightarrow> k < rm_N s \<Longrightarrow> rm_pos s k = slot k"
    "\<And>k. 0 \<le> k \<Longrightarrow> k < rm_sz s \<Longrightarrow> - maxCt s \<le> rm_pos s k \<and> rm_pos s k \<le> minCt s"
    using assms unfolding rm_holds_def by auto
  have range: "rm_lo t = rm_lo s" "rm_hi t = rm_hi s" using f(4) by (simp_all add: rm_lo_def rm_hi_def)
  have pt: "perm_ok (rm_lo s) (rm_hi s) t" and ps: "perm_ok (rm_lo s) (rm_hi s) s"
    using t(3) hold_facts(1) [OF assms] by (simp_all add: heaps_ok_def)
  have fixed: "rm_pos t k = rm_pos s k" if "0 \<le> k" "k < rm_N s" "rm_pos t k \<notin> {- maxCt ?u..minCt ?u} \<or> rm_pos s k \<notin> {- maxCt ?u..minCt ?u}" for k
  proof -
    have at: "rm_heap t (rm_pos t k) = k" "rm_heap s (rm_pos s k) = k" "rm_lo s \<le> rm_pos t k" "rm_pos t k \<le> rm_hi s"
      "rm_lo s \<le> rm_pos s k" "rm_pos s k \<le> rm_hi s"
      using pt ps that(1,2) f(4) by (simp_all add: perm_ok_def)
    have eq: "rm_heap t i = rm_heap s i" if "i \<notin> {- maxCt ?u..minCt ?u}" for i using t(2) that by (simp add: rearranged_def)
    from that(3) show ?thesis
    proof
      assume "rm_pos t k \<notin> {- maxCt ?u..minCt ?u}"
      then show ?thesis using eq at ps unfolding perm_ok_def by metis
    next
      assume "rm_pos s k \<notin> {- maxCt ?u..minCt ?u}"
      then show ?thesis using eq at pt unfolding perm_ok_def by metis
    qed
  qed
  have in_range: "- maxCt ?u \<le> rm_pos t k \<and> rm_pos t k \<le> minCt ?u" if "0 \<le> k" "k < rm_sz ?u" for k
  proof (rule ccontr)
    assume "\<not> (- maxCt ?u \<le> rm_pos t k \<and> rm_pos t k \<le> minCt ?u)"
    then have out: "\<not> (- maxCt ?u \<le> rm_pos s k \<and> rm_pos s k \<le> minCt ?u)" using fixed [of k] that by auto
    then have "\<not> k < rm_sz s" using h(8) [of k] that(1) insert_facts(6,7) [OF assms, of v] by force
    then have "k = rm_sz s" "rm_pos s k = slot k" using that h(7) [of k] by auto
    then show False using out that(1,2) slot_inside [of k] by (simp add: rm_counted_counts min_def split: if_splits)
  qed
  have "rm_pos t k = slot k" if "rm_sz ?u \<le> k" "k < rm_N s" for k
  proof -
    have "rm_pos s k = slot k" "0 \<le> k" "1 \<le> rm_sz ?u" using that h(1-3,7) by auto
    moreover have "slot k \<notin> {- maxCt ?u..minCt ?u}"
      using slot_outside [of "rm_sz ?u" k] calculation(3) that(1) by (auto simp: rm_counted_counts)
    ultimately show ?thesis using fixed [of k] that(2) by simp
  qed
  moreover have "rm_data t ((rm_idx t - rm_sz t + int j) mod rm_N t) = ?w ! j" if "j < length ?w" for j
    using moved_window [OF assms that refl] f by simp
  moreover have "(rm_idx s + 1) mod rm_N s = rm_sz s + 1" if "rm_sz s + 1 < rm_N s" using that h by simp
  ultimately have "rm_holds t ?w"
    using h(1-6) t(3) in_range unfolding rm_holds_def range f
    by (auto simp: rm_counted_counts)
  then show ?thesis using t(1) f(4) by auto
qed

subsection \<open>The empty window\<close>

lemma slot_inj: "0 \<le> j \<Longrightarrow> 0 \<le> k \<Longrightarrow> slot j = slot k \<Longrightarrow> j = k"
  by (rule slot_cases [of j]; simp; rule slot_cases [of k]) auto

lemma clear_fold:
  fixes s :: rolling_median_t
  defines "f \<equiv> \<lambda>nItems s. let s = s\<lparr>rm_pos := (rm_pos s)(nItems := slot nItems)\<rparr> in s\<lparr>rm_heap := (rm_heap s)(rm_pos s nItems := nItems)\<rparr>"
  assumes "distinct ks" "\<forall>k \<in> set ks. 0 \<le> k"
  shows "fold f ks s = s\<lparr>rm_heap := rm_heap (fold f ks s), rm_pos := rm_pos (fold f ks s)\<rparr> \<and>
    (\<forall>k \<in> set ks. rm_pos (fold f ks s) k = slot k \<and> rm_heap (fold f ks s) (slot k) = k) \<and>
    (\<forall>k. k \<notin> set ks \<longrightarrow> rm_pos (fold f ks s) k = rm_pos s k) \<and>
    (\<forall>i. i \<notin> slot ` set ks \<longrightarrow> rm_heap (fold f ks s) i = rm_heap s i)"
  using assms(2,3)
proof (induction ks arbitrary: s)
  case (Cons k ks)
  have IH: "fold f ks t = t\<lparr>rm_heap := rm_heap (fold f ks t), rm_pos := rm_pos (fold f ks t)\<rparr>"
    "\<forall>k \<in> set ks. rm_pos (fold f ks t) k = slot k \<and> rm_heap (fold f ks t) (slot k) = k"
    "\<forall>k. k \<notin> set ks \<longrightarrow> rm_pos (fold f ks t) k = rm_pos t k"
    "\<forall>i. i \<notin> slot ` set ks \<longrightarrow> rm_heap (fold f ks t) i = rm_heap t i" for t
    using Cons by auto
  have fk: "f k s = s\<lparr>rm_heap := (rm_heap s)(slot k := k), rm_pos := (rm_pos s)(k := slot k)\<rparr>" by (simp add: f_def)
  have "slot k \<notin> slot ` set ks"
  proof
    assume "slot k \<in> slot ` set ks"
    then obtain j where "j \<in> set ks" "slot k = slot j" by blast
    then show False using Cons.prems slot_inj [of k j] by auto
  qed
  moreover have "k \<notin> set ks" using Cons.prems by simp
  ultimately show ?case
    using IH [of "f k s"] by (simp add: fk)
qed simp

lemma new_holds:
  assumes "1 \<le> n"
  shows "rm_holds (rolling_median_new n mem) []" "rm_N (rolling_median_new n mem) = n"
proof -
  define s where "s = mem\<lparr>rm_N := n, rm_idx := 0, minCt := 0, maxCt := 0, rm_sz := 0\<rparr>"
  define t where "t = rolling_median_new n mem"
  have r: "t = s\<lparr>rm_heap := rm_heap t, rm_pos := rm_pos t\<rparr>"
    "\<And>k. 0 \<le> k \<Longrightarrow> k < n \<Longrightarrow> rm_pos t k = slot k \<and> rm_heap t (slot k) = k"
    using clear_fold [of "rev [0..n - 1]" s] unfolding t_def s_def rolling_median_new_def rm_clear_def slot_def by auto
  have f: "rm_N t = n" "rm_idx t = 0" "minCt t = 0" "maxCt t = 0" "rm_sz t = 0" by (subst r(1), simp add: s_def)+
  have "rm_lo t \<le> slot k \<and> slot k \<le> rm_hi t" if "0 \<le> k" "k < n" for k
    by (rule slot_cases [OF that(1)]) (use that in \<open>auto simp: rm_lo_def rm_hi_def f\<close>)
  moreover have "\<exists>k. 0 \<le> k \<and> k < n \<and> slot k = i" if "rm_lo t \<le> i" "i \<le> rm_hi t" for i
  proof (cases "0 \<le> i")
    case True
    then show ?thesis using that by (intro exI [of _ "2 * i"]) (auto simp: slot_def rm_hi_def f)
  next
    case False
    then show ?thesis using that by (intro exI [of _ "- (2 * i) - 1"]) (auto simp: slot_def rm_lo_def f)
  qed
  ultimately have "perm_ok (rm_lo t) (rm_hi t) t" unfolding perm_ok_def f using r(2) by metis
  then show "rm_holds (rolling_median_new n mem) []"
    using assms r(2) unfolding t_def [symmetric] rm_holds_def heaps_ok_def min_ordered_def max_ordered_iff
    by (auto simp: f counts_of_def)
  show "rm_N (rolling_median_new n mem) = n" using f(1) by (simp add: t_def)
qed

subsection \<open>The median of the window\<close>

lemma min_ordered_top: "min_ordered s \<Longrightarrow> 1 \<le> j \<Longrightarrow> j \<le> minCt s \<Longrightarrow> rm_val s 0 \<le> rm_val s j"
proof (induction "nat j" arbitrary: j rule: less_induct)
  case less
  have "rm_val s (j div 2) \<le> rm_val s j" using less.prems by (simp add: min_ordered_def)
  moreover have "rm_val s 0 \<le> rm_val s (j div 2)" if "j \<noteq> 1" using that less by (intro less.hyps) auto
  ultimately show ?case by (cases "j = 1") auto
qed

lemma max_ordered_top:
  assumes "max_ordered s" "1 \<le> j" "j \<le> maxCt s"
  shows "rm_val s (- j) \<le> rm_val s 0" "rm_val s (- j) \<le> rm_val s (- 1)"
proof -
  show "rm_val s (- j) \<le> rm_val s 0" using min_ordered_top [of "mirror s" j] assms by simp
  show "rm_val s (- j) \<le> rm_val s (- 1)"
    using assms(2,3)
  proof (induction "nat j" arbitrary: j rule: less_induct)
    case less
    have "rm_val s (- j) \<le> rm_val s (- (j div 2))" using less.prems assms(1) by (simp add: max_ordered_iff)
    moreover have "rm_val s (- (j div 2)) \<le> rm_val s (- 1)" if "j \<noteq> 1" using that less by (intro less.hyps) auto
    ultimately show ?case by (cases "j = 1") auto
  qed
qed

lemma sort_nth_split:
  fixes w :: "'a::linorder list"
  assumes "mset w = L + add_mset x R" "\<forall>y \<in># L. y \<le> x" "\<forall>y \<in># R. x \<le> y"
  shows "sort w ! size L = x"
proof -
  let ?s = "sorted_list_of_multiset L @ x # sorted_list_of_multiset R"
  have "sort w = ?s"
  proof (rule properties_for_sort)
    show "mset ?s = mset w" using assms(1) by simp
    have "y \<le> z" if "y \<in># L" "z \<in># R" for y z using assms(2,3) that by (meson order_trans)
    then show "sorted ?s" using assms(2,3) by (auto simp: sorted_append)
  qed
  then show ?thesis by (simp add: nth_append flip: size_mset)
qed

lemma window_mset:
  assumes "rm_holds s w" "w \<noteq> []"
  shows "mset w = image_mset (rm_val s) (mset_set {- maxCt s..minCt s})"
proof -
  have h: "1 \<le> rm_N s" "rm_sz s = int (length w)" "rm_sz s \<le> rm_N s" "0 \<le> rm_idx s" "rm_idx s < rm_N s"
    "rm_sz s < rm_N s \<longrightarrow> rm_idx s = rm_sz s" "perm_ok (rm_lo s) (rm_hi s) s"
    "\<And>k. rm_sz s \<le> k \<Longrightarrow> k < rm_N s \<Longrightarrow> rm_pos s k = slot k"
    "\<And>k. 0 \<le> k \<Longrightarrow> k < rm_sz s \<Longrightarrow> - maxCt s \<le> rm_pos s k \<and> rm_pos s k \<le> minCt s"
    "\<And>j. j < length w \<Longrightarrow> rm_data s ((rm_idx s - rm_sz s + int j) mod rm_N s) = w ! j"
    "maxCt s = fst (counts_of (rm_sz s))" "minCt s = snd (counts_of (rm_sz s))"
    using assms(1) unfolding rm_holds_def heaps_ok_def by (auto simp: prod_eq_iff)
  have range: "rm_lo s \<le> - maxCt s" "minCt s \<le> rm_hi s"
    using h(1-3,11,12) assms(2) by (auto simp: counts_of_def rm_lo_def rm_hi_def)
  have "bij_betw (rm_heap s) {- maxCt s..minCt s} {0..<rm_sz s}"
  proof (rule bij_betw_byWitness [where f' = "rm_pos s"])
    show "rm_heap s ` {- maxCt s..minCt s} \<subseteq> {0..<rm_sz s}"
    proof
      fix k assume "k \<in> rm_heap s ` {- maxCt s..minCt s}"
      then have k: "0 \<le> k" "k < rm_N s" "- maxCt s \<le> rm_pos s k" "rm_pos s k \<le> minCt s" using range h(7) by (auto simp: perm_ok_def)
      moreover have "\<not> rm_sz s \<le> k"
        using h(8) [of k] k slot_outside [of "rm_sz s" k] h(2,11,12) assms(2) by (cases w) auto
      ultimately show "k \<in> {0..<rm_sz s}" by simp
    qed
  qed (use h(3,7,9) range in \<open>auto simp: perm_ok_def\<close>)
  moreover have "bij_betw (\<lambda>j. (rm_idx s - rm_sz s + int j) mod rm_N s) {0..<length w} {0..<rm_sz s}"
  proof (cases "rm_sz s < rm_N s")
    case True
    then have "bij_betw int {0..<length w} {0..<rm_sz s}" using h(2) by (simp add: bij_betw_def image_int_atLeastLessThan)
    moreover have "bij_betw (\<lambda>j. (rm_idx s - rm_sz s + int j) mod rm_N s) {0..<length w} {0..<rm_sz s} =
        bij_betw int {0..<length w} {0..<rm_sz s}"
      using True h(2,6) by (intro bij_betw_cong) simp
    ultimately show ?thesis by simp
  next
    case False
    then have n: "rm_sz s = rm_N s" "rm_N s = int (length w)" using h(2,3) by auto
    have inj: "inj_on (\<lambda>j. (rm_idx s - rm_sz s + int j) mod rm_N s) {0..<length w}"
    proof (rule inj_onI)
      fix i j assume ij: "i \<in> {0..<length w}" "j \<in> {0..<length w}"
        "(rm_idx s - rm_sz s + int i) mod rm_N s = (rm_idx s - rm_sz s + int j) mod rm_N s"
      then have "rm_N s dvd int i - int j" by (simp add: mod_eq_dvd_iff)
      then show "i = j" using dvd_imp_le_int [of "int i - int j" "rm_N s"] ij(1,2) n(2) by fastforce
    qed
    moreover have "(\<lambda>j. (rm_idx s - rm_sz s + int j) mod rm_N s) ` {0..<length w} = {0..<rm_sz s}"
    proof (rule card_subset_eq)
      have "0 \<le> x mod rm_N s \<and> x mod rm_N s < rm_N s" for x using h(1) by simp
      then show "(\<lambda>j. (rm_idx s - rm_sz s + int j) mod rm_N s) ` {0..<length w} \<subseteq> {0..<rm_sz s}" unfolding n(1) by auto
      show "card ((\<lambda>j. (rm_idx s - rm_sz s + int j) mod rm_N s) ` {0..<length w}) = card {0..<rm_sz s}"
        using card_image [OF inj] n by simp
    qed simp
    ultimately show ?thesis by (simp add: bij_betw_def)
  qed
  ultimately have m: "image_mset (rm_heap s) (mset_set {- maxCt s..minCt s}) = mset_set {0..<rm_sz s}"
    "image_mset (\<lambda>j. (rm_idx s - rm_sz s + int j) mod rm_N s) (mset_set {0..<length w}) = mset_set {0..<rm_sz s}"
    by (metis bij_betw_def image_mset_mset_set)+
  have "mset w = image_mset ((!) w) (mset_set {0..<length w})" by (metis map_nth mset_map mset_upt)
  also have "\<dots> = image_mset (\<lambda>j. rm_data s ((rm_idx s - rm_sz s + int j) mod rm_N s)) (mset_set {0..<length w})"
    using h(10) by (intro image_mset_cong) simp
  also have "\<dots> = image_mset (rm_data s) (mset_set {0..<rm_sz s})"
    unfolding m(2) [symmetric] by (simp add: multiset.map_comp comp_def)
  also have "\<dots> = image_mset (rm_val s) (mset_set {- maxCt s..minCt s})"
    unfolding m(1) [symmetric] by (simp add: multiset.map_comp comp_def)
  finally show ?thesis .
qed

lemma get_mid_commute: "get_mid a b = get_mid b a"
  by (rule word_unat_eqI) (simp add: get_mid_exact add.commute)

lemma median_holds:
  assumes "rm_holds s w" "w \<noteq> []"
  shows "rm_median s = median w"
proof -
  define a b where "a = maxCt s" "b = minCt s"
  have c: "a = int (length w) div 2" "b = (int (length w) - 1) div 2" "min_ordered s" "max_ordered s"
    using assms by (auto simp: rm_holds_def heaps_ok_def counts_of_def a_b_def)
  have ab: "0 \<le> a" "0 \<le> b" using c assms(2) by (cases w; simp)+
  define L R where "L = image_mset (rm_val s) (mset_set {- a..- 1})" "R = image_mset (rm_val s) (mset_set {1..b})"
  have "{- a..b} = {- a..- 1} \<union> insert 0 {1..b}" using ab by auto
  then have w: "mset w = L + add_mset (rm_val s 0) R"
    using window_mset [OF assms] by (simp add: mset_set_Union L_R_def flip: a_b_def)
  have neg: "rm_val s i \<le> rm_val s 0 \<and> rm_val s i \<le> rm_val s (- 1)" if "- a \<le> i" "i \<le> - 1" for i
    using max_ordered_top [OF c(4), of "- i"] that by (simp add: a_b_def)
  have L: "\<forall>y \<in># L. y \<le> rm_val s 0" using neg by (auto simp: L_R_def)
  have R: "\<forall>y \<in># R. rm_val s 0 \<le> y" using min_ordered_top [OF c(3)] by (auto simp: L_R_def a_b_def)
  have size: "size L = length w div 2" using c(1) ab by (simp add: L_R_def)
  have mid: "sort w ! (length w div 2) = rm_val s 0" using sort_nth_split [OF w L R] by (simp add: size)
  show ?thesis
  proof (cases "even (length w)")
    case False
    then have "length w = 1 \<Longrightarrow> sort w = w" by (cases w) auto
    moreover have "\<not> b < a" using False c by (auto elim!: oddE)
    ultimately show ?thesis using False mid assms(2)
      by (auto simp: rm_median_def median_def Let_def mod_2_eq_odd simp flip: a_b_def)
  next
    case True
    then obtain k where k: "length w = 2 * k" by (elim evenE)
    then have "1 \<le> k" using assms(2) by (cases k) auto
    then have a: "1 \<le> a" "b < a" using c k by auto
    have "{- a..- 1} = insert (- 1) {- a..- 2}" using a by auto
    then have L': "L = add_mset (rm_val s (- 1)) (image_mset (rm_val s) (mset_set {- a..- 2}))" by (simp add: L_R_def)
    have "sort w ! size (image_mset (rm_val s) (mset_set {- a..- 2})) = rm_val s (- 1)"
    proof (rule sort_nth_split)
      show "mset w = image_mset (rm_val s) (mset_set {- a..- 2}) + add_mset (rm_val s (- 1)) (add_mset (rm_val s 0) R)"
        by (simp add: w L')
      show "\<forall>y \<in># image_mset (rm_val s) (mset_set {- a..- 2}). y \<le> rm_val s (- 1)"
        using neg by auto
      show "\<forall>y \<in># add_mset (rm_val s 0) R. rm_val s (- 1) \<le> y"
        using R neg [of "- 1"] a order_trans [of "rm_val s (- 1)" "rm_val s 0"] by auto
    qed
    moreover have "size (image_mset (rm_val s) (mset_set {- a..- 2})) = length w div 2 - 1"
      using arg_cong [OF L', of size] size by simp
    ultimately have "sort w ! (length w div 2 - 1) = rm_val s (- 1)" by simp
    moreover have "length w \<noteq> 1" using True by auto
    ultimately show ?thesis using True mid assms(2) a
      by (simp add: rm_median_def median_def Let_def mod_2_eq_odd get_mid_commute flip: a_b_def)
  qed
qed

subsection \<open>Properties\<close>

text \<open>Inserting the values of a vector one after the other.\<close>

fun rm_insert_all :: "u64 list \<Rightarrow> rolling_median_t \<Rightarrow> rolling_median_t option" where
  "rm_insert_all [] s = Some s"
| "rm_insert_all (v # vs) s = Option.bind (rm_insert v s) (rm_insert_all vs)"

definition last_values :: "nat \<Rightarrow> 'a list \<Rightarrow> 'a list" where
  "last_values n xs = drop (length xs - n) xs"

lemma last_values_snoc:
  "0 < n \<Longrightarrow> last_values n (xs @ [v]) = (if length (last_values n xs) < n then last_values n xs else tl (last_values n xs)) @ [v]"
  by (auto simp: last_values_def Suc_diff_le tl_drop simp flip: drop_Suc)

lemma insert_all_holds:
  assumes "0 < n" "rm_N s = int n" "rm_holds s (last_values n xs)"
  shows "\<exists>t. rm_insert_all vs s = Some t \<and> rm_N t = int n \<and> rm_holds t (last_values n (xs @ vs))"
  using assms(2,3)
proof (induction vs arbitrary: xs s)
  case (Cons v vs)
  obtain t where t: "rm_insert v s = Some t" "rm_N t = int n" "rm_holds t (last_values n (xs @ [v]))"
    using insert_holds [OF Cons.prems(2), of v] Cons.prems(1) assms(1) by (auto simp: last_values_snoc)
  show ?case using Cons.IH [OF t(2,3)] t(1) by simp
qed simp

text \<open>C10: after any values have been inserted into a new object of window size \<open>n\<close>, whatever its memory held
  before, \<open>size\<close> is the number of values kept and \<open>median\<close> is the median that sorting the last \<open>n\<close>
  values gives; no insertion runs forever.\<close>

theorem rolling_median_correct:
  assumes "0 < n"
  shows "\<exists>s. rm_insert_all xs (rolling_median_new (int n) mem) = Some s \<and>
    rm_size s = int (min (length xs) n) \<and> (xs \<noteq> [] \<longrightarrow> rm_median s = median (last_values n xs))"
proof -
  have "rm_holds (rolling_median_new (int n) mem) (last_values n [])" "rm_N (rolling_median_new (int n) mem) = int n"
    using new_holds [of "int n" mem] assms by (simp_all add: last_values_def)
  then obtain s where s: "rm_insert_all xs (rolling_median_new (int n) mem) = Some s" "rm_holds s (last_values n xs)"
    using insert_all_holds [OF assms, of _ "[]" xs] by auto
  moreover have "rm_size s = int (min (length xs) n)" using s(2) by (auto simp: rm_holds_def rm_size_def last_values_def)
  moreover have "xs \<noteq> [] \<Longrightarrow> last_values n xs \<noteq> []" using assms by (cases xs) (simp_all add: last_values_def)
  ultimately show ?thesis using median_holds [OF s(2)] by blast
qed

theorem rolling_median_correct_witness:
  "\<exists>s. rm_insert_all [5, 1, 9, 2] (rolling_median_new (int 3)
      \<lparr>rm_data = \<lambda>_. 7, rm_pos = \<lambda>_. 0, rm_heap = \<lambda>_. 0, rm_N = 0, rm_idx = 0, minCt = 0, maxCt = 0, rm_sz = 0\<rparr>) = Some s \<and>
    rm_size s = int (min (length [5, 1, 9, 2 :: u64]) 3) \<and>
    ([5, 1, 9, 2 :: u64] \<noteq> [] \<longrightarrow> rm_median s = median (last_values 3 [5, 1, 9, 2]))"
  by (rule rolling_median_correct) simp

end
