(* ===== verification/Block_Weight.thy ===== *)
theory Block_Weight
  imports Emission Rolling_Median
begin

section \<open>Block weight limits and fees (\<open>src/cryptonote_core/blockchain.cpp\<close>)\<close>

text \<open>
  The part of \<open>Blockchain\<close> that limits the weight of the next block: the long-term weight stored with
  every block, the median over the last window of them, which is cached in a rolling median, the
  limit derived from it. The block database is the list of
  stored blocks, with the fields these functions read; heights and counts of blocks are natural
  numbers. The hard fork version is an argument. An exception is \<open>None\<close>.
\<close>

definition CRYPTONOTE_REWARD_BLOCKS_WINDOW :: nat where "CRYPTONOTE_REWARD_BLOCKS_WINDOW = 100"
definition CRYPTONOTE_BLOCK_GRANTED_FULL_REWARD_ZONE_V5 :: u64 where "CRYPTONOTE_BLOCK_GRANTED_FULL_REWARD_ZONE_V5 = 300000"
definition CRYPTONOTE_LONG_TERM_BLOCK_WEIGHT_WINDOW_SIZE :: nat where "CRYPTONOTE_LONG_TERM_BLOCK_WEIGHT_WINDOW_SIZE = 100000"
definition CRYPTONOTE_SHORT_TERM_BLOCK_WEIGHT_SURGE_FACTOR :: u64 where "CRYPTONOTE_SHORT_TERM_BLOCK_WEIGHT_SURGE_FACTOR = 50"
definition HF_VERSION_LONG_TERM_BLOCK_WEIGHT :: u8 where "HF_VERSION_LONG_TERM_BLOCK_WEIGHT = 10"
definition HF_VERSION_2021_SCALING :: u8 where "HF_VERSION_2021_SCALING = 15"

definition null_hash :: bytes where "null_hash = replicate 32 0"

record stored_block =
  bi_hash :: bytes
  bi_weight :: u64
  bi_long_term_block_weight :: u64
  bi_coins :: u64

record blockchain =
  m_db :: "stored_block list"
  db_read_only :: bool
  db_max_block_size :: "u64 option"
  m_current_block_cumul_weight_limit :: u64
  m_current_block_cumul_weight_median :: u64
  m_long_term_block_weights_window :: nat
  m_long_term_effective_median_block_weight :: u64
  m_long_term_block_weights_cache_tip_hash :: bytes
  m_long_term_block_weights_cache_rolling_median :: rolling_median_t

abbreviation (input) cache_rm :: "blockchain \<Rightarrow> rolling_median_t" where
  "cache_rm \<equiv> m_long_term_block_weights_cache_rolling_median"

text \<open>The database: a field of the blocks from a height on, and the largest weight limit seen.\<close>

definition get_block_info_64bit_fields :: "(stored_block \<Rightarrow> u64) \<Rightarrow> nat \<Rightarrow> nat \<Rightarrow> stored_block list \<Rightarrow> u64 list option" where
  "get_block_info_64bit_fields field start_height cnt db =
     (if length db \<le> start_height then None else Some (map field (take cnt (drop start_height db))))"

definition get_max_block_size :: "blockchain \<Rightarrow> u64" where
  "get_max_block_size bc = (case db_max_block_size bc of None \<Rightarrow> -1 | Some max_block_size \<Rightarrow> max_block_size)"

definition add_max_block_size :: "u64 \<Rightarrow> blockchain \<Rightarrow> blockchain" where
  "add_max_block_size sz bc =
     (let max_block_size = (case db_max_block_size bc of None \<Rightarrow> 0 | Some max_block_size \<Rightarrow> max_block_size)
      in bc\<lparr>db_max_block_size := Some (if max_block_size < sz then sz else max_block_size)\<rparr>)"

definition get_last_n_blocks_weights :: "nat \<Rightarrow> blockchain \<Rightarrow> u64 list option" where
  "get_last_n_blocks_weights cnt bc =
     (let h = length (m_db bc)
      in if h = 0 then Some [] else get_block_info_64bit_fields bi_weight (h - min h cnt) cnt (m_db bc))"

definition get_long_term_block_weight_median :: "nat \<Rightarrow> nat \<Rightarrow> blockchain \<Rightarrow> (u64 \<times> blockchain) option" where
  "get_long_term_block_weight_median start_height cnt bc =
     (if \<not> 0 < cnt then None
      else let blockchain_height = length (m_db bc);
               tip_height = start_height + cnt - 1;
               tip_hash = (if tip_height < blockchain_height then bi_hash (m_db bc ! tip_height) else null_hash);
               rmsize = rm_size (cache_rm bc);
               cached = (tip_height < blockchain_height \<and> int cnt = rmsize \<and>
                         tip_hash = m_long_term_block_weights_cache_tip_hash bc)
           in if cached then Some (rm_median (cache_rm bc), bc)
              else if 0 < tip_height \<and> tip_height < blockchain_height \<and>
                   (int cnt = rmsize \<or>
                    int cnt = rmsize + 1 \<and> rmsize < int CRYPTONOTE_LONG_TERM_BLOCK_WEIGHT_WINDOW_SIZE) \<and>
                   bi_hash (m_db bc ! (tip_height - 1)) = m_long_term_block_weights_cache_tip_hash bc
              then Option.bind (rm_insert (bi_long_term_block_weight (m_db bc ! tip_height)) (cache_rm bc)) (\<lambda>rm.
                   Some (rm_median rm, bc\<lparr>m_long_term_block_weights_cache_tip_hash := tip_hash,
                                          m_long_term_block_weights_cache_rolling_median := rm\<rparr>))
              else Option.bind (get_block_info_64bit_fields bi_long_term_block_weight start_height cnt (m_db bc)) (\<lambda>weights.
                   Option.bind (rm_insert_all weights (rm_clear (cache_rm bc))) (\<lambda>rm.
                   Some (rm_median rm, bc\<lparr>m_long_term_block_weights_cache_tip_hash := tip_hash,
                                          m_long_term_block_weights_cache_rolling_median := rm\<rparr>))))"

definition get_next_long_term_block_weight :: "u8 \<Rightarrow> u64 \<Rightarrow> blockchain \<Rightarrow> (u64 \<times> blockchain) option" where
  "get_next_long_term_block_weight hf_version block_weight bc =
     (let db_height = length (m_db bc);
          nblocks = min (m_long_term_block_weights_window bc) db_height
      in if hf_version < HF_VERSION_LONG_TERM_BLOCK_WEIGHT then Some (block_weight, bc)
         else Option.bind (get_long_term_block_weight_median (db_height - nblocks) nblocks bc) (\<lambda>(long_term_median, bc).
           let long_term_effective_median_block_weight = max CRYPTONOTE_BLOCK_GRANTED_FULL_REWARD_ZONE_V5 long_term_median;
               (block_weight, short_term_constraint) =
                 (if HF_VERSION_2021_SCALING \<le> hf_version
                  then (max block_weight (long_term_effective_median_block_weight * 10 div 17),
                        long_term_effective_median_block_weight + long_term_effective_median_block_weight * 7 div 10)
                  else (block_weight,
                        long_term_effective_median_block_weight + long_term_effective_median_block_weight * 2 div 5))
           in Some (min block_weight short_term_constraint, bc)))"

text \<open>The end of \<open>update_next_cumulative_weight_limit\<close>.\<close>

definition set_weight_limit :: "u64 \<Rightarrow> blockchain \<Rightarrow> blockchain" where
  "set_weight_limit full_reward_zone bc =
     (let bc = (if m_current_block_cumul_weight_median bc \<le> full_reward_zone
                then bc\<lparr>m_current_block_cumul_weight_median := full_reward_zone\<rparr> else bc);
          bc = bc\<lparr>m_current_block_cumul_weight_limit := m_current_block_cumul_weight_median bc * 2\<rparr>
      in if \<not> db_read_only bc then add_max_block_size (m_current_block_cumul_weight_limit bc) bc else bc)"

definition update_next_cumulative_weight_limit :: "u8 \<Rightarrow> blockchain \<Rightarrow> blockchain option" where
  "update_next_cumulative_weight_limit hf_version bc =
     (let db_height = length (m_db bc);
          full_reward_zone = get_min_block_weight hf_version
      in Option.bind
           (if hf_version < HF_VERSION_LONG_TERM_BLOCK_WEIGHT
            then Option.bind (get_last_n_blocks_weights CRYPTONOTE_REWARD_BLOCKS_WINDOW bc) (\<lambda>weights.
                 Some (bc\<lparr>m_current_block_cumul_weight_median := median weights\<rparr>))
            else let nblocks = min (m_long_term_block_weights_window bc) db_height
                 in Option.bind (get_long_term_block_weight_median (db_height - nblocks) nblocks bc) (\<lambda>(long_term_median, bc).
                    let bc = bc\<lparr>m_long_term_effective_median_block_weight :=
                                 max CRYPTONOTE_BLOCK_GRANTED_FULL_REWARD_ZONE_V5 long_term_median\<rparr>
                    in Option.bind (get_last_n_blocks_weights CRYPTONOTE_REWARD_BLOCKS_WINDOW bc) (\<lambda>weights.
                       let short_term_median = median weights;
                           surge = CRYPTONOTE_SHORT_TERM_BLOCK_WEIGHT_SURGE_FACTOR * m_long_term_effective_median_block_weight bc;
                           effective_median_block_weight =
                             (if HF_VERSION_2021_SCALING \<le> hf_version
                              then min (max (m_long_term_effective_median_block_weight bc) short_term_median) surge
                              else min (max CRYPTONOTE_BLOCK_GRANTED_FULL_REWARD_ZONE_V5 short_term_median) surge)
                       in Some (bc\<lparr>m_current_block_cumul_weight_median := effective_median_block_weight\<rparr>))))
           (\<lambda>bc. Some (set_weight_limit full_reward_zone bc)))"

text \<open>
  What \<open>handle_block_to_main_chain\<close> does about weights once a block has been verified: its long-term
  weight under the current version, the new entry of the database, and the limit under the version
  that then holds; what \<open>pop_block_from_blockchain\<close> does about them, which refuses the genesis block;
  the database emptied by \<open>reset_and_set_genesis_block\<close>; and the constructor, on a database.
\<close>

definition connect_weight :: "u8 \<Rightarrow> u8 \<Rightarrow> bytes \<Rightarrow> u64 \<Rightarrow> u64 \<Rightarrow> blockchain \<Rightarrow> blockchain option" where
  "connect_weight hf_version new_version block_id block_weight coins bc =
     Option.bind (get_next_long_term_block_weight hf_version block_weight bc) (\<lambda>(long_term_block_weight, bc).
       update_next_cumulative_weight_limit new_version
         (bc\<lparr>m_db := m_db bc @ [\<lparr>bi_hash = block_id, bi_weight = block_weight,
                                   bi_long_term_block_weight = long_term_block_weight, bi_coins = coins\<rparr>]\<rparr>))"

definition pop_weight :: "blockchain \<Rightarrow> blockchain option" where
  "pop_weight bc = (if \<not> 1 < length (m_db bc) then None else Some (bc\<lparr>m_db := butlast (m_db bc)\<rparr>))"

definition reset_weight :: "blockchain \<Rightarrow> blockchain" where
  "reset_weight bc = bc\<lparr>m_db := [], db_max_block_size := None\<rparr>"

definition blockchain_new :: "nat \<Rightarrow> rolling_median_t \<Rightarrow> stored_block list \<Rightarrow> bool \<Rightarrow> u64 option \<Rightarrow> blockchain" where
  "blockchain_new window mem db read_only max_block_size =
     \<lparr>m_db = db, db_read_only = read_only, db_max_block_size = max_block_size,
      m_current_block_cumul_weight_limit = 0, m_current_block_cumul_weight_median = 0,
      m_long_term_block_weights_window = window, m_long_term_effective_median_block_weight = 0,
      m_long_term_block_weights_cache_tip_hash = null_hash,
      m_long_term_block_weights_cache_rolling_median = rolling_median_new (int window) mem\<rparr>"

subsection \<open>The cached median\<close>

text \<open>
  A tree of chains in which the hash of a block determines the whole chain up to it, as it does in
  the program, where the block hash covers the previous hash and the weights are functions of the
  chain; no block has the null hash.
\<close>

definition block_tree :: "stored_block list set \<Rightarrow> bool" where
  "block_tree V \<longleftrightarrow>
     (\<forall>c \<in> V. \<forall>d \<in> V. c \<noteq> [] \<and> d \<noteq> [] \<and> bi_hash (last c) = bi_hash (last d) \<longrightarrow> c = d) \<and>
     (\<forall>c \<in> V. c \<noteq> [] \<longrightarrow> bi_hash (last c) \<noteq> null_hash \<and> butlast c \<in> V)"

abbreviation long_term_weights :: "stored_block list \<Rightarrow> u64 list" where
  "long_term_weights \<equiv> map bi_long_term_block_weight"

definition cache_inv :: "stored_block list set \<Rightarrow> nat \<Rightarrow> blockchain \<Rightarrow> bool" where
  "cache_inv V n bc \<longleftrightarrow>
     m_db bc \<in> V \<and> m_long_term_block_weights_window bc = n \<and> rm_N (cache_rm bc) = int n \<and>
     (\<exists>c \<in> insert [] V.
        m_long_term_block_weights_cache_tip_hash bc = (if c = [] then null_hash else bi_hash (last c)) \<and>
        rm_holds (cache_rm bc) (last_values n (long_term_weights c)))"

text \<open>The cache holds the window of the chain now in the database.\<close>

definition cache_current :: "nat \<Rightarrow> blockchain \<Rightarrow> bool" where
  "cache_current n bc \<longleftrightarrow> rm_N (cache_rm bc) = int n \<and> rm_holds (cache_rm bc) (last_values n (long_term_weights (m_db bc)))"

lemma prefix_closed: "block_tree V \<Longrightarrow> c \<in> V \<Longrightarrow> [] \<in> V"
  by (induction c rule: rev_induct) (auto simp: block_tree_def)

lemma clear_holds: "1 \<le> rm_N s \<Longrightarrow> rm_holds (rm_clear s) [] \<and> rm_N (rm_clear s) = rm_N s"
  using new_holds [of "rm_N s" s] by (simp add: rolling_median_new_def)

lemma median_query:
  assumes "block_tree V" "0 < n" "cache_inv V n bc" "m_db bc \<noteq> []"
  shows "\<exists>bc'. get_long_term_block_weight_median (length (m_db bc) - min n (length (m_db bc))) (min n (length (m_db bc))) bc =
      Some (median (last_values n (long_term_weights (m_db bc))), bc') \<and>
    cache_inv V n bc' \<and> cache_current n bc' \<and> bc' = bc\<lparr>m_long_term_block_weights_cache_tip_hash := m_long_term_block_weights_cache_tip_hash bc',
      m_long_term_block_weights_cache_rolling_median := cache_rm bc'\<rparr>"
proof -
  define db where "db = m_db bc"
  have db: "db \<in> V" "db \<noteq> []" "butlast db \<in> V" using assms by (auto simp: db_def cache_inv_def block_tree_def)
  obtain c where c: "c \<in> insert [] V" "m_long_term_block_weights_cache_tip_hash bc = (if c = [] then null_hash else bi_hash (last c))"
    "rm_holds (cache_rm bc) (last_values n (long_term_weights c))"
    using assms(3) unfolding cache_inv_def by blast
  have same: "d = c" if "d \<in> V" "d \<noteq> []" "bi_hash (last d) = m_long_term_block_weights_cache_tip_hash bc" for d
    using that c(1,2) assms(1) unfolding block_tree_def by (metis insert_iff)
  let ?w = "last_values n (long_term_weights db)"
  have w: "?w \<noteq> []" using db(2) assms(2) by (cases db) (simp_all add: last_values_def)
  have tip: "length db - min n (length db) + min n (length db) - 1 = length db - 1" "length db - 1 < length db" "0 < min n (length db)"
    using db(2) assms(2) by auto
  have lst: "db ! (length db - 1) = last db" using db(2) by (simp add: last_conv_nth)
  let ?t = "bi_hash (last db)"
  let ?put = "\<lambda>rm. bc\<lparr>m_long_term_block_weights_cache_tip_hash := ?t, m_long_term_block_weights_cache_rolling_median := rm\<rparr>"
  have stored: "cache_inv V n (?put rm) \<and> cache_current n (?put rm)" if "rm_holds rm ?w" "rm_N rm = int n" for rm
    using that assms(3) db by (auto simp: cache_inv_def cache_current_def db_def)
  have N: "rm_N (cache_rm bc) = int n" using assms(3) by (simp add: cache_inv_def)
  define hit where "hit \<longleftrightarrow> int (min n (length db)) = rm_size (cache_rm bc) \<and> ?t = m_long_term_block_weights_cache_tip_hash bc"
  define moved where "moved \<longleftrightarrow> 0 < length db - 1 \<and> (int (min n (length db)) = rm_size (cache_rm bc) \<or>
      int (min n (length db)) = rm_size (cache_rm bc) + 1 \<and> rm_size (cache_rm bc) < int CRYPTONOTE_LONG_TERM_BLOCK_WEIGHT_WINDOW_SIZE) \<and>
      bi_hash (db ! (length db - 1 - 1)) = m_long_term_block_weights_cache_tip_hash bc"
  let ?set = "\<lambda>rm. Some (rm_median rm, ?put rm)"
  have window: "take (min n (length db)) (drop (length db - min n (length db)) db) = last_values n db"
    by (simp add: last_values_def min_def)
  have "\<not> length db \<le> length db - min n (length db)" using tip(3) by linarith
  then have fields: "get_block_info_64bit_fields bi_long_term_block_weight (length db - min n (length db)) (min n (length db)) db =
      Some (long_term_weights (last_values n db))"
    by (simp add: get_block_info_64bit_fields_def window del: take_all)
  have eq: "get_long_term_block_weight_median (length db - min n (length db)) (min n (length db)) bc =
      (if hit then Some (rm_median (cache_rm bc), bc)
       else if moved then Option.bind (rm_insert (bi_long_term_block_weight (last db)) (cache_rm bc)) ?set
       else Option.bind (rm_insert_all (long_term_weights (last_values n db)) (rm_clear (cache_rm bc))) ?set)"
    unfolding get_long_term_block_weight_median_def Let_def db_def [symmetric] hit_def moved_def
    by (simp only: tip lst fields simp_thms if_True if_False bind.bind_lunit)
  consider (hit) hit | (moved) "\<not> hit" moved | (miss) "\<not> hit" "\<not> moved" by blast
  then show ?thesis
    unfolding db_def [symmetric]
  proof cases
    case hit
    then have "db = c" using same [of db] db by (simp add: hit_def)
    then have "rm_median (cache_rm bc) = median ?w" "cache_current n bc"
      using median_holds [OF c(3)] w c(3) N by (simp_all add: cache_current_def db_def)
    then show "\<exists>bc'. get_long_term_block_weight_median (length db - min n (length db)) (min n (length db)) bc = Some (median ?w, bc') \<and>
      cache_inv V n bc' \<and> cache_current n bc' \<and> bc' = bc\<lparr>m_long_term_block_weights_cache_tip_hash := m_long_term_block_weights_cache_tip_hash bc',
        m_long_term_block_weights_cache_rolling_median := cache_rm bc'\<rparr>"
      using hit assms(3) by (simp add: eq)
  next
    case moved
    have "0 < length (butlast db)" using moved(2) by (auto simp: moved_def)
    then have "butlast db \<noteq> []" by (cases "butlast db") simp_all
    moreover from this have "last (butlast db) = db ! (length db - 1 - 1)"
      using moved(2) nth_butlast [of "length db - 1 - 1" db] by (auto simp: moved_def last_conv_nth)
    ultimately have "butlast db = c" using same [of "butlast db"] db(3) moved(2) by (simp add: moved_def)
    then have "long_term_weights db = long_term_weights c @ [bi_long_term_block_weight (last db)]"
      using db(2) by (metis append_butlast_last_id list.simps(8,9) map_append)
    then obtain rm where rm: "rm_insert (bi_long_term_block_weight (last db)) (cache_rm bc) = Some rm" "rm_N rm = int n" "rm_holds rm ?w"
      using insert_all_holds [OF assms(2) N c(3), of "[bi_long_term_block_weight (last db)]"] by (auto split: bind_splits)
    then show "\<exists>bc'. get_long_term_block_weight_median (length db - min n (length db)) (min n (length db)) bc = Some (median ?w, bc') \<and>
      cache_inv V n bc' \<and> cache_current n bc' \<and> bc' = bc\<lparr>m_long_term_block_weights_cache_tip_hash := m_long_term_block_weights_cache_tip_hash bc',
        m_long_term_block_weights_cache_rolling_median := cache_rm bc'\<rparr>"
      using moved stored [OF rm(3,2)] median_holds [OF rm(3) w] by (simp add: eq)
  next
    case miss
    have map: "long_term_weights (last_values n db) = ?w" "last_values n ([] @ ?w) = ?w" "last_values n ([] :: u64 list) = []"
      by (simp_all add: last_values_def drop_map)
    then obtain rm where rm: "rm_insert_all ?w (rm_clear (cache_rm bc)) = Some rm" "rm_N rm = int n" "rm_holds rm ?w"
      using insert_all_holds [OF assms(2), of "rm_clear (cache_rm bc)" "[]" ?w] clear_holds [of "cache_rm bc"] N assms(2) by auto
    then show "\<exists>bc'. get_long_term_block_weight_median (length db - min n (length db)) (min n (length db)) bc = Some (median ?w, bc') \<and>
      cache_inv V n bc' \<and> cache_current n bc' \<and> bc' = bc\<lparr>m_long_term_block_weights_cache_tip_hash := m_long_term_block_weights_cache_tip_hash bc',
        m_long_term_block_weights_cache_rolling_median := cache_rm bc'\<rparr>"
      using miss stored [OF rm(3,2)] median_holds [OF rm(3) w] by (simp add: eq map(1))
  qed
qed

text \<open>The effective median of a chain, and what the two clients of the cached median compute from it.\<close>

definition effective_long_term_median :: "nat \<Rightarrow> blockchain \<Rightarrow> u64" where
  "effective_long_term_median n bc = max 300000 (median (last_values n (long_term_weights (m_db bc))))"

definition bounded_weight :: "u8 \<Rightarrow> u64 \<Rightarrow> u64 \<Rightarrow> u64" where
  "bounded_weight hf w m =
     (if hf < 10 then w else if hf < 15 then min w (m + m * 2 div 5) else min (max w (m * 10 div 17)) (m + m * 7 div 10))"

lemma next_long_term_weight:
  assumes "block_tree V" "0 < n" "cache_inv V n bc" "m_db bc \<noteq> [] \<or> hf < 10"
  shows "\<exists>bc'. get_next_long_term_block_weight hf w bc = Some (bounded_weight hf w (effective_long_term_median n bc), bc') \<and>
    cache_inv V n bc' \<and> bc' = bc\<lparr>m_long_term_block_weights_cache_tip_hash := m_long_term_block_weights_cache_tip_hash bc',
      m_long_term_block_weights_cache_rolling_median := cache_rm bc'\<rparr>"
proof (cases "hf < 10")
  case True
  then show ?thesis using assms(3) by (simp add: get_next_long_term_block_weight_def HF_VERSION_LONG_TERM_BLOCK_WEIGHT_def bounded_weight_def)
next
  case False
  then have "m_db bc \<noteq> []" using assms(4) by simp
  note median_query [OF assms(1-3) this]
  moreover have "m_long_term_block_weights_window bc = n" using assms(3) by (simp add: cache_inv_def)
  ultimately show ?thesis using False
    unfolding get_next_long_term_block_weight_def Let_def effective_long_term_median_def bounded_weight_def
      HF_VERSION_LONG_TERM_BLOCK_WEIGHT_def HF_VERSION_2021_SCALING_def CRYPTONOTE_BLOCK_GRANTED_FULL_REWARD_ZONE_V5_def
    by (auto simp: not_le not_less)
qed

definition limit_median :: "u8 \<Rightarrow> u64 \<Rightarrow> u64 \<Rightarrow> u64" where
  "limit_median hf m s =
     max (get_min_block_weight hf)
       (if hf < 10 then s else if hf < 15 then min (max 300000 s) (50 * m) else min (max m s) (50 * m))"

lemma last_weights: "get_last_n_blocks_weights 100 bc = Some (map bi_weight (last_values 100 (m_db bc)))"
proof (cases "m_db bc = []")
  case False
  have "\<not> length (m_db bc) \<le> length (m_db bc) - min (length (m_db bc)) 100" using False by (cases "m_db bc") auto
  moreover have "take 100 (drop (length (m_db bc) - min (length (m_db bc)) 100) (m_db bc)) = last_values 100 (m_db bc)"
    by (simp add: last_values_def min_def)
  moreover have "take 100 (last_values 100 (m_db bc)) = last_values 100 (m_db bc)" by (simp add: last_values_def)
  ultimately show ?thesis using False
    by (simp add: get_last_n_blocks_weights_def get_block_info_64bit_fields_def Let_def)
qed (simp add: get_last_n_blocks_weights_def last_values_def)

lemma set_weight_limit_fields [simp]:
  "m_current_block_cumul_weight_median (set_weight_limit z bc) = max z (m_current_block_cumul_weight_median bc)"
  "m_current_block_cumul_weight_limit (set_weight_limit z bc) = max z (m_current_block_cumul_weight_median bc) * 2"
  "m_db (set_weight_limit z bc) = m_db bc"
  "m_long_term_effective_median_block_weight (set_weight_limit z bc) = m_long_term_effective_median_block_weight bc"
  "cache_inv V n (set_weight_limit z bc) = cache_inv V n bc"
  "cache_current n (set_weight_limit z bc) = cache_current n bc"
  by (auto simp: set_weight_limit_def add_max_block_size_def cache_inv_def cache_current_def Let_def max_def)

lemma cache_inv_fields [simp]:
  "cache_inv V n (bc\<lparr>m_current_block_cumul_weight_median := a\<rparr>) = cache_inv V n bc"
  "cache_inv V n (bc\<lparr>m_long_term_effective_median_block_weight := b\<rparr>) = cache_inv V n bc"
  "cache_current n (bc\<lparr>m_current_block_cumul_weight_median := a\<rparr>) = cache_current n bc"
  "cache_current n (bc\<lparr>m_long_term_effective_median_block_weight := b\<rparr>) = cache_current n bc"
  by (simp_all add: cache_inv_def cache_current_def)

lemma update_limit:
  assumes "block_tree V" "0 < n" "cache_inv V n bc" "m_db bc \<noteq> [] \<or> hf < 10"
  defines "m \<equiv> limit_median hf (effective_long_term_median n bc) (median (map bi_weight (last_values 100 (m_db bc))))"
  shows "\<exists>bc'. update_next_cumulative_weight_limit hf bc = Some bc' \<and> cache_inv V n bc' \<and> m_db bc' = m_db bc \<and>
    m_current_block_cumul_weight_median bc' = m \<and> m_current_block_cumul_weight_limit bc' = m * 2 \<and>
    (10 \<le> hf \<longrightarrow> m_long_term_effective_median_block_weight bc' = effective_long_term_median n bc \<and> cache_current n bc')"
proof (cases "hf < 10")
  case True
  then show ?thesis using assms(3)
    unfolding update_next_cumulative_weight_limit_def Let_def CRYPTONOTE_REWARD_BLOCKS_WINDOW_def last_weights
    by (auto simp: HF_VERSION_LONG_TERM_BLOCK_WEIGHT_def m_def limit_median_def)
next
  case False
  then have "m_db bc \<noteq> []" using assms(4) by simp
  then obtain bc1 where q: "get_long_term_block_weight_median (length (m_db bc) - min n (length (m_db bc))) (min n (length (m_db bc))) bc =
      Some (median (last_values n (long_term_weights (m_db bc))), bc1)" "cache_inv V n bc1" "cache_current n bc1"
      "bc1 = bc\<lparr>m_long_term_block_weights_cache_tip_hash := m_long_term_block_weights_cache_tip_hash bc1,
        m_long_term_block_weights_cache_rolling_median := cache_rm bc1\<rparr>"
    using median_query [OF assms(1-3)] by blast
  have db: "m_db bc1 = m_db bc" by (subst q(4)) simp
  have "m_long_term_block_weights_window bc = n" using assms(3) by (simp add: cache_inv_def)
  then show ?thesis using False q(1-3) db
    unfolding update_next_cumulative_weight_limit_def Let_def CRYPTONOTE_REWARD_BLOCKS_WINDOW_def last_weights
      HF_VERSION_LONG_TERM_BLOCK_WEIGHT_def HF_VERSION_2021_SCALING_def CRYPTONOTE_BLOCK_GRANTED_FULL_REWARD_ZONE_V5_def
      CRYPTONOTE_SHORT_TERM_BLOCK_WEIGHT_SURGE_FACTOR_def
    by (auto simp: effective_long_term_median_def m_def limit_median_def not_less)
qed

subsection \<open>Chains of connected and popped blocks\<close>

inductive weight_step :: "stored_block list set \<Rightarrow> blockchain \<Rightarrow> blockchain \<Rightarrow> bool" for V where
  step_connect: "connect_weight hf hf' block_id w coins bc = Some bc' \<Longrightarrow> m_db bc' \<in> V \<Longrightarrow> weight_step V bc bc'"
| step_pop: "pop_weight bc = Some bc' \<Longrightarrow> weight_step V bc bc'"
| step_reset: "weight_step V bc (reset_weight bc)"
| step_update: "update_next_cumulative_weight_limit hf bc = Some bc' \<Longrightarrow> weight_step V bc bc'"

text \<open>A node that opens a database with one of the chains.\<close>

definition weight_start :: "stored_block list set \<Rightarrow> nat \<Rightarrow> blockchain \<Rightarrow> bool" where
  "weight_start V n bc \<longleftrightarrow> (\<exists>mem db ro mx. db \<in> V \<and> bc = blockchain_new n mem db ro mx)"

lemma get_median_empty: "get_long_term_block_weight_median s 0 bc = None"
  by (simp add: get_long_term_block_weight_median_def)

lemma needs_blocks:
  assumes "m_db bc = []" "\<not> hf < 10"
  shows "get_next_long_term_block_weight hf w bc = None" "update_next_cumulative_weight_limit hf bc = None"
  using assms by (simp_all add: get_next_long_term_block_weight_def update_next_cumulative_weight_limit_def
      HF_VERSION_LONG_TERM_BLOCK_WEIGHT_def get_median_empty Let_def)

lemma cache_inv_db: "cache_inv V n bc \<Longrightarrow> db \<in> V \<Longrightarrow> cache_inv V n (bc\<lparr>m_db := db\<rparr>)"
  by (simp add: cache_inv_def)

lemma median_keeps: "get_long_term_block_weight_median s k bc = Some (m, bc') \<Longrightarrow>
    m_db bc' = m_db bc \<and> db_read_only bc' = db_read_only bc \<and> db_max_block_size bc' = db_max_block_size bc"
  by (auto simp: get_long_term_block_weight_median_def Let_def split: bind_splits if_splits)

lemma update_keeps_db: "update_next_cumulative_weight_limit hf bc = Some bc' \<Longrightarrow> m_db bc' = m_db bc"
  by (auto simp: update_next_cumulative_weight_limit_def Let_def split: bind_splits if_splits dest!: median_keeps)

lemma connect_weight_exact:
  fixes hf :: u8 and block_id :: bytes and w coins :: u64 and n :: nat and bc :: blockchain
  assumes "block_tree V" "0 < n" "cache_inv V n bc" "m_db bc \<noteq> [] \<or> hf < 10"
  defines "b \<equiv> \<lparr>bi_hash = block_id, bi_weight = w, bi_long_term_block_weight = bounded_weight hf w (effective_long_term_median n bc), bi_coins = coins\<rparr>"
  assumes "m_db bc @ [b] \<in> V"
  shows "\<exists>bc'. connect_weight hf hf' block_id w coins bc = Some bc' \<and> cache_inv V n bc' \<and> m_db bc' = m_db bc @ [b] \<and>
    m_current_block_cumul_weight_limit bc' =
      limit_median hf' (effective_long_term_median n bc') (median (map bi_weight (last_values 100 (m_db bc')))) * 2"
proof -
  obtain bc1 where 1: "get_next_long_term_block_weight hf w bc = Some (bounded_weight hf w (effective_long_term_median n bc), bc1)"
    "cache_inv V n bc1" "bc1 = bc\<lparr>m_long_term_block_weights_cache_tip_hash := m_long_term_block_weights_cache_tip_hash bc1,
      m_long_term_block_weights_cache_rolling_median := cache_rm bc1\<rparr>"
    using next_long_term_weight [OF assms(1-4)] by blast
  have db: "m_db bc1 = m_db bc" by (subst 1(3)) simp
  let ?bc = "bc1\<lparr>m_db := m_db bc1 @ [b]\<rparr>"
  have "cache_inv V n ?bc" using 1(2) assms(6) db by (simp add: cache_inv_db)
  then obtain bc2 where "update_next_cumulative_weight_limit hf' ?bc = Some bc2" "cache_inv V n bc2" "m_db bc2 = m_db ?bc"
    "m_current_block_cumul_weight_limit bc2 =
      limit_median hf' (effective_long_term_median n ?bc) (median (map bi_weight (last_values 100 (m_db ?bc)))) * 2"
    using update_limit [OF assms(1,2), of ?bc hf'] by auto
  then show ?thesis using 1(1) db by (auto simp: connect_weight_def b_def effective_long_term_median_def)
qed

lemma weight_step_inv:
  assumes "block_tree V" "0 < n" "cache_inv V n bc" "weight_step V bc bc'"
  shows "cache_inv V n bc'"
  using assms(4)
proof cases
  case (step_connect hf hf' block_id w coins)
  have ne: "m_db bc \<noteq> [] \<or> hf < 10" using needs_blocks(1) [of bc hf w] step_connect(1) by (cases "hf < 10") (auto simp: connect_weight_def)
  obtain bc1 where 1: "get_next_long_term_block_weight hf w bc = Some (bounded_weight hf w (effective_long_term_median n bc), bc1)"
    "bc1 = bc\<lparr>m_long_term_block_weights_cache_tip_hash := m_long_term_block_weights_cache_tip_hash bc1,
      m_long_term_block_weights_cache_rolling_median := cache_rm bc1\<rparr>"
    using next_long_term_weight [OF assms(1-3) ne] by blast
  have db: "m_db bc1 = m_db bc" by (subst 1(2)) simp
  have "m_db bc' = m_db bc @ [\<lparr>bi_hash = block_id, bi_weight = w,
      bi_long_term_block_weight = bounded_weight hf w (effective_long_term_median n bc), bi_coins = coins\<rparr>]"
    using step_connect(1) 1(1) db by (auto simp: connect_weight_def dest: update_keeps_db)
  then show ?thesis using connect_weight_exact [OF assms(1-3) ne, of block_id w coins hf'] step_connect by auto
next
  case step_pop
  then have "bc' = bc\<lparr>m_db := butlast (m_db bc)\<rparr>" "m_db bc \<noteq> []" by (auto simp: pop_weight_def split: if_splits)
  moreover from this have "butlast (m_db bc) \<in> V" using assms(1,3) by (auto simp: block_tree_def cache_inv_def)
  ultimately show ?thesis using cache_inv_db [OF assms(3)] by simp
next
  case step_reset
  have "[] \<in> V" using assms(1,3) by (auto simp: cache_inv_def intro: prefix_closed)
  then show ?thesis using assms(3) step_reset by (simp add: reset_weight_def cache_inv_def)
next
  case (step_update hf)
  have ne: "m_db bc \<noteq> [] \<or> hf < 10" using needs_blocks(2) [of bc hf] step_update by auto
  show ?thesis using update_limit [OF assms(1-3) ne] step_update by auto
qed

lemma start_inv: "0 < n \<Longrightarrow> weight_start V n bc \<Longrightarrow> cache_inv V n bc"
  using new_holds [of "int n"] by (auto simp: weight_start_def blockchain_new_def cache_inv_def last_values_def)

interpretation weights: transition_system "\<lambda>bc. block_tree V \<and> 0 < n \<and> weight_start V n bc" "weight_step V"
  "\<lambda>bc. block_tree V \<and> 0 < n \<and> cache_inv V n bc" for V n
  by unfold_locales (auto intro: start_inv weight_step_inv)

lemma reachable_inv:
  assumes "block_tree V" "0 < n" "weight_start V n bc0" "reaches (weight_step V) bc0 bc"
  shows "cache_inv V n bc"
  using weights.inv_reachable [where V = V and n = n] assms by blast

subsection \<open>Bounds\<close>

lemma unat_scale:
  fixes m :: u64
  assumes "unat m < 2 ^ 57" "k \<le> 100"
  shows "unat (m * of_nat k) = unat m * k"
proof -
  have "unat m * k \<le> unat m * 100" using assms(2) by simp
  also have "\<dots> < 2 ^ 64" using assms(1) by simp
  finally have "unat m * unat (of_nat k :: u64) < 2 ^ 64" using assms(2) by (simp add: unat_of_nat)
  then show ?thesis using assms(2) by (subst unat_times_exact) (simp_all add: unat_of_nat)
qed

lemma bounded_weight_bounds:
  fixes m w :: u64
  assumes "15 \<le> hf" "unat m < 2 ^ 57"
  shows "unat (bounded_weight hf w m) = min (max (unat w) (unat m * 10 div 17)) (unat m * 17 div 10)"
proof -
  have s: "unat (m * 10) = unat m * 10" "unat (m * 7) = unat m * 7"
    using unat_scale [OF assms(2), of 10] unat_scale [OF assms(2), of 7] by simp_all
  have "unat (m + m * 7 div 10) = unat m + unat m * 7 div 10"
    using assms(2) by (subst unat_add_lem [THEN iffD1]) (simp_all add: unat_div_distrib s)
  then have "unat (m + m * 7 div 10) = unat m * 17 div 10" by presburger
  moreover have "\<not> hf < 10" "\<not> hf < 15" using assms(1) by (auto simp: word_less_nat_alt word_le_nat_alt)
  ultimately show ?thesis
    by (simp add: bounded_weight_def unat_minimum unat_maximum unat_div_distrib s)
qed

lemma limit_median_bounds:
  fixes m s :: u64
  assumes "15 \<le> hf" "unat m < 2 ^ 57" "300000 \<le> m"
  shows "unat (limit_median hf m s * 2) = 2 * min (max (unat m) (unat s)) (50 * unat m)"
proof -
  have f: "\<not> hf < 2" "\<not> hf < 5" "\<not> hf < 10" "\<not> hf < 15" using assms(1) by (auto simp: word_less_nat_alt word_le_nat_alt)
  have s: "unat (50 * m) = unat m * 50" using unat_scale [OF assms(2), of 50] by (simp add: mult.commute)
  let ?l = "min (max m s) (50 * m)"
  have "300000 \<le> unat m" using assms(3) by (simp add: word_le_nat_alt)
  then have u: "unat (max 300000 ?l) = min (max (unat m) (unat s)) (50 * unat m)"
    unfolding unat_maximum unat_minimum s by simp
  have "unat (max 300000 ?l * 2) = unat (max 300000 ?l) * 2"
    using assms(2) by (subst unat_times_exact) (simp_all add: u)
  then show ?thesis unfolding limit_median_def get_min_block_weight_def using f by (simp add: u)
qed

lemma set_weight_limit_max:
  "m_current_block_cumul_weight_limit (set_weight_limit z bc) \<le> get_max_block_size (set_weight_limit z bc) \<or> db_read_only bc"
  by (auto simp: set_weight_limit_def add_max_block_size_def get_max_block_size_def Let_def not_less)

lemma update_limit_max:
  assumes "update_next_cumulative_weight_limit hf bc = Some bc'" "\<not> db_read_only bc"
  shows "m_current_block_cumul_weight_limit bc' \<le> get_max_block_size bc'"
proof -
  obtain bc1 where "bc' = set_weight_limit (get_min_block_weight hf) bc1" "\<not> db_read_only bc1"
    using assms unfolding update_next_cumulative_weight_limit_def Let_def
    by (auto split: bind_splits if_splits dest!: median_keeps)
  then show ?thesis using set_weight_limit_max by blast
qed

subsection \<open>Properties\<close>

text \<open>C9: in every state a node can reach by connecting blocks, popping them and resetting its database,
  the median that \<open>get_long_term_block_weight_median\<close> takes from its rolling cache (whether it is found
  there, moved by one block, or recomputed) is the median of the last window of long-term weights of
  the chain now in the database, also after a reorganisation.\<close>
theorem cached_median_exact:
  assumes "block_tree V" "0 < n" "weight_start V n bc0" "reaches (weight_step V) bc0 bc" "m_db bc \<noteq> []"
  shows "\<exists>bc'. get_long_term_block_weight_median (length (m_db bc) - min n (length (m_db bc))) (min n (length (m_db bc))) bc =
    Some (median (last_values n (map bi_long_term_block_weight (m_db bc))), bc')"
  using median_query [OF assms(1,2) reachable_inv [OF assms(1-4)] assms(5)] by blast

text \<open>C25: in every reachable state, connecting a block whose chain stays in the tree fails exactly if the
  database is empty and the version is 10 or later, where the median of no blocks is asked for.
  Otherwise the block is stored with its own weight and the weight bounded by the long-term median
  before it, and the new limit is twice the median of the last hundred weights bounded by the long-term
  median after it.\<close>
theorem connect_weight_returns:
  assumes "block_tree V" "0 < n" "weight_start V n bc0" "reaches (weight_step V) bc0 bc"
    and "b = \<lparr>bi_hash = block_id, bi_weight = w, bi_long_term_block_weight = bounded_weight hf w (effective_long_term_median n bc), bi_coins = coins\<rparr>"
    and "m_db bc @ [b] \<in> V"
  shows "if m_db bc = [] \<and> 10 \<le> hf then connect_weight hf hf' block_id w coins bc = None
    else \<exists>bc'. connect_weight hf hf' block_id w coins bc = Some bc' \<and> m_db bc' = m_db bc @ [b] \<and>
      m_current_block_cumul_weight_limit bc' =
        limit_median hf' (effective_long_term_median n bc') (median (map bi_weight (last_values 100 (m_db bc')))) * 2"
proof (cases "m_db bc = [] \<and> 10 \<le> hf")
  case True
  then show ?thesis using needs_blocks(1) [of bc hf w] by (simp add: connect_weight_def not_less)
next
  case False
  then have "m_db bc \<noteq> [] \<or> hf < 10" by (auto simp: not_le)
  then show ?thesis
    using connect_weight_exact [OF assms(1,2) reachable_inv [OF assms(1-4)], of hf block_id w coins hf'] assms(5,6) False by auto
qed

text \<open>C26: from the fork with the 2021 scaling on, as long as the effective long-term median stays below
  \<open>2^57\<close>: the long-term weight of a block is its weight clamped to between 10/17 and 17/10 of that
  median, no product wraps, and the limit of the next block lies between 2 and 100 times the median,
  at the clamped median of the last hundred blocks; a writable database records no smaller limit.\<close>
theorem weight_limit_bounds:
  assumes "block_tree V" "0 < n" "weight_start V n bc0" "reaches (weight_step V) bc0 bc" "m_db bc \<noteq> []" "15 \<le> hf"
    and "m = unat (effective_long_term_median n bc)" "m < 2 ^ 57"
  shows "\<exists>lw bc1 bc2. get_next_long_term_block_weight hf w bc = Some (lw, bc1) \<and>
      unat lw = min (max (unat w) (m * 10 div 17)) (m * 17 div 10) \<and>
      update_next_cumulative_weight_limit hf bc = Some bc2 \<and>
      unat (m_current_block_cumul_weight_limit bc2) = 2 * min (max m (unat (median (map bi_weight (last_values 100 (m_db bc)))))) (50 * m) \<and>
      (db_read_only bc \<or> m_current_block_cumul_weight_limit bc2 \<le> get_max_block_size bc2)"
proof -
  note inv = reachable_inv [OF assms(1-4)]
  have m: "unat (effective_long_term_median n bc) < 2 ^ 57" using assms(7,8) by simp
  have ge: "300000 \<le> effective_long_term_median n bc" by (simp add: effective_long_term_median_def)
  obtain bc1 where 1: "get_next_long_term_block_weight hf w bc = Some (bounded_weight hf w (effective_long_term_median n bc), bc1)"
    using next_long_term_weight [OF assms(1,2) inv, of hf w] assms(5) by blast
  obtain bc2 where 2: "update_next_cumulative_weight_limit hf bc = Some bc2" "m_current_block_cumul_weight_limit bc2 =
      limit_median hf (effective_long_term_median n bc) (median (map bi_weight (last_values 100 (m_db bc)))) * 2"
    using update_limit [OF assms(1,2) inv, of hf] assms(5) by blast
  show ?thesis
    using 1 2 bounded_weight_bounds [OF assms(6) m] limit_median_bounds [OF assms(6) m ge] update_limit_max [OF 2(1)]
    unfolding assms(7) by auto
qed

subsection \<open>Witnesses\<close>

text \<open>A chain of three blocks and a node with a window of two that has opened it.\<close>

definition ex_block :: "nat \<Rightarrow> u64 \<Rightarrow> u64 \<Rightarrow> stored_block" where
  "ex_block i w lw = \<lparr>bi_hash = replicate 32 (of_nat (Suc i)), bi_weight = w, bi_long_term_block_weight = lw, bi_coins = 0\<rparr>"

definition ex_chain :: "stored_block list" where
  "ex_chain = [ex_block 0 80 80, ex_block 1 400000 400000, ex_block 2 1000 176470]"

definition ex_tree :: "stored_block list set" where
  "ex_tree = {[], take 1 ex_chain, take 2 ex_chain, ex_chain}"

definition ex_node :: "stored_block list \<Rightarrow> blockchain" where
  "ex_node db = blockchain_new 2 \<lparr>rm_data = \<lambda>_. 0, rm_pos = \<lambda>_. 0, rm_heap = \<lambda>_. 0, rm_N = 0, rm_idx = 0, minCt = 0, maxCt = 0, rm_sz = 0\<rparr> db False None"

lemmas ex_defs = ex_chain_def ex_block_def

lemma ex_tree_ok: "block_tree ex_tree"
  unfolding block_tree_def ex_tree_def by (simp add: ex_defs null_hash_def)

lemma ex_start: "db \<in> ex_tree \<Longrightarrow> weight_start ex_tree 2 (ex_node db)"
  by (auto simp: weight_start_def ex_node_def)

lemma ex_pop: "weight_step ex_tree (ex_node ex_chain) (ex_node (take 2 ex_chain))"
  by (rule step_pop) (simp add: pop_weight_def ex_node_def blockchain_new_def ex_defs)

lemma ex_reached: "reaches (weight_step ex_tree) (ex_node ex_chain) (ex_node (take 2 ex_chain))"
  by (rule reaches_step) (rule reaches_refl, rule ex_pop)

lemma ex_db: "m_db (ex_node db) = db" "db_read_only (ex_node db) = False"
  by (simp_all add: ex_node_def blockchain_new_def)

lemma ex_chains: "length ex_chain = 3" "ex_chain \<noteq> []" "ex_chain \<in> ex_tree" "take 2 ex_chain @ [ex_block 2 1000 176470] = ex_chain"
  by (simp_all add: ex_tree_def ex_chain_def)

lemma ex_medians:
  "median (last_values 2 (map bi_long_term_block_weight (take 2 ex_chain))) = 200040"
  "median (last_values 2 (map bi_long_term_block_weight ex_chain)) = 288235"
  "median (map bi_weight (last_values 100 (take 2 ex_chain))) = 200040"
  "median (map bi_weight (last_values 100 ex_chain)) = 1000"
  by code_simp+

lemma ex_effective: "effective_long_term_median 2 (ex_node (take 2 ex_chain)) = 300000"
  by (simp add: effective_long_term_median_def ex_db ex_medians)

lemmas ex_reachable = ex_tree_ok zero_less_numeral ex_start [OF ex_chains(3)] ex_reached

theorem cached_median_exact_witness:
  "\<exists>bc'. get_long_term_block_weight_median 0 2 (ex_node (take 2 ex_chain)) = Some (200040, bc')"
  using cached_median_exact [OF ex_reachable] by (simp add: ex_db ex_medians ex_chains)

lemma ex_first_tree: "block_tree {[], [ex_block 0 80 176470]}" "weight_start {[], [ex_block 0 80 176470]} 2 (ex_node [])"
  by (auto simp: block_tree_def ex_block_def null_hash_def weight_start_def ex_node_def)

theorem connect_weight_returns_witness:
  "(\<exists>bc'. connect_weight 16 16 (replicate 32 3) 1000 0 (ex_node (take 2 ex_chain)) = Some bc' \<and>
     m_db bc' = ex_chain \<and> m_current_block_cumul_weight_limit bc' = 600000) \<and>
   connect_weight 16 16 (replicate 32 1) 80 0 (ex_node []) = None"
proof
  have l: "effective_long_term_median 2 bc = 300000" if "m_db bc = ex_chain" for bc
    using that by (simp add: effective_long_term_median_def ex_medians)
  have "limit_median 16 300000 1000 = 300000" "bounded_weight 16 1000 300000 = 176470" by code_simp+
  moreover have b: "ex_block 2 1000 176470 = \<lparr>bi_hash = replicate 32 3, bi_weight = 1000, bi_long_term_block_weight = 176470, bi_coins = 0\<rparr>"
    by (simp add: ex_block_def)
  ultimately show "\<exists>bc'. connect_weight 16 16 (replicate 32 3) 1000 0 (ex_node (take 2 ex_chain)) = Some bc' \<and>
      m_db bc' = ex_chain \<and> m_current_block_cumul_weight_limit bc' = 600000"
    using connect_weight_returns [OF ex_reachable, of "ex_block 2 1000 176470" "replicate 32 3" 1000 16 0 16]
    by (auto simp: ex_db ex_effective ex_chains ex_medians l ex_chains(4) [unfolded b])
  have "bounded_weight 16 80 (effective_long_term_median 2 (ex_node [])) = 176470" by code_simp
  then show "connect_weight 16 16 (replicate 32 1) 80 0 (ex_node []) = None"
    using connect_weight_returns [OF ex_first_tree(1) _ ex_first_tree(2) reaches_refl, of "ex_block 0 80 176470" "replicate 32 1" 80 16 0 16]
    by (simp add: ex_db ex_block_def)
qed

theorem weight_limit_bounds_witness:
  "\<exists>lw bc1 bc2. get_next_long_term_block_weight 16 1000 (ex_node (take 2 ex_chain)) = Some (lw, bc1) \<and> unat lw = 176470 \<and>
     update_next_cumulative_weight_limit 16 (ex_node (take 2 ex_chain)) = Some bc2 \<and>
     unat (m_current_block_cumul_weight_limit bc2) = 600000"
  using weight_limit_bounds [OF ex_reachable, of 16 300000 1000]
  by (auto simp: ex_db ex_effective ex_chains ex_medians)

end
