(* ===== verification/Fees.thy ===== *)
theory Fees
  imports Block_Weight
begin

section \<open>Fees (\<open>src/cryptonote_core/blockchain.cpp\<close>, \<open>src/cryptonote_basic/cryptonote_format_utils.cpp\<close>)\<close>

text \<open>
  The minimum fee a node asks of a transaction, the fee levels it proposes to wallets, and the rounding
  of an amount to a number of significant decimal digits. A decimal text is a list of character codes.
  An exception, a failed assertion or a division by zero is \<open>None\<close>; the estimate for wallets keeps its
  exceptions apart.
\<close>

definition DYNAMIC_FEE_REFERENCE_TRANSACTION_WEIGHT :: u64 where "DYNAMIC_FEE_REFERENCE_TRANSACTION_WEIGHT = 12"
definition CRYPTONOTE_SCALING_2021_FEE_ROUNDING_PLACES :: nat where "CRYPTONOTE_SCALING_2021_FEE_ROUNDING_PLACES = 2"
definition BLOCK_REWARD_OVERESTIMATE :: u64 where "BLOCK_REWARD_OVERESTIMATE = 10 * 1000000000000"

definition get_fee_quantization_mask :: u64 where "get_fee_quantization_mask = 10 ^ (12 - 8)"

subsection \<open>The minimum fee\<close>

definition get_dynamic_base_fee :: "u64 \<Rightarrow> u64 \<Rightarrow> u64 option" where
  "get_dynamic_base_fee block_reward median_block_weight =
     (let min_block_weight = CRYPTONOTE_BLOCK_GRANTED_FULL_REWARD_ZONE_V5;
          median_block_weight = (if median_block_weight < min_block_weight then min_block_weight else median_block_weight);
          (lo, hi) = mul128 block_reward DYNAMIC_FEE_REFERENCE_TRANSACTION_WEIGHT
      in Option.bind (div128_64 hi lo median_block_weight) (\<lambda>(hi, lo, _, _).
         Option.bind (div128_64 hi lo median_block_weight) (\<lambda>(hi, lo, _, _).
           if hi \<noteq> 0 then None
           else let lo = lo - lo div 20 in Some (if lo = 0 then 1 else lo))))"

definition check_fee :: "u8 \<Rightarrow> u64 \<Rightarrow> u64 \<Rightarrow> blockchain \<Rightarrow> bool option" where
  "check_fee version tx_weight fee bc =
     (let median = m_current_block_cumul_weight_limit bc div 2;
          already_generated_coins = (if m_db bc \<noteq> [] then bi_coins (last (m_db bc)) else 0)
      in case get_block_reward median 1 already_generated_coins version of
           Assert_failed \<Rightarrow> None
         | Weight_too_big \<Rightarrow> Some False
         | Reward base_reward \<Rightarrow>
             Option.bind (get_dynamic_base_fee base_reward (min median (m_long_term_effective_median_block_weight bc))) (\<lambda>fee_per_byte.
               let fee_per_byte_adjusted = fee_per_byte div 100;
                   needed_fee = tx_weight * fee_per_byte_adjusted;
                   mask = get_fee_quantization_mask;
                   needed_fee = (needed_fee + mask - 1) div mask * mask
               in Some (\<not> fee < needed_fee - needed_fee div 50)))"

subsection \<open>Rounding an amount up\<close>

text \<open>\<open>snprintf\<close> with \<open>%llu\<close> and \<open>strtoull\<close>, the latter on a text of digits.\<close>

fun decimal_digits :: "nat \<Rightarrow> nat list" where
  "decimal_digits n = (if n < 10 then [n] else n mod 10 # decimal_digits (n div 10))"

declare decimal_digits.simps [simp del]

definition print_decimal :: "u64 \<Rightarrow> bytes" where
  "print_decimal amount = map (\<lambda>d. 48 + of_nat d) (rev (decimal_digits (unat amount)))"

definition decimal_value :: "bytes \<Rightarrow> nat" where
  "decimal_value buf = foldl (\<lambda>v c. 10 * v + unat (c - 48)) 0 buf"

definition strtoull :: "bytes \<Rightarrow> u64 \<times> bool" where
  "strtoull buf = (if decimal_value buf < 2 ^ 64 then (of_nat (decimal_value buf), True) else (-1, False))"

text \<open>The loop over the digits past the significant ones, and the loop that carries into the others.\<close>

fun clear_digits :: "bool \<Rightarrow> bytes \<Rightarrow> bool \<times> bytes" where
  "clear_digits bump [] = (bump, [])"
| "clear_digits bump (c # cs) =
     (let (bump, c) = (if c \<noteq> 48 then (True, 48) else (bump, c)); (bump, cs) = clear_digits bump cs in (bump, c # cs))"

fun bump_digits :: "bytes \<Rightarrow> bool \<times> bytes" where
  "bump_digits [] = (True, [])"
| "bump_digits (c # cs) = (if c = 57 then let (bump, cs) = bump_digits cs in (bump, 48 # cs) else (False, (c + 1) # cs))"

definition round_text :: "bytes \<Rightarrow> nat \<Rightarrow> bytes" where
  "round_text buf significant_digits =
     (if significant_digits < length buf then
        let (bump, tail) = clear_digits False (drop significant_digits buf);
            (bump, front) = (if bump then bump_digits (rev (take significant_digits buf)) else (False, rev (take significant_digits buf)));
            buf = rev front @ tail
        in if bump then 49 # buf else buf
      else buf)"

definition round_money_up :: "u64 \<Rightarrow> nat \<Rightarrow> u64 option" where
  "round_money_up amount significant_digits =
     (if \<not> 0 < significant_digits then None
      else let (ull, no_error) = strtoull (round_text (print_decimal amount) significant_digits)
           in if \<not> (ull \<noteq> -1 \<or> no_error) then None else if \<not> (ull \<noteq> 0 \<or> amount = 0) then None else Some ull)"

subsection \<open>Fee levels for wallets\<close>

definition estimate_2021_scaling :: "u64 \<Rightarrow> u64 \<Rightarrow> u64 \<Rightarrow> u64 list option" where
  "estimate_2021_scaling base_reward Mnw Mlw =
     (let Mfw = min Mnw Mlw;
          T = DYNAMIC_FEE_REFERENCE_TRANSACTION_WEIGHT;
          Z = CRYPTONOTE_BLOCK_GRANTED_FULL_REWARD_ZONE_V5
      in if Mfw * Mfw = 0 \<or> Z * Mfw = 0 \<or> 32 * T * Mnw div Z = 0 then None
         else let Fl = base_reward * T div (Mfw * Mfw);
                  Fn = 4 * base_reward * T div (Mfw * Mfw);
                  Fm = 16 * base_reward * T div (Z * Mfw);
                  Fh = max (4 * Fm) (4 * Fm * Mfw div (32 * T * Mnw div Z))
              in those (map (\<lambda>F. round_money_up F CRYPTONOTE_SCALING_2021_FEE_ROUNDING_PLACES) [Fl, Fn, Fm, Fh]))"

text \<open>What the estimate throws: the range check of its argument, the database asked for a height it does not
  have; a failed assertion or a division by zero.\<close>

datatype estimate_error = Grace_blocks_invalid | Height_not_in_blockchain | Assertion_failed

definition get_dynamic_base_fee_estimate_2021_scaling :: "u8 \<Rightarrow> nat \<Rightarrow> blockchain \<Rightarrow> estimate_error + u64 list" where
  "get_dynamic_base_fee_estimate_2021_scaling version grace_blocks bc =
     (if \<not> grace_blocks \<le> CRYPTONOTE_REWARD_BLOCKS_WINDOW then Inl Grace_blocks_invalid
      else case rm_insert_all (replicate grace_blocks 0) (m_long_term_block_weights_cache_rolling_median bc) of
        None \<Rightarrow> Inl Assertion_failed
      | Some rm \<Rightarrow>
          let Mlw = max (if rm_size rm = 0 then 0 else rm_median rm) CRYPTONOTE_BLOCK_GRANTED_FULL_REWARD_ZONE_V5
          in case get_last_n_blocks_weights (100 - grace_blocks) bc of
               None \<Rightarrow> Inl Height_not_in_blockchain
             | Some weights \<Rightarrow>
                 let Msw = max (median (weights @ replicate grace_blocks 0)) Mlw;
                     Mnw = min Msw (50 * Mlw);
                     already_generated_coins = (if m_db bc \<noteq> [] then bi_coins (last (m_db bc)) else 0);
                     base_reward = (case get_block_reward (m_current_block_cumul_weight_limit bc div 2) 1 already_generated_coins version of
                                      Reward r \<Rightarrow> r | _ \<Rightarrow> BLOCK_REWARD_OVERESTIMATE)
                 in case estimate_2021_scaling base_reward Mnw Mlw of
                      None \<Rightarrow> Inl Assertion_failed
                    | Some fees \<Rightarrow> Inr fees)"

subsection \<open>The base fee\<close>

lemma floor_one: "(if x = 0 then 1 else x) = of_nat (max 1 (unat x))" for x :: u64
proof (cases "x = 0")
  case False
  then have "1 \<le> unat x" by (simp add: Suc_le_eq unat_gt_0)
  then show ?thesis using False by (simp add: max_def)
qed simp

lemma base_fee_exact:
  fixes r M :: u64
  defines "q \<equiv> unat r * 12 div unat (max 300000 M) div unat (max 300000 M)"
  shows "get_dynamic_base_fee r M = Some (of_nat (max 1 (q - q div 20)))" "q < 2 ^ 64"
proof -
  define m where "m = max 300000 M"
  have m: "300000 \<le> unat m" by (simp add: m_def unat_maximum)
  obtain lo hi where p: "mul128 r 12 = (lo, hi)" by fastforce
  have p': "unat hi * 2 ^ 64 + unat lo = unat r * 12" using mul128_exact [OF p] by simp
  have "m \<noteq> 0" using m by auto
  then obtain h1 l1 a b where d1: "div128_64 hi lo m = Some (h1, l1, a, b)"
    using div128_64_defined [of hi lo m] by (cases "div128_64 hi lo m") auto
  obtain h2 l2 c d where d2: "div128_64 h1 l1 m = Some (h2, l2, c, d)"
    using div128_64_defined [of h1 l1 m] \<open>m \<noteq> 0\<close> by (cases "div128_64 h1 l1 m") auto
  have q: "unat h2 * 2 ^ 64 + unat l2 = q"
    using div128_64_exact(1) [OF d1] div128_64_exact(1) [OF d2] p' by (simp add: q_def m_def)
  have "unat r * 12 div unat m \<le> unat r * 12 div 300000" using m by (intro div_le_mono2) auto
  then have "q \<le> unat r * 12 div 300000" unfolding q_def m_def [symmetric] using div_le_dividend le_trans by blast
  also have "\<dots> < 2 ^ 64" using unat_u64_lt [of r] by (simp del: unat_u64_lt)
  finally show lt: "q < 2 ^ 64" .
  then have "unat h2 = 0" using q by (cases "unat h2") auto
  then have "h2 = 0" "unat l2 = q" using q by (simp_all add: unat_eq_zero)
  have n: "(if M < 300000 then 300000 else M) = m" by (auto simp: m_def max_def)
  have u: "unat (l2 - l2 div 20) = q - q div 20" using \<open>unat l2 = q\<close> by (subst unat_sub) (simp_all add: unat_div_distrib word_le_nat_alt)
  show "get_dynamic_base_fee r M = Some (of_nat (max 1 (q - q div 20)))"
    unfolding get_dynamic_base_fee_def Let_def CRYPTONOTE_BLOCK_GRANTED_FULL_REWARD_ZONE_V5_def DYNAMIC_FEE_REFERENCE_TRANSACTION_WEIGHT_def n
    using floor_one [of "l2 - l2 div 20", unfolded u] by (simp add: p d1 d2 \<open>h2 = 0\<close>)
qed

subsection \<open>Decimal text\<close>

abbreviation digit_text :: "nat list \<Rightarrow> bytes" where
  "digit_text ds \<equiv> map (\<lambda>d. 48 + of_nat d) ds"

lemma decimal_digits_step:
  "n < 10 \<Longrightarrow> decimal_digits n = [n]" "\<not> n < 10 \<Longrightarrow> decimal_digits n = n mod 10 # decimal_digits (n div 10)"
  by (simp_all only: decimal_digits.simps [of n] if_True if_False)

lemma decimal_digits:
  "(\<forall>d \<in> set (decimal_digits n). d < 10) \<and> digits_val 10 (decimal_digits n) = n \<and>
   0 < length (decimal_digits n) \<and> (0 < n \<longrightarrow> 10 ^ (length (decimal_digits n) - 1) \<le> n)"
proof (induction n rule: less_induct)
  case (less n)
  show ?case
  proof (cases "n < 10")
    case True
    then show ?thesis by (simp add: decimal_digits_step)
  next
    case False
    let ?m = "n div 10"
    have m: "0 < ?m" "?m < n" using False by auto
    note IH = less.IH [OF m(2)]
    then have "10 ^ length (decimal_digits ?m) \<le> ?m * 10" using m(1) by (metis mult_le_mono1 power_minus_mult)
    also have "\<dots> \<le> n" by simp
    finally show ?thesis using IH by (simp add: decimal_digits_step(2) [OF False])
  qed
qed

lemma unat_digit: "d < 10 \<Longrightarrow> unat (48 + of_nat d :: u8) = 48 + d"
  by (subst unat_plus_exact) (simp_all add: unat_of_nat)

lemma decimal_value_text:
  "\<forall>d \<in> set ds. d < 10 \<Longrightarrow> decimal_value (digit_text (rev ds)) = digits_val 10 ds"
  by (induction ds) (auto simp: decimal_value_def unat_of_nat)

lemma clear_digits_text:
  "\<forall>d \<in> set ds. d < 10 \<Longrightarrow>
    clear_digits b (digit_text ds) = (b \<or> (\<exists>d \<in> set ds. d \<noteq> 0), digit_text (replicate (length ds) 0))"
proof (induction ds arbitrary: b)
  case (Cons d ds)
  have "(48 + of_nat d :: u8) = 48 \<longleftrightarrow> d = 0" using Cons.prems unat_digit [of d] by (simp add: word_unat_eq_iff)
  then show ?case using Cons by auto
qed simp

lemma bump_digits_text:
  "\<forall>d \<in> set ds. d < 10 \<Longrightarrow>
    \<exists>b es. bump_digits (digit_text ds) = (b, digit_text es) \<and> length es = length ds \<and> (\<forall>d \<in> set es. d < 10) \<and>
      digits_val 10 es + (if b then 10 ^ length ds else 0) = digits_val 10 ds + 1"
proof (induction ds)
  case (Cons d ds)
  then obtain b es where es: "bump_digits (digit_text ds) = (b, digit_text es)" "length es = length ds" "\<forall>d \<in> set es. d < 10"
    "digits_val 10 es + (if b then 10 ^ length ds else 0) = digits_val 10 ds + 1" by auto
  have nine: "(48 + of_nat d :: u8) = 57 \<longleftrightarrow> d = 9" using Cons.prems unat_digit [of d] by (simp add: word_unat_eq_iff)
  show ?case
  proof (cases "d = 9")
    case True
    then show ?thesis using es by (intro exI [of _ b] exI [of _ "0 # es"]) (auto split: if_splits)
  next
    case False
    then show ?thesis using Cons.prems nine by (intro exI [of _ False] exI [of _ "Suc d # ds"]) auto
  qed
qed (auto intro!: exI [of _ "[]"])

lemma digits_zero: "digits_val 10 ds = 0 \<longleftrightarrow> (\<forall>d \<in> set ds. d = 0)"
  by (induction ds) auto

lemma round_text_value:
  fixes n sd :: nat
  defines "ds \<equiv> decimal_digits n" and "k \<equiv> length (decimal_digits n) - sd"
  shows "decimal_value (round_text (digit_text (rev ds)) sd) = (n div 10 ^ k + (if n mod 10 ^ k = 0 then 0 else 1)) * 10 ^ k"
proof (cases "sd < length ds")
  case True
  let ?lo = "take k ds" and ?hi = "drop k ds"
  have k: "k < length ds \<or> sd = 0" "length ds - k = sd" "k \<le> length ds" "length ds - sd = k" using True by (auto simp: k_def ds_def)
  have ok: "\<forall>d \<in> set ?lo. d < 10" "\<forall>d \<in> set ?hi. d < 10"
    using decimal_digits [of n] by (auto simp: ds_def dest: in_set_takeD in_set_dropD)
  have "n = digits_val 10 (?lo @ ?hi)" using decimal_digits [of n] by (simp add: ds_def)
  also have "\<dots> = digits_val 10 ?lo + 10 ^ k * digits_val 10 ?hi" using k(3) by (subst digits_val_append) simp
  finally have n: "n = digits_val 10 ?lo + 10 ^ k * digits_val 10 ?hi" .
  moreover have "digits_val 10 ?lo < 10 ^ k" using digits_val_lt [OF ok(1)] k(3) by simp
  ultimately have dm: "n div 10 ^ k = digits_val 10 ?hi" "n mod 10 ^ k = digits_val 10 ?lo" by simp_all
  have parts: "take sd (digit_text (rev ds)) = digit_text (rev ?hi)" "drop sd (digit_text (rev ds)) = digit_text (rev ?lo)"
    using k(4) by (simp_all add: take_map drop_map take_rev drop_rev)
  have clear: "clear_digits False (digit_text (rev ?lo)) = (n mod 10 ^ k \<noteq> 0, digit_text (rev (replicate k 0)))"
    using clear_digits_text [of "rev ?lo" False] ok(1) k(3) by (simp add: dm(2) digits_zero)
  have val: "decimal_value (digit_text (rev (replicate k 0 @ es))) = 10 ^ k * digits_val 10 es" if "\<forall>d \<in> set es. d < 10" for es
    using that by (subst decimal_value_text) (auto simp: digits_val_append digits_val_zeros)
  show ?thesis
  proof (cases "n mod 10 ^ k = 0")
    case z: True
    then show ?thesis using True val [OF ok(2)]
      by (simp add: round_text_def parts clear Let_def dm(1) rev_map)
  next
    case nz: False
    obtain b es where es: "bump_digits (digit_text ?hi) = (b, digit_text es)" "length es = length ?hi" "\<forall>d \<in> set es. d < 10"
      "digits_val 10 es + (if b then 10 ^ length ?hi else 0) = digits_val 10 ?hi + 1" using bump_digits_text [OF ok(2)] by blast
    let ?es = "es @ (if b then [1] else [])"
    have "decimal_value (round_text (digit_text (rev ds)) sd) = decimal_value (digit_text (rev (replicate k 0 @ ?es)))"
      using True nz es(1) by (simp add: round_text_def parts clear Let_def rev_map)
    also have "\<dots> = 10 ^ k * digits_val 10 ?es" using es(3) by (intro val) auto
    also have "digits_val 10 ?es = digits_val 10 ?hi + 1" using es(2,4) by (auto simp: digits_val_append split: if_splits)
    finally show ?thesis using nz by (simp add: dm(1))
  qed
next
  case False
  then show ?thesis using decimal_value_text [of ds] decimal_digits [of n] by (simp add: round_text_def k_def ds_def)
qed

text \<open>Numbers written with at most some number of significant digits.\<close>

definition has_significant_digits :: "nat \<Rightarrow> nat \<Rightarrow> bool" where
  "has_significant_digits sd n \<longleftrightarrow> (\<exists>a e. a < 10 ^ sd \<and> n = a * 10 ^ e)"

lemma rounded_least:
  fixes n sd :: nat
  defines "k \<equiv> length (decimal_digits n) - sd"
  defines "R \<equiv> (n div 10 ^ k + (if n mod 10 ^ k = 0 then 0 else 1)) * 10 ^ k"
  assumes "0 < sd"
  shows "R = (LEAST m. n \<le> m \<and> has_significant_digits sd m)" "n \<le> R"
proof -
  define L where "L = length (decimal_digits n)"
  note dd = decimal_digits [of n, folded L_def]
  let ?a = "n div 10 ^ k + (if n mod 10 ^ k = 0 then 0 else 1)"
  have nL: "n < 10 ^ L" using digits_val_lt [of "decimal_digits n" 10] dd by (simp add: L_def)
  have "n = n div 10 ^ k * 10 ^ k + n mod 10 ^ k" "n mod 10 ^ k < 10 ^ k" "(n div 10 ^ k + 1) * 10 ^ k = n div 10 ^ k * 10 ^ k + 10 ^ k"
    by (rule div_mult_mod_eq [symmetric]) simp_all
  then have "n \<le> n div 10 ^ k * 10 ^ k \<or> n mod 10 ^ k \<noteq> 0" "n \<le> (n div 10 ^ k + 1) * 10 ^ k" by linarith+
  then show ge: "n \<le> R" unfolding R_def by (cases "n mod 10 ^ k = 0") simp_all
  have "n div 10 ^ k < 10 ^ sd"
  proof -
    have "L \<le> sd + k" by (simp add: k_def L_def)
    then have "(10 :: nat) ^ L \<le> 10 ^ (sd + k)" by (intro power_increasing) simp_all
    with nL have "n < 10 ^ (sd + k)" by linarith
    then show ?thesis by (simp add: less_mult_imp_div_less power_add)
  qed
  then have a: "?a \<le> 10 ^ sd" by auto
  then consider "?a < 10 ^ sd" | "?a = 10 ^ sd" by linarith
  then have "has_significant_digits sd R"
  proof cases
    case 1
    then show ?thesis unfolding has_significant_digits_def R_def by blast
  next
    case 2
    then have "R = 1 * 10 ^ (sd + k)" by (simp add: R_def power_add)
    moreover have "(1 :: nat) < 10 ^ sd" by (rule one_less_power) (use assms(3) in simp_all)
    ultimately show ?thesis unfolding has_significant_digits_def by blast
  qed
  with ge have R: "n \<le> R \<and> has_significant_digits sd R" by simp
  have "R \<le> m" if m: "n \<le> m \<and> has_significant_digits sd m" for m
  proof -
  obtain a e where ae: "a < 10 ^ sd" "m = a * 10 ^ e" using m by (auto simp: has_significant_digits_def)
  show "R \<le> m"
  proof (cases "k \<le> e")
    case True
    then obtain c where c: "m = c * 10 ^ k" using ae(2) by (metis le_add_diff_inverse2 mult.assoc power_add)
    have "?a \<le> c"
    proof (cases "n mod 10 ^ k = 0")
      case True
      have "n div 10 ^ k \<le> c * 10 ^ k div 10 ^ k" using m c by (intro div_le_mono) simp
      then show ?thesis using True by simp
    next
      case False
      then have "n < c * 10 ^ k" using m c by (metis le_neq_implies_less mod_mult_self2_is_0)
      then show ?thesis using False less_mult_imp_div_less [of n c "10 ^ k"] by simp
    qed
    then show ?thesis unfolding R_def c by (rule mult_le_mono1)
  next
    case False
    then have L: "L = sd + k" "e \<le> k - 1" "0 < k" by (auto simp: k_def L_def)
    have "1 < L" using L assms(3) by simp
    then have "0 < n" by (cases n) (simp_all add: L_def decimal_digits_step)
    have "m < 10 ^ (sd + e)" using ae by (simp add: power_add)
    also have "\<dots> \<le> 10 ^ (L - 1)" using L by (intro power_increasing) auto
    also have "\<dots> \<le> n" using dd \<open>0 < n\<close> by simp
    finally show ?thesis using m by simp
  qed
  qed
  then show "R = (LEAST m. n \<le> m \<and> has_significant_digits sd m)" using R by (metis (no_types, lifting) Least_equality)
qed

lemma round_money_up_value:
  assumes "0 < sd"
  shows "round_money_up amount sd =
    (let r = LEAST m. unat amount \<le> m \<and> has_significant_digits sd m in if r < 2 ^ 64 then Some (of_nat r) else None)"
proof -
  define R where "R = decimal_value (round_text (print_decimal amount) sd)"
  have R: "R = (LEAST m. unat amount \<le> m \<and> has_significant_digits sd m)" and ge: "unat amount \<le> R"
    unfolding R_def print_decimal_def round_text_value using rounded_least assms by simp_all
  show ?thesis
  proof (cases "R < 2 ^ 64")
    case True
    then have "(of_nat R :: u64) = 0 \<longleftrightarrow> R = 0" by (simp add: word_unat_eq_iff unat_of_nat64)
    then show ?thesis using True assms ge by (auto simp: round_money_up_def strtoull_def unat_eq_zero R_def [symmetric] R [symmetric])
  next
    case False
    then show ?thesis using assms by (simp add: round_money_up_def strtoull_def R_def [symmetric] R [symmetric])
  qed
qed

subsection \<open>The fee check\<close>

lemma reward_of_light_tx:
  "get_block_reward m 1 g v = Reward (if MONEY_SUPPLY \<le> g then 0 else base_block_reward g)"
  by (auto simp: get_block_reward_def Let_def get_min_block_weight_def word_le_nat_alt word_less_nat_alt)

definition tip_coins :: "blockchain \<Rightarrow> u64" where
  "tip_coins bc = (if m_db bc \<noteq> [] then bi_coins (last (m_db bc)) else 0)"

text \<open>The fee per byte of a state, before the division by 100.\<close>

definition fee_per_byte_of :: "blockchain \<Rightarrow> nat" where
  "fee_per_byte_of bc =
     (let r = unat (if MONEY_SUPPLY \<le> tip_coins bc then 0 else base_block_reward (tip_coins bc));
          M = max 300000 (min (unat (m_current_block_cumul_weight_limit bc) div 2) (unat (m_long_term_effective_median_block_weight bc)));
          q = r * 12 div M div M
      in max 1 (q - q div 20))"

lemma quantize_exact:
  fixes x :: u64
  assumes "unat x < 2 ^ 63"
  defines "n \<equiv> (unat x + 9999) div 10000 * 10000"
  shows "unat ((x + 10000 - 1) div 10000 * 10000) = n" "n < 2 ^ 64"
proof -
  have "unat (x + 9999) = unat x + 9999" using assms(1) by (subst unat_plus_exact) simp_all
  then have "unat ((x + 9999) div 10000) = (unat x + 9999) div 10000" by (simp add: unat_div_distrib)
  moreover show "n < 2 ^ 64" using assms(1) unfolding n_def by simp
  ultimately have "unat ((x + 9999) div 10000 * 10000) = n" unfolding n_def by (subst unat_times_exact) simp_all
  moreover have "x + 10000 - 1 = x + 9999" by (simp add: algebra_simps)
  ultimately show "unat ((x + 10000 - 1) div 10000 * 10000) = n" by (simp only:)
qed

lemma check_fee_nat:
  assumes "unat tx_weight * (fee_per_byte_of bc div 100) < 2 ^ 63"
  shows "check_fee version tx_weight fee bc =
    (let needed = (unat tx_weight * (fee_per_byte_of bc div 100) + 9999) div 10000 * 10000
     in Some (needed - needed div 50 \<le> unat fee))"
proof -
  define r where "r = (if MONEY_SUPPLY \<le> tip_coins bc then 0 else base_block_reward (tip_coins bc))"
  define M where "M = min (m_current_block_cumul_weight_limit bc div 2) (m_long_term_effective_median_block_weight bc)"
  define q where "q = unat r * 12 div unat (max 300000 M) div unat (max 300000 M)"
  note b = base_fee_exact [of r M, folded q_def]
  have M: "unat (max 300000 M) =
      max 300000 (min (unat (m_current_block_cumul_weight_limit bc) div 2) (unat (m_long_term_effective_median_block_weight bc)))"
    by (simp add: M_def unat_maximum unat_minimum unat_half)
  have f: "fee_per_byte_of bc = max 1 (q - q div 20)"
    by (simp only: fee_per_byte_of_def Let_def q_def M r_def)
  define F where "F = unat tx_weight * (fee_per_byte_of bc div 100)"
  have u: "unat (of_nat (max 1 (q - q div 20)) div 100 :: u64) = fee_per_byte_of bc div 100"
    using b(2) by (simp add: f unat_div_distrib unat_of_nat64)
  then have F: "unat (tx_weight * (of_nat (max 1 (q - q div 20)) div 100)) = F"
    using assms by (subst unat_times_exact) (simp_all add: F_def u)
  let ?x = "tx_weight * (of_nat (max 1 (q - q div 20)) div 100)"
  let ?n = "(?x + 10000 - 1) div 10000 * 10000"
  have n: "unat ?n = (F + 9999) div 10000 * 10000" using quantize_exact [of ?x] assms F by (simp add: F_def)
  have "unat (?n - ?n div 50) = unat ?n - unat ?n div 50"
    by (subst unat_sub) (simp_all add: unat_div_distrib word_le_nat_alt)
  then have c: "(\<not> fee < ?n - ?n div 50) = (unat ?n - unat ?n div 50 \<le> unat fee)" by (simp add: word_less_nat_alt not_less)
  show ?thesis
    unfolding check_fee_def Let_def tip_coins_def [symmetric] reward_of_light_tx r_def [symmetric] M_def [symmetric] reward_result.case
      b(1) get_fee_quantization_mask_def F_def [symmetric] n [symmetric] bind.bind_lunit
    using c by simp
qed

subsection \<open>Medians with blocks of weight zero\<close>

lemma median_nat:
  assumes "v \<noteq> []"
  shows "unat (median v) = (let s = sort v; n = length v div 2 in
    if odd (length v) then unat (s ! n) else (unat (s ! (n - 1)) + unat (s ! n)) div 2)"
proof (cases "length v = 1")
  case True
  then show ?thesis by (cases v) (simp_all add: median_def)
next
  case False
  then show ?thesis using assms by (simp add: median_def Let_def get_mid_exact odd_iff_mod_2_eq_one)
qed

lemma median_mono:
  assumes "length v = length w" "\<And>i. i < length v \<Longrightarrow> sort v ! i \<le> sort w ! i"
  shows "median v \<le> median w"
proof (cases "v = []")
  case True
  then show ?thesis using assms(1) by simp
next
  case False
  then have "0 < length v" by simp
  then have "length v div 2 < length v" "length v div 2 - 1 < length v" by (simp_all add: less_imp_diff_less)
  moreover have "w \<noteq> []" using assms(1) False by auto
  ultimately show ?thesis
    using assms False median_nat [of v] median_nat [of w] by (auto simp: word_le_nat_alt Let_def intro!: div_le_mono add_mono)
qed

lemma insort_shift: "sorted s \<Longrightarrow> i < length s \<Longrightarrow> s ! i \<le> insort y s ! Suc i" for s :: "'a::linorder list"
proof (induction s arbitrary: i)
  case (Cons a s)
  show ?case
  proof (cases i)
    case 0
    have "insort y s ! 0 \<in> set (insort y s)" by (rule nth_mem) simp
    then show ?thesis using 0 Cons.prems by (auto simp: set_insort_key)
  next
    case (Suc j)
    then show ?thesis using Cons by auto
  qed
qed simp

lemma sort_zero: "sort (xs @ [0]) = 0 # sort xs" for xs :: "u64 list"
  by (rule properties_for_sort) simp_all

lemma median_zero_added:
  assumes "xs \<noteq> []"
  shows "median (xs @ [0]) \<le> median xs"
proof -
  define s l where sl: "s = sort xs" "l = length xs"
  have s: "sorted s" "length s = l" "0 < l" using assms by (simp_all add: sl)
  have new: "unat (median (xs @ [0])) = (let n = (l + 1) div 2 in
      if odd (l + 1) then unat ((0 # s) ! n) else (unat ((0 # s) ! (n - 1)) + unat ((0 # s) ! n)) div 2)"
    using median_nat [of "xs @ [0]"] by (simp add: sort_zero sl Let_def)
  have old: "unat (median xs) = (if odd l then unat (s ! (l div 2)) else (unat (s ! (l div 2 - 1)) + unat (s ! (l div 2))) div 2)"
    using median_nat [OF assms] by (simp add: sl Let_def)
  show ?thesis
  proof (cases "odd l")
    case True
    then have "(l + 1) div 2 = Suc (l div 2)" "even (l + 1)" by auto
    moreover have "(0 # s) ! (l div 2) \<le> s ! (l div 2)"
      using s by (cases "l div 2") (auto intro: sorted_nth_mono)
    ultimately show ?thesis using new old True by (simp add: word_le_nat_alt Let_def) linarith
  next
    case False
    then obtain k where k: "l = 2 * Suc k" using s(3) by (metis evenE gr0_conv_Suc mult_is_0 not_gr_zero)
    have "s ! k \<le> s ! Suc k" using s k by (intro sorted_nth_mono) auto
    then show ?thesis using new old k by (simp add: word_le_nat_alt Let_def)
  qed
qed

lemma median_zero_replaced:
  assumes "xs \<noteq> []"
  shows "median (tl xs @ [0]) \<le> median xs"
proof (rule median_mono)
  obtain x ys where xs: "xs = x # ys" using assms by (cases xs) auto
  show "sort (tl xs @ [0]) ! i \<le> sort xs ! i" if "i < length (tl xs @ [0])" for i
    using that insort_shift [of "sort ys" _ x] by (cases i) (auto simp: xs sort_zero)
qed (use assms in simp)

lemma median_zero_blocks:
  assumes "0 < n" "xs \<noteq> []"
  shows "median (last_values n (xs @ replicate g 0)) \<le> median (last_values n xs)"
proof (induction g)
  case (Suc g)
  let ?ys = "xs @ replicate g 0"
  have "last_values n ?ys \<noteq> []" using assms by (cases xs) (simp_all add: last_values_def)
  then have "median (last_values n (?ys @ [0])) \<le> median (last_values n ?ys)"
    unfolding last_values_snoc [OF assms(1)] by (simp add: median_zero_added median_zero_replaced)
  then show ?case using Suc by (simp add: replicate_append_same [symmetric])
qed simp

subsection \<open>The proposed levels\<close>

lemma base_block_reward_initial:
  assumes "g < MONEY_SUPPLY"
  shows "unat (base_block_reward g) \<le> 42857142857143"
proof -
  obtain k where k: "issued_before k \<le> unat g" "unat g < issued_before (Suc k) \<or> k = 46" "k \<le> 46"
    by (rule halving_period)
  have "unat g < 18000000000000000000" using assms by (simp add: MONEY_SUPPLY_def word_less_nat_alt)
  from base_block_reward_exact [OF this k] have "unat (base_block_reward g) \<le> period_reward k" by simp
  also have "\<dots> \<le> 42857142857143" by (simp add: period_reward_def)
  finally show ?thesis .
qed

abbreviation rounded :: "nat \<Rightarrow> nat \<Rightarrow> nat" where
  "rounded sd n \<equiv> LEAST m. n \<le> m \<and> has_significant_digits sd m"

lemma rounded_small:
  assumes "0 < sd"
  shows "n \<le> rounded sd n" "n \<le> 10 ^ 18 \<Longrightarrow> rounded sd n \<le> 10 ^ 18" "n \<le> m \<Longrightarrow> rounded sd n \<le> rounded sd m"
proof -
  have R: "k \<le> rounded sd k \<and> has_significant_digits sd (rounded sd k)" for k
  proof (rule LeastI_ex)
    have "(1 :: nat) < 10 ^ sd" by (rule one_less_power) (use assms in simp_all)
    moreover have "k \<le> 1 * 10 ^ k" using less_exp [of k] by (metis less_imp_le mult_1 order.trans power_mono one_le_numeral numeral_le_iff semiring_norm(68,69,71) le0 zero_le_numeral)
    ultimately show "\<exists>m. k \<le> m \<and> has_significant_digits sd m" unfolding has_significant_digits_def by blast
  qed
  show "n \<le> rounded sd n" using R by simp
  show "n \<le> m \<Longrightarrow> rounded sd n \<le> rounded sd m" using R [of m] by (intro Least_le) auto
  have "has_significant_digits sd (10 ^ 18)"
    unfolding has_significant_digits_def using assms one_less_power [of "10 :: nat" sd] by (intro exI [of _ 1] exI [of _ 18]) simp
  then show "n \<le> 10 ^ 18 \<Longrightarrow> rounded sd n \<le> 10 ^ 18" by (intro Least_le) auto
qed

lemma round_money_up_small:
  assumes "unat F \<le> 10 ^ 18" "0 < sd"
  shows "round_money_up F sd = Some (of_nat (rounded sd (unat F)))" "unat (of_nat (rounded sd (unat F)) :: u64) = rounded sd (unat F)"
proof -
  have "rounded sd (unat F) < 2 ^ 64" using rounded_small(2) [OF assms(2,1)] by simp
  then show "round_money_up F sd = Some (of_nat (rounded sd (unat F)))" "unat (of_nat (rounded sd (unat F)) :: u64) = rounded sd (unat F)"
    using assms(2) by (simp_all add: round_money_up_value Let_def unat_of_nat64)
qed

lemma div_fits:
  fixes a b :: nat
  assumes "a \<le> 8228571428571456" "300000 * 300000 \<le> b"
  shows "a div b \<le> 92000"
proof -
  have "a div b \<le> a div (300000 * 300000)" using assms(2) by (intro div_le_mono2) simp_all
  then show ?thesis using assms(1) by simp
qed

lemma level_values:
  fixes r Mnw Mlw :: u64
  defines "Fl \<equiv> r * 12 div (Mlw * Mlw)" and "Fn \<equiv> 4 * r * 12 div (Mlw * Mlw)" and "Fm \<equiv> 16 * r * 12 div (300000 * Mlw)"
  defines "Fh \<equiv> max (4 * Fm) (4 * Fm * Mlw div (384 * Mnw div 300000))"
  assumes "unat r \<le> 42857142857143" "300000 \<le> unat Mlw" "unat Mlw < 2 ^ 31" "unat Mlw \<le> unat Mnw" "unat Mnw \<le> 50 * unat Mlw"
  shows "unat Fl = unat r * 12 div (unat Mlw * unat Mlw)" "unat Fl \<le> unat Fn" "unat Fn \<le> unat Fm" "unat Fm \<le> unat Fh" "unat Fh \<le> 10 ^ 18"
    "Mlw * Mlw \<noteq> 0" "300000 * Mlw \<noteq> 0" "384 * Mnw div 300000 \<noteq> 0"
proof -
  let ?M = "unat Mlw" and ?r = "unat r"
  have "?M * ?M < 2 ^ 31 * 2 ^ 31" using assms(6,7) by (intro mult_strict_mono) auto
  then have M2: "unat (Mlw * Mlw) = ?M * ?M" by (subst unat_times_exact) simp_all
  have MZ: "unat (300000 * Mlw) = 300000 * ?M" using assms(7) by (subst unat_times_exact) simp_all
  have D: "unat (384 * Mnw div 300000) = 384 * unat Mnw div 300000"
    using assms(7,9) by (simp add: unat_div_distrib) (subst unat_times_exact, simp_all)
  show "Mlw * Mlw \<noteq> 0" "300000 * Mlw \<noteq> 0" "384 * Mnw div 300000 \<noteq> 0"
    using M2 MZ D assms(6,8) by (auto simp: word_unat_eq_iff)
  have R: "unat (r * 12) = ?r * 12" "unat (4 * r * 12) = ?r * 48" "unat (16 * r * 12) = ?r * 192"
    using assms(5) by (simp_all add: unat_word_ariths)
  show l: "unat Fl = ?r * 12 div (?M * ?M)" unfolding Fl_def unat_div_distrib R M2 ..
  have n: "unat Fn = ?r * 48 div (?M * ?M)" unfolding Fn_def unat_div_distrib R M2 ..
  have m: "unat Fm = ?r * 192 div (300000 * ?M)" unfolding Fm_def unat_div_distrib R MZ ..
  show "unat Fl \<le> unat Fn" unfolding l n by (intro div_le_mono) simp
  have "?r * 48 div (?M * ?M) \<le> ?r * 48 div (300000 * ?M)" using assms(6) by (intro div_le_mono2 mult_le_mono) auto
  also have "\<dots> \<le> ?r * 192 div (300000 * ?M)" by (intro div_le_mono) simp
  finally show "unat Fn \<le> unat Fm" unfolding n m .
  have m9: "unat Fm \<le> 92000" unfolding m using assms(5,6) by (intro div_fits) auto
  have "unat Fm * ?M \<le> 92000 * 2 ^ 31" using m9 assms(7) by (intro mult_le_mono) auto
  then have H: "unat (4 * Fm) = 4 * unat Fm" "unat (4 * Fm * Mlw) = 4 * unat Fm * ?M" "4 * unat Fm * ?M \<le> 10 ^ 18"
    using m9 by (simp_all add: unat_word_ariths)
  show "unat Fm \<le> unat Fh" unfolding Fh_def unat_maximum H by simp
  have "4 * unat Fm * ?M div (384 * unat Mnw div 300000) \<le> 10 ^ 18" using H(3) div_le_dividend le_trans by blast
  then show "unat Fh \<le> 10 ^ 18" unfolding Fh_def unat_maximum unat_div_distrib [of "4 * Fm * Mlw"] D H using m9 by simp
qed

lemma estimate_levels:
  fixes r Mnw Mlw :: u64
  assumes "unat r \<le> 42857142857143" "300000 \<le> unat Mlw" "unat Mlw < 2 ^ 31" "unat Mlw \<le> unat Mnw" "unat Mnw \<le> 50 * unat Mlw"
  shows "\<exists>f0 f1 f2 f3. estimate_2021_scaling r Mnw Mlw = Some [f0, f1, f2, f3] \<and> f0 \<le> f1 \<and> f1 \<le> f2 \<and> f2 \<le> f3 \<and>
    unat r * 12 div (unat Mlw * unat Mlw) \<le> unat f0"
proof -
  define Fl Fn Fm Fh where F: "Fl = r * 12 div (Mlw * Mlw)" "Fn = 4 * r * 12 div (Mlw * Mlw)" "Fm = 16 * r * 12 div (300000 * Mlw)"
    "Fh = max (4 * Fm) (4 * Fm * Mlw div (384 * Mnw div 300000))"
  note v = level_values [OF assms, folded F]
  have small: "unat Fl \<le> 10 ^ 18" "unat Fn \<le> 10 ^ 18" "unat Fm \<le> 10 ^ 18" "unat Fh \<le> 10 ^ 18" using v by linarith+
  let ?f = "\<lambda>F. of_nat (rounded 2 (unat F)) :: u64"
  have two: "0 < (2 :: nat)" by simp
  have "min Mnw Mlw = Mlw" using assms(4) by (auto simp: word_le_nat_alt min_def word_unat_eq_iff)
  moreover have "32 * 12 = (384 :: u64)" by simp
  ultimately have "estimate_2021_scaling r Mnw Mlw = those (map (\<lambda>F. round_money_up F 2) [Fl, Fn, Fm, Fh])"
    unfolding estimate_2021_scaling_def Let_def CRYPTONOTE_SCALING_2021_FEE_ROUNDING_PLACES_def
      DYNAMIC_FEE_REFERENCE_TRANSACTION_WEIGHT_def CRYPTONOTE_BLOCK_GRANTED_FULL_REWARD_ZONE_V5_def
    using v(6-8) by (simp only: F simp_thms if_False)
  then have "estimate_2021_scaling r Mnw Mlw = Some [?f Fl, ?f Fn, ?f Fm, ?f Fh]"
    by (simp add: round_money_up_small(1) [OF small(1) two] round_money_up_small(1) [OF small(2) two]
        round_money_up_small(1) [OF small(3) two] round_money_up_small(1) [OF small(4) two])
  moreover have "?f F \<le> ?f G" if "unat F \<le> unat G" "unat G \<le> 10 ^ 18" for F G :: u64
    using rounded_small(3) [OF two that(1)] round_money_up_small(2) [OF that(2) two] round_money_up_small(2) [of F 2] that
    by (simp add: word_le_nat_alt)
  moreover have "unat Fl \<le> unat (?f Fl)" using rounded_small(1) [OF two] round_money_up_small(2) [OF small(1) two] by simp
  ultimately show ?thesis using v(1-4) small by (metis (no_types, lifting))
qed

subsection \<open>Properties\<close>

lemma last_weights_some:
  assumes "m_db bc \<noteq> []" "0 < k"
  shows "\<exists>ws. get_last_n_blocks_weights k bc = Some ws"
  using assms by (cases "m_db bc") (auto simp: get_last_n_blocks_weights_def get_block_info_64bit_fields_def Let_def min_def)

lemma estimate_of_state:
  fixes n g :: nat and bc :: blockchain
  defines "r \<equiv> if MONEY_SUPPLY \<le> tip_coins bc then 0 else base_block_reward (tip_coins bc)"
  assumes "0 < n" "m_db bc \<noteq> []" "cache_current n bc" "g < 100" "unat (effective_long_term_median n bc) < 2 ^ 31"
  shows "\<exists>Mlw f0 f1 f2 f3. get_dynamic_base_fee_estimate_2021_scaling version g bc = Inr [f0, f1, f2, f3] \<and>
    f0 \<le> f1 \<and> f1 \<le> f2 \<and> f2 \<le> f3 \<and> 300000 \<le> unat Mlw \<and> Mlw \<le> effective_long_term_median n bc \<and>
    unat r * 12 div (unat Mlw * unat Mlw) \<le> unat f0"
proof -
  let ?w = "long_term_weights (m_db bc)"
  have N: "rm_N (cache_rm bc) = int n" "rm_holds (cache_rm bc) (last_values n ?w)" using assms(4) by (simp_all add: cache_current_def)
  obtain rm where rm: "rm_insert_all (replicate g 0) (cache_rm bc) = Some rm" "rm_holds rm (last_values n (?w @ replicate g 0))"
    using insert_all_holds [OF assms(2) N] by blast
  have ne: "last_values n (?w @ replicate g 0) \<noteq> []" using assms(2,3) by (cases "m_db bc") (simp_all add: last_values_def)
  then have sz: "rm_size rm \<noteq> 0" using rm(2) by (auto simp: rm_holds_def rm_size_def)
  define Mlw where "Mlw = max (rm_median rm) 300000"
  have "rm_median rm \<le> median (last_values n ?w)"
    using median_zero_blocks [OF assms(2), of ?w g] assms(3) median_holds [OF rm(2) ne] by simp
  then have le: "Mlw \<le> effective_long_term_median n bc" by (auto simp: Mlw_def effective_long_term_median_def max_def)
  obtain ws where ws: "get_last_n_blocks_weights (100 - g) bc = Some ws" using last_weights_some [OF assms(3), of "100 - g"] assms(5) by auto
  define Mnw where "Mnw = min (max (median (ws @ replicate g 0)) Mlw) (50 * Mlw)"
  have M: "300000 \<le> unat Mlw" "unat Mlw < 2 ^ 31" using le assms(6) by (simp_all add: Mlw_def unat_maximum word_le_nat_alt)
  have "unat (50 * Mlw) = 50 * unat Mlw" using M(2) by (subst unat_times_exact) simp_all
  then have "unat Mlw \<le> unat Mnw" "unat Mnw \<le> 50 * unat Mlw" by (auto simp: Mnw_def unat_minimum unat_maximum)
  moreover have "unat r \<le> 42857142857143" using base_block_reward_initial by (simp add: r_def not_le)
  ultimately obtain f0 f1 f2 f3 where f: "estimate_2021_scaling r Mnw Mlw = Some [f0, f1, f2, f3]" "f0 \<le> f1" "f1 \<le> f2" "f2 \<le> f3"
    "unat r * 12 div (unat Mlw * unat Mlw) \<le> unat f0" using estimate_levels [OF _ M] by blast
  have "get_dynamic_base_fee_estimate_2021_scaling version g bc = Inr [f0, f1, f2, f3]"
    unfolding get_dynamic_base_fee_estimate_2021_scaling_def Let_def reward_of_light_tx tip_coins_def [symmetric] r_def [symmetric]
      CRYPTONOTE_BLOCK_GRANTED_FULL_REWARD_ZONE_V5_def CRYPTONOTE_REWARD_BLOCKS_WINDOW_def
    using assms(5) rm(1) ws sz f(1) by (simp add: Mnw_def Mlw_def)
  then show ?thesis using f M le by metis
qed

text \<open>C27: rounding an amount up through its decimal text gives the least number not below it that has
  at most the requested number of significant digits; when that number does not fit 64 bits, or no
  digit is requested, the function throws.\<close>
theorem round_money_up_least:
  "round_money_up amount sd =
    (if sd = 0 then None
     else let r = LEAST m. unat amount \<le> m \<and> has_significant_digits sd m in if r < 2 ^ 64 then Some (of_nat r) else None)"
  by (cases "sd = 0") (simp_all add: round_money_up_value, simp add: round_money_up_def)

lemma updated_state:
  assumes "block_tree V" "0 < n" "cache_inv V n bc" "m_db bc \<noteq> []" "15 \<le> hf" "update_next_cumulative_weight_limit hf bc = Some bc'"
    and "unat (effective_long_term_median n bc) < 2 ^ 31"
  shows "m_db bc' = m_db bc" "effective_long_term_median n bc' = effective_long_term_median n bc" "cache_current n bc'"
    "max 300000 (min (unat (m_current_block_cumul_weight_limit bc') div 2) (unat (m_long_term_effective_median_block_weight bc'))) =
      unat (effective_long_term_median n bc)"
proof -
  let ?m = "effective_long_term_median n bc"
  have "10 \<le> hf" using assms(5) by (simp add: word_le_nat_alt)
  then have u: "m_db bc' = m_db bc" "cache_current n bc'" "m_long_term_effective_median_block_weight bc' = ?m"
    "m_current_block_cumul_weight_limit bc' = limit_median hf ?m (median (map bi_weight (last_values 100 (m_db bc)))) * 2"
    using update_limit [OF assms(1-3), of hf] assms(4,6) by auto
  then show "m_db bc' = m_db bc" "cache_current n bc'" by simp_all
  show "effective_long_term_median n bc' = ?m" using u(1) by (simp add: effective_long_term_median_def)
  have m: "300000 \<le> ?m" by (simp add: effective_long_term_median_def)
  have "unat ?m < 2 ^ 57" using assms(7) by simp
  from limit_median_bounds [OF assms(5) this m, of "median (map bi_weight (last_values 100 (m_db bc)))", folded u(4)]
  show "max 300000 (min (unat (m_current_block_cumul_weight_limit bc') div 2) (unat (m_long_term_effective_median_block_weight bc'))) = unat ?m"
    using m by (auto simp: u(3) word_le_nat_alt)
qed

lemma enough_fee:
  assumes "fee_per_byte_of bc \<le> max 1 f" "101 \<le> unat w" "unat w * f \<le> unat fee"
  shows "check_fee version w fee bc = Some True"
proof -
  define a where "a = fee_per_byte_of bc div 100"
  have "100 * a \<le> f" using assms(1) by (cases "fee_per_byte_of bc < 100") (auto simp: a_def)
  then have "unat w * (100 * a) \<le> unat w * f" by (rule mult_le_mono2)
  then have wa: "100 * (unat w * a) \<le> unat fee" using assms(3) by linarith
  then have "unat w * a < 2 ^ 63" using unat_u64_lt [of fee] by (simp del: unat_u64_lt)
  moreover have "(unat w * a + 9999) div 10000 * 10000 \<le> unat fee"
  proof (cases "a = 0")
    case False
    then have "101 * 1 \<le> unat w * a" using assms(2) by (intro mult_le_mono) auto
    then have "unat w * a + 9999 \<le> unat fee" using wa by linarith
    then show ?thesis using div_times_less_eq_dividend le_trans by blast
  qed simp
  ultimately show ?thesis using check_fee_nat [of w bc version fee, folded a_def] by (auto simp: Let_def)
qed

text \<open>C11: the fee levels a node proposes are enough for the node itself. In every state reached and brought
  up to date under the 2021 scaling, with an effective long-term median below \<open>2^31\<close> and fewer than
  a hundred grace blocks, the estimate returns four levels in ascending order, and a transaction of
  weight at least 101 that pays the lowest of them per unit of weight passes \<open>check_fee\<close>.\<close>
theorem estimated_fee_accepted:
  assumes "block_tree V" "0 < n" "weight_start V n bc0" "reaches (weight_step V) bc0 bc" "m_db bc \<noteq> []" "15 \<le> hf"
    and "update_next_cumulative_weight_limit hf bc = Some bc'" "unat (effective_long_term_median n bc) < 2 ^ 31" "g < 100"
  shows "\<exists>f0 f1 f2 f3. get_dynamic_base_fee_estimate_2021_scaling version g bc' = Inr [f0, f1, f2, f3] \<and>
    f0 \<le> f1 \<and> f1 \<le> f2 \<and> f2 \<le> f3 \<and>
    (\<forall>w fee. 101 \<le> unat w \<longrightarrow> unat w * unat f0 \<le> unat fee \<longrightarrow> check_fee version w fee bc' = Some True)"
proof -
  note u = updated_state [OF assms(1,2) reachable_inv [OF assms(1-4)] assms(5-8)]
  define r where "r = unat (if MONEY_SUPPLY \<le> tip_coins bc' then 0 else base_block_reward (tip_coins bc'))"
  define m where "m = unat (effective_long_term_median n bc)"
  obtain Mlw f0 f1 f2 f3 where f: "get_dynamic_base_fee_estimate_2021_scaling version g bc' = Inr [f0, f1, f2, f3]"
    "f0 \<le> f1" "f1 \<le> f2" "f2 \<le> f3" "300000 \<le> unat Mlw" "Mlw \<le> effective_long_term_median n bc"
    "r * 12 div (unat Mlw * unat Mlw) \<le> unat f0"
    using estimate_of_state [OF assms(2) _ u(3) assms(9), of version, folded r_def] assms(5,8) u(1,2) by metis
  then have "unat Mlw \<le> m" by (simp add: m_def word_le_nat_alt)
  have "r * 12 div m div m = r * 12 div (m * m)" by (simp add: div_mult2_eq)
  also have "\<dots> \<le> r * 12 div (unat Mlw * unat Mlw)" using f(5) \<open>unat Mlw \<le> m\<close> by (intro div_le_mono2 mult_le_mono) auto
  finally have "fee_per_byte_of bc' \<le> max 1 (unat f0)" using f(7) u(4) unfolding fee_per_byte_of_def Let_def r_def [symmetric] m_def [symmetric] by simp
  then show ?thesis using enough_fee f(1-4) by blast
qed

text \<open>C34: once the fee per byte has fallen below 100, the division by 100 makes it 0: a transaction of any
  weight that pays nothing passes the fee check.\<close>
theorem free_below_hundred:
  assumes "fee_per_byte_of bc < 100"
  shows "check_fee version w 0 bc = Some True"
  using assms check_fee_nat [of w bc version 0] by simp

lemma estimate_full_grace:
  assumes "0 < n" "m_db bc \<noteq> []" "cache_current n bc"
  shows "get_dynamic_base_fee_estimate_2021_scaling version 100 bc = Inl Height_not_in_blockchain"
proof -
  have N: "rm_N (cache_rm bc) = int n" "rm_holds (cache_rm bc) (last_values n (long_term_weights (m_db bc)))"
    using assms(3) by (simp_all add: cache_current_def)
  obtain rm where "rm_insert_all (replicate 100 0) (cache_rm bc) = Some rm" using insert_all_holds [OF assms(1) N] by blast
  moreover have "get_last_n_blocks_weights 0 bc = None"
    using assms(2) by (simp add: get_last_n_blocks_weights_def get_block_info_64bit_fields_def)
  ultimately show ?thesis by (simp add: get_dynamic_base_fee_estimate_2021_scaling_def Let_def CRYPTONOTE_REWARD_BLOCKS_WINDOW_def)
qed

text \<open>C35: the outcome of the fee estimate, in every reachable state with blocks whose weight limit is up to date for
  a version from 15 on, with an effective long-term median below \<open>2 ^ 31\<close>: fewer than a
  hundred grace blocks give fee levels, more than a hundred are refused by the range check, and exactly
  a hundred, which the range check admits, make the database throw.\<close>
theorem estimate_outcome:
  assumes "block_tree V" "0 < n" "weight_start V n bc0" "reaches (weight_step V) bc0 bc" "m_db bc \<noteq> []" "15 \<le> hf"
    and "update_next_cumulative_weight_limit hf bc = Some bc'" "unat (effective_long_term_median n bc) < 2 ^ 31"
  shows "((\<exists>fees. get_dynamic_base_fee_estimate_2021_scaling version g bc' = Inr fees) \<longleftrightarrow> g < 100) \<and>
    (get_dynamic_base_fee_estimate_2021_scaling version g bc' = Inl Height_not_in_blockchain \<longleftrightarrow> g = 100) \<and>
    (get_dynamic_base_fee_estimate_2021_scaling version g bc' = Inl Grace_blocks_invalid \<longleftrightarrow> 100 < g)"
proof -
  note u = updated_state [OF assms(1,2) reachable_inv [OF assms(1-4)] assms(5-8)]
  have ne: "m_db bc' \<noteq> []" using u(1) assms(5) by simp
  consider "g < 100" | "g = 100" | "100 < g" by linarith
  then show ?thesis
  proof cases
    case 1
    then show ?thesis using estimate_of_state [OF assms(2) ne u(3), of g version] assms(8) u(2) by auto
  next
    case 2
    then show ?thesis using estimate_full_grace [OF assms(2) ne u(3), of version] by simp
  next
    case 3
    then show ?thesis by (simp add: get_dynamic_base_fee_estimate_2021_scaling_def CRYPTONOTE_REWARD_BLOCKS_WINDOW_def)
  qed
qed

subsection \<open>Witnesses\<close>

theorem estimated_fee_accepted_witness:
  "\<exists>bc' f0 f1 f2 f3. update_next_cumulative_weight_limit 16 (ex_node (take 2 ex_chain)) = Some bc' \<and>
    get_dynamic_base_fee_estimate_2021_scaling 16 10 bc' = Inr [f0, f1, f2, f3] \<and> f0 \<le> f1 \<and> f1 \<le> f2 \<and> f2 \<le> f3 \<and>
    (\<forall>w fee. 101 \<le> unat w \<longrightarrow> unat w * unat f0 \<le> unat fee \<longrightarrow> check_fee 16 w fee bc' = Some True)"
proof -
  have ne: "m_db (ex_node (take 2 ex_chain)) \<noteq> []" by (simp add: ex_db ex_chains)
  obtain bc' where u: "update_next_cumulative_weight_limit 16 (ex_node (take 2 ex_chain)) = Some bc'"
    using update_limit [OF ex_tree_ok _ reachable_inv [OF ex_reachable], of 16] ne by auto
  show ?thesis
    using estimated_fee_accepted [OF ex_reachable ne _ u, of 10 16] u by (simp add: ex_effective)
qed

text \<open>A chain in the seventh halving period.\<close>

definition ex_late :: blockchain where
  "ex_late = ex_node [(ex_block 0 80 80)\<lparr>bi_coins := 17720000000000000000\<rparr>]"

theorem free_below_hundred_witness: "check_fee 16 2000 0 ex_late = Some True"
proof (rule free_below_hundred)
  have "base_block_reward 17720000000000000000 = 669642857142" by code_simp
  then show "fee_per_byte_of ex_late < 100"
    by (simp add: fee_per_byte_of_def ex_late_def tip_coins_def ex_db ex_node_def blockchain_new_def MONEY_SUPPLY_def)
qed

theorem estimate_outcome_witness:
  "\<exists>bc'. update_next_cumulative_weight_limit 16 (ex_node (take 2 ex_chain)) = Some bc' \<and>
    (\<exists>fees. get_dynamic_base_fee_estimate_2021_scaling 16 99 bc' = Inr fees) \<and>
    get_dynamic_base_fee_estimate_2021_scaling 16 100 bc' = Inl Height_not_in_blockchain \<and>
    get_dynamic_base_fee_estimate_2021_scaling 16 101 bc' = Inl Grace_blocks_invalid"
proof -
  obtain bc' where u: "update_next_cumulative_weight_limit 16 (ex_node (take 2 ex_chain)) = Some bc'"
    using update_limit [OF ex_tree_ok _ reachable_inv [OF ex_reachable], of 16] by (auto simp: ex_db ex_chains)
  have "m_db (ex_node (take 2 ex_chain)) \<noteq> []" by (simp add: ex_db ex_chains)
  note outcome = estimate_outcome [OF ex_reachable this _ u, where version = 16]
  show ?thesis using outcome [of 99] outcome [of 100] outcome [of 101] u by (simp add: ex_effective)
qed

end
