(* ===== verification/Addresses.thy ===== *)
theory Addresses
  imports Base58 Hex Checkpoints
begin

section \<open>Addresses (\<open>src/cryptonote_basic/cryptonote_basic_impl.cpp\<close>)\<close>

text \<open>
  The texts of standard, integrated, sub- and post-quantum addresses, over \<open>Base58\<close> and \<open>Hex\<close>. A reader
  returns the \<open>bool\<close> of the source and the object it was given, with what it wrote into it before
  failing; \<open>None\<close> is the exception for an invalid network type. The test of curve points, the address
  published at a domain, and the size and layout of \<open>public_address_outer_blob\<close> (the old format reads
  raw memory of a C++ object) are arguments.
\<close>

subsection \<open>Configuration (\<open>src/cryptonote_config.h\<close>)\<close>

record config_t =
  CRYPTONOTE_PUBLIC_ADDRESS_BASE58_PREFIX :: u64
  CRYPTONOTE_PUBLIC_INTEGRATED_ADDRESS_BASE58_PREFIX :: u64
  CRYPTONOTE_PUBLIC_SUBADDRESS_BASE58_PREFIX :: u64

definition mainnet_config :: config_t where
  "mainnet_config = \<lparr>CRYPTONOTE_PUBLIC_ADDRESS_BASE58_PREFIX = 60,
     CRYPTONOTE_PUBLIC_INTEGRATED_ADDRESS_BASE58_PREFIX = 61, CRYPTONOTE_PUBLIC_SUBADDRESS_BASE58_PREFIX = 62\<rparr>"

definition testnet_config :: config_t where
  "testnet_config = \<lparr>CRYPTONOTE_PUBLIC_ADDRESS_BASE58_PREFIX = 53,
     CRYPTONOTE_PUBLIC_INTEGRATED_ADDRESS_BASE58_PREFIX = 54, CRYPTONOTE_PUBLIC_SUBADDRESS_BASE58_PREFIX = 63\<rparr>"

definition stagenet_config :: config_t where
  "stagenet_config = \<lparr>CRYPTONOTE_PUBLIC_ADDRESS_BASE58_PREFIX = 24,
     CRYPTONOTE_PUBLIC_INTEGRATED_ADDRESS_BASE58_PREFIX = 25, CRYPTONOTE_PUBLIC_SUBADDRESS_BASE58_PREFIX = 36\<rparr>"

definition get_config :: "network_type \<Rightarrow> config_t option" where
  "get_config nettype =
     (case nettype of MAINNET \<Rightarrow> Some mainnet_config | TESTNET \<Rightarrow> Some testnet_config
      | STAGENET \<Rightarrow> Some stagenet_config | FAKECHAIN \<Rightarrow> Some mainnet_config | UNDEFINED \<Rightarrow> None)"

definition CRYPTONOTE_PQ_ADDRESS_PREFIX :: u64 where "CRYPTONOTE_PQ_ADDRESS_PREFIX = 62"
definition CRYPTONOTE_PQ_ADDRESS_MARKER :: u8 where "CRYPTONOTE_PQ_ADDRESS_MARKER = 0x33"
definition CRYPTONOTE_PQ_SUBADDRESS_MARKER :: u8 where "CRYPTONOTE_PQ_SUBADDRESS_MARKER = 0x35"
definition CRYPTONOTE_PQ_ADDRESS_AUTH_VER :: u8 where "CRYPTONOTE_PQ_ADDRESS_AUTH_VER = 1"
definition CRYPTONOTE_PUBLIC_ADDRESS_TEXTBLOB_VER :: u8 where "CRYPTONOTE_PUBLIC_ADDRESS_TEXTBLOB_VER = 0"
definition ML_KEM_768_PUBLIC_KEY_BYTES :: nat where "ML_KEM_768_PUBLIC_KEY_BYTES = 1184"

definition PQ_ADDRESS_PAYLOAD_SIZE :: nat where
  "PQ_ADDRESS_PAYLOAD_SIZE = 1 + 1 + 2 * 32 + ML_KEM_768_PUBLIC_KEY_BYTES + 32"

subsection \<open>Addresses and their binary form\<close>

record account_public_address =
  m_spend_public_key :: bytes
  m_view_public_key :: bytes
  pq_kyber_pk :: "bytes option"
  pq_auth_commit :: "bytes option"
  pq_auth_ver :: u8

definition is_pq :: "account_public_address \<Rightarrow> bool" where
  "is_pq adr = (pq_kyber_pk adr \<noteq> None)"

definition new_address :: account_public_address where
  "new_address = \<lparr>m_spend_public_key = replicate 32 0, m_view_public_key = replicate 32 0, pq_kyber_pk = None,
     pq_auth_commit = None, pq_auth_ver = 0\<rparr>"

record address_parse_info =
  address :: account_public_address
  is_subaddress :: bool
  has_payment_id :: bool
  payment_id :: bytes

text \<open>The archive copies what is left of the input into the buffer and fails if it is too short; reading an
  object fails as well if input is left over.\<close>

definition serialize_blob :: "bytes \<Rightarrow> nat \<Rightarrow> bytes \<Rightarrow> bool \<times> bytes \<times> bytes" where
  "serialize_blob buf len input =
     (let actual = min len (length input)
      in (len = actual, take actual input @ drop actual buf, drop actual input))"

definition read_address :: "account_public_address \<Rightarrow> bytes \<Rightarrow> bool \<times> account_public_address \<times> bytes" where
  "read_address adr input =
     (let (good, key, input) = serialize_blob (m_spend_public_key adr) 32 input;
          adr = adr\<lparr>m_spend_public_key := key\<rparr>
      in if \<not> good then (False, adr, input)
         else let (good, key, input) = serialize_blob (m_view_public_key adr) 32 input
              in (good, adr\<lparr>m_view_public_key := key\<rparr>, input))"

definition parse_address :: "bytes \<Rightarrow> account_public_address \<Rightarrow> bool \<times> account_public_address" where
  "parse_address data adr = (let (good, adr, rest) = read_address adr data in (good \<and> rest = [], adr))"

definition parse_integrated :: "bytes \<Rightarrow> (account_public_address \<times> bytes) option" where
  "parse_integrated data =
     (let (good, adr, rest) = read_address new_address data
      in if \<not> good then None
         else let (good, pid, rest) = serialize_blob (replicate 8 0) 8 rest
              in if good \<and> rest = [] then Some (adr, pid) else None)"

subsection \<open>Writing\<close>

definition get_account_address_as_str :: "network_type \<Rightarrow> bool \<Rightarrow> account_public_address \<Rightarrow> bytes option" where
  "get_account_address_as_str nettype subaddress adr =
     (case get_config nettype of None \<Rightarrow> None | Some c \<Rightarrow>
        let address_prefix = (if subaddress then CRYPTONOTE_PUBLIC_SUBADDRESS_BASE58_PREFIX c
                              else CRYPTONOTE_PUBLIC_ADDRESS_BASE58_PREFIX c)
        in encode_addr address_prefix (m_spend_public_key adr @ m_view_public_key adr))"

definition get_account_integrated_address_as_str :: "network_type \<Rightarrow> account_public_address \<Rightarrow> bytes \<Rightarrow> bytes option" where
  "get_account_integrated_address_as_str nettype adr pid =
     (case get_config nettype of None \<Rightarrow> None | Some c \<Rightarrow>
        encode_addr (CRYPTONOTE_PUBLIC_INTEGRATED_ADDRESS_BASE58_PREFIX c)
          (m_spend_public_key adr @ m_view_public_key adr @ pid))"

definition get_account_address_as_str_pq :: "account_public_address \<Rightarrow> bool \<Rightarrow> bytes option" where
  "get_account_address_as_str_pq adr subaddress =
     (case (pq_kyber_pk adr, pq_auth_commit adr) of
        (Some kyber_pk, Some auth_commit) \<Rightarrow>
          encode_addr CRYPTONOTE_PQ_ADDRESS_PREFIX
            ((if subaddress then CRYPTONOTE_PQ_SUBADDRESS_MARKER else CRYPTONOTE_PQ_ADDRESS_MARKER) # pq_auth_ver adr #
             m_spend_public_key adr @ m_view_public_key adr @ kyber_pk @ auth_commit)
      | _ \<Rightarrow> Some [])"

subsection \<open>Reading\<close>

definition get_account_address_from_str_pq ::
  "(bytes \<Rightarrow> bool) \<Rightarrow> bytes \<Rightarrow> (account_public_address \<times> bool) option" where
  "get_account_address_from_str_pq check_key str =
     (case decode_addr str of None \<Rightarrow> None | Some (prefix, data) \<Rightarrow>
        if prefix \<noteq> CRYPTONOTE_PQ_ADDRESS_PREFIX then None
        else if length data \<noteq> PQ_ADDRESS_PAYLOAD_SIZE then None
        else let marker = data ! 0; auth_ver = data ! 1; p = drop 2 data;
                 spend = take 32 p; p = drop 32 p;
                 view = take 32 p; p = drop 32 p;
                 kpk = take ML_KEM_768_PUBLIC_KEY_BYTES p; p = drop ML_KEM_768_PUBLIC_KEY_BYTES p;
                 commit = take 32 p
             in if marker \<noteq> CRYPTONOTE_PQ_ADDRESS_MARKER \<and> marker \<noteq> CRYPTONOTE_PQ_SUBADDRESS_MARKER then None
                else if auth_ver \<noteq> CRYPTONOTE_PQ_ADDRESS_AUTH_VER then None
                else if \<not> check_key spend \<or> \<not> check_key view then None
                else Some (new_address\<lparr>pq_auth_ver := auth_ver, m_spend_public_key := spend,
                             m_view_public_key := view, pq_kyber_pk := Some kpk, pq_auth_commit := Some commit\<rparr>,
                           marker = CRYPTONOTE_PQ_SUBADDRESS_MARKER))"

definition read_payload :: "(bytes \<Rightarrow> bool) \<Rightarrow> bytes \<Rightarrow> address_parse_info \<Rightarrow> bool \<times> address_parse_info" where
  "read_payload check_key data info =
     (let (good, info) =
            (if has_payment_id info
             then case parse_integrated data of None \<Rightarrow> (False, info)
                  | Some (adr, pid) \<Rightarrow> (True, info\<lparr>address := adr, payment_id := pid\<rparr>)
             else let (good, adr) = parse_address data (address info) in (good, info\<lparr>address := adr\<rparr>))
      in (good \<and> check_key (m_spend_public_key (address info)) \<and> check_key (m_view_public_key (address info)), info))"

definition get_account_address_checksum :: "bytes \<Rightarrow> u8" where
  "get_account_address_checksum bl = sum_list (butlast bl)"

definition read_old_format ::
  "nat \<Rightarrow> (bytes \<Rightarrow> account_public_address) \<Rightarrow> bytes \<Rightarrow> address_parse_info \<Rightarrow> bool \<times> address_parse_info" where
  "read_old_format blob_size m_address str info =
     (case from_hex_to_string str of None \<Rightarrow> (False, info) | Some buff \<Rightarrow>
        if length buff \<noteq> blob_size then (False, info)
        else if CRYPTONOTE_PUBLIC_ADDRESS_TEXTBLOB_VER < hd buff then (False, info)
        else if last buff \<noteq> get_account_address_checksum buff then (False, info)
        else (True, info\<lparr>address := m_address (butlast (tl buff)), is_subaddress := False, has_payment_id := False\<rparr>))"

definition get_account_address_from_str ::
  "(bytes \<Rightarrow> bool) \<Rightarrow> nat \<Rightarrow> (bytes \<Rightarrow> account_public_address) \<Rightarrow> address_parse_info \<Rightarrow> network_type \<Rightarrow> bytes \<Rightarrow>
   (bool \<times> address_parse_info) option" where
  "get_account_address_from_str check_key blob_size m_address info nettype str =
     (case get_config nettype of None \<Rightarrow> None | Some c \<Rightarrow> Some (
        if 2 * blob_size \<noteq> length str
        then case decode_addr str of None \<Rightarrow> (False, info) | Some (prefix, data) \<Rightarrow>
          if CRYPTONOTE_PUBLIC_INTEGRATED_ADDRESS_BASE58_PREFIX c = prefix
          then read_payload check_key data (info\<lparr>is_subaddress := False, has_payment_id := True\<rparr>)
          else if CRYPTONOTE_PUBLIC_ADDRESS_BASE58_PREFIX c = prefix
          then read_payload check_key data (info\<lparr>is_subaddress := False, has_payment_id := False\<rparr>)
          else if CRYPTONOTE_PUBLIC_SUBADDRESS_BASE58_PREFIX c = prefix
          then if length data = PQ_ADDRESS_PAYLOAD_SIZE
               then case get_account_address_from_str_pq check_key str of None \<Rightarrow> (False, info)
                    | Some (adr, pq_is_subaddress) \<Rightarrow>
                        (True, info\<lparr>address := adr, is_subaddress := pq_is_subaddress, has_payment_id := False\<rparr>)
               else if length data \<noteq> 2 * 32 then (False, info)
               else read_payload check_key data (info\<lparr>is_subaddress := True, has_payment_id := False\<rparr>)
          else (False, info)
        else read_old_format blob_size m_address str info))"

definition get_account_address_from_str_or_url ::
  "(bytes \<Rightarrow> bool) \<Rightarrow> nat \<Rightarrow> (bytes \<Rightarrow> account_public_address) \<Rightarrow> (bytes \<Rightarrow> bytes) \<Rightarrow> address_parse_info \<Rightarrow> network_type \<Rightarrow>
   bytes \<Rightarrow> (bool \<times> address_parse_info) option" where
  "get_account_address_from_str_or_url check_key blob_size m_address dns info nettype str_or_url =
     (case get_account_address_from_str check_key blob_size m_address info nettype str_or_url of
        None \<Rightarrow> None
      | Some (True, info) \<Rightarrow> Some (True, info)
      | Some (False, info) \<Rightarrow>
          let address_str = dns str_or_url
          in if address_str = [] then Some (False, info)
             else get_account_address_from_str check_key blob_size m_address info nettype address_str)"

subsection \<open>Texts and their addresses\<close>

text \<open>The text of an address is written by the writer for its kind. A reader can return an address if its keys
  have their sizes and are points of the curve; the fields that the reader does not set keep the values
  of the object it is given.\<close>

definition address_text :: "network_type \<Rightarrow> address_parse_info \<Rightarrow> bytes option" where
  "address_text nettype info =
     (if is_pq (address info) then get_account_address_as_str_pq (address info) (is_subaddress info)
      else if has_payment_id info
      then get_account_integrated_address_as_str nettype (address info) (payment_id info)
      else get_account_address_as_str nettype (is_subaddress info) (address info))"

definition fresh_info :: "address_parse_info \<Rightarrow> bool" where
  "fresh_info info \<longleftrightarrow> pq_kyber_pk (address info) = None \<and> pq_auth_commit (address info) = None \<and>
     pq_auth_ver (address info) = 0 \<and> length (m_spend_public_key (address info)) = 32 \<and>
     length (m_view_public_key (address info)) = 32"

definition valid_keys :: "(bytes \<Rightarrow> bool) \<Rightarrow> account_public_address \<Rightarrow> bool" where
  "valid_keys check_key adr \<longleftrightarrow> length (m_spend_public_key adr) = 32 \<and> length (m_view_public_key adr) = 32 \<and>
     check_key (m_spend_public_key adr) \<and> check_key (m_view_public_key adr)"

definition valid_pq :: "account_public_address \<Rightarrow> bool" where
  "valid_pq adr \<longleftrightarrow> (\<exists>k c. pq_kyber_pk adr = Some k \<and> length k = 1184 \<and> pq_auth_commit adr = Some c \<and> length c = 32 \<and>
     pq_auth_ver adr = 1)"

definition valid_info :: "(bytes \<Rightarrow> bool) \<Rightarrow> network_type \<Rightarrow> address_parse_info \<Rightarrow> bool" where
  "valid_info check_key nettype info \<longleftrightarrow> valid_keys check_key (address info) \<and>
     (if is_pq (address info)
      then valid_pq (address info) \<and> \<not> has_payment_id info \<and> nettype \<in> {MAINNET, FAKECHAIN}
      else pq_auth_commit (address info) = None \<and> pq_auth_ver (address info) = 0 \<and>
        (has_payment_id info \<longrightarrow> \<not> is_subaddress info \<and> length (payment_id info) = 8))"

lemmas config_defs = mainnet_config_def testnet_config_def stagenet_config_def
lemmas pq_defs = CRYPTONOTE_PQ_ADDRESS_PREFIX_def CRYPTONOTE_PQ_ADDRESS_MARKER_def CRYPTONOTE_PQ_SUBADDRESS_MARKER_def
  CRYPTONOTE_PQ_ADDRESS_AUTH_VER_def ML_KEM_768_PUBLIC_KEY_BYTES_def PQ_ADDRESS_PAYLOAD_SIZE_def

text \<open>What reading the keys does to the object.\<close>

lemma parse_address_iff:
  assumes "length (m_spend_public_key adr0) = 32" "length (m_view_public_key adr0) = 32"
  shows "parse_address data adr0 = (True, adr) \<longleftrightarrow>
    data = m_spend_public_key adr @ m_view_public_key adr \<and> length (m_spend_public_key adr) = 32 \<and>
    length (m_view_public_key adr) = 32 \<and>
    pq_kyber_pk adr = pq_kyber_pk adr0 \<and> pq_auth_commit adr = pq_auth_commit adr0 \<and> pq_auth_ver adr = pq_auth_ver adr0"
proof (cases "length data = 32 + 32")
  case True
  then obtain s v where d: "data = s @ v" "length s = 32" "length v = 32" by (rule split_at)
  then have "parse_address data adr0 = (True, adr0\<lparr>m_spend_public_key := s, m_view_public_key := v\<rparr>)"
    using assms by (simp add: parse_address_def read_address_def serialize_blob_def)
  then show ?thesis using d by (cases adr; cases adr0) auto
next
  case False
  then have "\<not> fst (parse_address data adr0)"
    by (auto simp: parse_address_def read_address_def serialize_blob_def Let_def min_def split: if_splits)
  then show ?thesis using False by auto
qed

lemma parse_integrated_iff:
  "parse_integrated data = Some (adr, pid) \<longleftrightarrow>
    data = m_spend_public_key adr @ m_view_public_key adr @ pid \<and> length (m_spend_public_key adr) = 32 \<and>
    length (m_view_public_key adr) = 32 \<and> length pid = 8 \<and>
    pq_kyber_pk adr = None \<and> pq_auth_commit adr = None \<and> pq_auth_ver adr = 0"
proof (cases "length data = 32 + (32 + 8)")
  case True
  then obtain s r where d: "data = s @ r" "length s = 32" "length r = 32 + 8" by (rule split_at)
  obtain v p where r: "r = v @ p" "length v = 32" "length p = 8" using d(3) by (rule split_at)
  have "parse_integrated data = Some (new_address\<lparr>m_spend_public_key := s, m_view_public_key := v\<rparr>, p)"
    using d(1,2) r by (simp add: parse_integrated_def read_address_def serialize_blob_def new_address_def)
  then show ?thesis unfolding d(1) r(1) using d(2) r(2,3) by (cases adr) (auto simp: new_address_def)
next
  case False
  then have "parse_integrated data = None"
    by (auto simp: parse_integrated_def read_address_def serialize_blob_def Let_def min_def split: if_splits)
  then show ?thesis using False by auto
qed

text \<open>The post-quantum reader inverts its writer.\<close>

lemma from_str_pq_iff:
  "get_account_address_from_str_pq check_key str = Some (adr, sub) \<longleftrightarrow>
    valid_keys check_key adr \<and> valid_pq adr \<and> get_account_address_as_str_pq adr sub = Some str"
  (is "?read \<longleftrightarrow> ?written")
proof
  assume ?read
  then obtain data where d: "decode_addr str = Some (62, data)" "length data = 1 + (1 + (32 + (32 + (1184 + 32))))"
    by (auto simp: get_account_address_from_str_pq_def pq_defs split: option.splits if_splits)
  obtain m r0 where m: "data = m @ r0" "length m = 1" "length r0 = 1 + (32 + (32 + (1184 + 32)))" using d(2) by (rule split_at)
  obtain a r1 where a: "r0 = a @ r1" "length a = 1" "length r1 = 32 + (32 + (1184 + 32))" using m(3) by (rule split_at)
  obtain s r2 where s: "r1 = s @ r2" "length s = 32" "length r2 = 32 + (1184 + 32)" using a(3) by (rule split_at)
  obtain v r3 where v: "r2 = v @ r3" "length v = 32" "length r3 = 1184 + 32" using s(3) by (rule split_at)
  obtain k c where k: "r3 = k @ c" "length k = 1184" "length c = 32" using v(3) by (rule split_at)
  obtain m1 where m1: "m = [m1]" using m(2) by (cases m) auto
  obtain a1 where a1: "a = [a1]" using a(2) by (cases a) auto
  have data: "data = m1 # a1 # s @ v @ k @ c" using m a s v k m1 a1 by simp
  have "encode_addr 62 data = Some str" using encode_decode_addr [OF d(1)] data by simp
  then show ?written
    using \<open>?read\<close> d(1) s(2) v(2) k(2,3)
    by (auto simp: data get_account_address_from_str_pq_def pq_defs Let_def valid_keys_def valid_pq_def new_address_def
        get_account_address_as_str_pq_def split: if_splits)
next
  assume ?written
  then obtain k c where k: "pq_kyber_pk adr = Some k" "length k = 1184" "pq_auth_commit adr = Some c" "length c = 32"
      "pq_auth_ver adr = 1"
    and w: "encode_addr 62 ((if sub then 53 else 51) # 1 # m_spend_public_key adr @ m_view_public_key adr @ k @ c) = Some str"
    and keys: "valid_keys check_key adr"
    by (auto simp: valid_pq_def get_account_address_as_str_pq_def pq_defs cong: if_cong)
  show ?read using decode_addr_encode [OF w] k keys
    by (cases adr) (auto simp: get_account_address_from_str_pq_def pq_defs Let_def valid_keys_def new_address_def)
qed

text \<open>The kinds of a text, by its tag.\<close>

lemma get_config_tags:
  assumes "get_config nettype = Some c"
  shows "distinct [CRYPTONOTE_PUBLIC_ADDRESS_BASE58_PREFIX c, CRYPTONOTE_PUBLIC_INTEGRATED_ADDRESS_BASE58_PREFIX c,
      CRYPTONOTE_PUBLIC_SUBADDRESS_BASE58_PREFIX c]"
    and "CRYPTONOTE_PUBLIC_SUBADDRESS_BASE58_PREFIX c = 62 \<longleftrightarrow> nettype \<in> {MAINNET, FAKECHAIN}"
  using assms by (auto simp: get_config_def config_defs split: network_type.splits)

lemma read_keys_iff:
  assumes "fresh_info info" "\<not> has_payment_id info"
  shows "read_payload check_key data info = (True, info') \<longleftrightarrow>
    data = m_spend_public_key (address info') @ m_view_public_key (address info') \<and> valid_keys check_key (address info') \<and>
    pq_kyber_pk (address info') = None \<and> pq_auth_commit (address info') = None \<and> pq_auth_ver (address info') = 0 \<and>
    is_subaddress info' = is_subaddress info \<and> \<not> has_payment_id info' \<and> payment_id info' = payment_id info"
proof -
  have k: "length (m_spend_public_key (address info)) = 32" "length (m_view_public_key (address info)) = 32"
    using assms(1) by (simp_all add: fresh_info_def)
  have "read_payload check_key data info = (True, info') \<longleftrightarrow>
      parse_address data (address info) = (True, address info') \<and> check_key (m_spend_public_key (address info')) \<and>
      check_key (m_view_public_key (address info')) \<and>
      is_subaddress info' = is_subaddress info \<and> \<not> has_payment_id info' \<and> payment_id info' = payment_id info"
    using assms(2) by (cases info; cases info') (auto simp: read_payload_def split: prod.splits)
  then show ?thesis using assms(1) unfolding parse_address_iff [OF k] by (auto simp: valid_keys_def fresh_info_def)
qed

lemma read_integrated_iff:
  assumes "has_payment_id info"
  shows "read_payload check_key data info = (True, info') \<longleftrightarrow>
    data = m_spend_public_key (address info') @ m_view_public_key (address info') @ payment_id info' \<and>
    length (payment_id info') = 8 \<and> valid_keys check_key (address info') \<and>
    pq_kyber_pk (address info') = None \<and> pq_auth_commit (address info') = None \<and> pq_auth_ver (address info') = 0 \<and>
    is_subaddress info' = is_subaddress info \<and> has_payment_id info'"
proof -
  have "read_payload check_key data info = (True, info') \<longleftrightarrow>
      parse_integrated data = Some (address info', payment_id info') \<and> check_key (m_spend_public_key (address info')) \<and>
      check_key (m_view_public_key (address info')) \<and> is_subaddress info' = is_subaddress info \<and> has_payment_id info'"
    using assms by (cases info; cases info') (auto simp: read_payload_def split: option.splits prod.splits)
  then show ?thesis unfolding parse_integrated_iff by (auto simp: valid_keys_def)
qed

lemma info_eq_iff:
  fixes info info' :: address_parse_info
  shows "info' = info\<lparr>address := adr, is_subaddress := sub, has_payment_id := p\<rparr> \<longleftrightarrow>
    adr = address info' \<and> sub = is_subaddress info' \<and> p = has_payment_id info' \<and> payment_id info' = payment_id info"
  by (cases info'; cases info) auto

lemma from_str_cases:
  assumes "get_config nettype = Some c" "2 * blob_size \<noteq> length str"
  shows "get_account_address_from_str check_key blob_size m_address info nettype str = Some (True, info') \<longleftrightarrow>
    (\<exists>data. decode_addr str = Some (CRYPTONOTE_PUBLIC_INTEGRATED_ADDRESS_BASE58_PREFIX c, data) \<and>
       read_payload check_key data (info\<lparr>is_subaddress := False, has_payment_id := True\<rparr>) = (True, info')) \<or>
    (\<exists>data. decode_addr str = Some (CRYPTONOTE_PUBLIC_ADDRESS_BASE58_PREFIX c, data) \<and>
       read_payload check_key data (info\<lparr>is_subaddress := False, has_payment_id := False\<rparr>) = (True, info')) \<or>
    (\<exists>data. decode_addr str = Some (CRYPTONOTE_PUBLIC_SUBADDRESS_BASE58_PREFIX c, data) \<and> length data = 64 \<and>
       read_payload check_key data (info\<lparr>is_subaddress := True, has_payment_id := False\<rparr>) = (True, info')) \<or>
    (\<exists>adr sub. nettype \<in> {MAINNET, FAKECHAIN} \<and> get_account_address_from_str_pq check_key str = Some (adr, sub) \<and>
       info' = info\<lparr>address := adr, is_subaddress := sub, has_payment_id := False\<rparr>)"
proof -
  have pq: "\<exists>data. decode_addr str = Some (62, data) \<and> length data = 1282"
    if "get_account_address_from_str_pq check_key str = Some (adr, sub)" for adr sub
    using that by (auto simp: get_account_address_from_str_pq_def pq_defs split: option.splits if_splits)
  show ?thesis
    using get_config_tags [OF assms(1)] assms pq
    by (auto simp: get_account_address_from_str_def pq_defs split: option.splits if_splits prod.splits)
qed

lemma addr_nonempty: "data \<noteq> [] \<Longrightarrow> decode_addr addr = Some (tag, data) \<longleftrightarrow> encode_addr tag data = Some addr"
  using addr_exact by blast

lemma valid_keys_nonempty: "valid_keys check_key adr \<Longrightarrow> m_spend_public_key adr @ xs \<noteq> []"
  by (auto simp: valid_keys_def)

lemma from_str_iff:
  assumes "fresh_info info0" "2 * blob_size \<noteq> length str"
  shows "get_account_address_from_str check_key blob_size m_address info0 nettype str = Some (True, info) \<longleftrightarrow>
    valid_info check_key nettype info \<and> address_text nettype info = Some str \<and>
    (has_payment_id info \<or> payment_id info = payment_id info0)"
proof (cases "get_config nettype")
  case None
  then show ?thesis
    by (auto simp: get_account_address_from_str_def valid_info_def address_text_def get_account_address_as_str_def
        get_account_integrated_address_as_str_def get_config_def split: network_type.splits)
next
  case (Some c)
  have f: "fresh_info (info0\<lparr>is_subaddress := s, has_payment_id := p\<rparr>)" for s p
    using assms(1) by (simp add: fresh_info_def)
  let ?adr = "address info"
  let ?keys = "m_spend_public_key ?adr @ m_view_public_key ?adr"
  let ?classic = "valid_keys check_key ?adr \<and> pq_kyber_pk ?adr = None \<and> pq_auth_commit ?adr = None \<and> pq_auth_ver ?adr = 0"
  have key: "(\<exists>data. decode_addr str = Some (tag, data) \<and> P data \<and>
      read_payload check_key data (info0\<lparr>is_subaddress := s, has_payment_id := False\<rparr>) = (True, info)) \<longleftrightarrow>
      ?classic \<and> P ?keys \<and> is_subaddress info = s \<and> \<not> has_payment_id info \<and> payment_id info = payment_id info0 \<and>
      encode_addr tag ?keys = Some str" for tag s P
    using valid_keys_nonempty [of check_key ?adr "m_view_public_key ?adr"] addr_nonempty [of ?keys]
    by (auto simp: read_keys_iff [OF f])
  have int: "(\<exists>data. decode_addr str = Some (tag, data) \<and>
      read_payload check_key data (info0\<lparr>is_subaddress := False, has_payment_id := True\<rparr>) = (True, info)) \<longleftrightarrow>
      ?classic \<and> length (payment_id info) = 8 \<and> \<not> is_subaddress info \<and> has_payment_id info \<and>
      encode_addr tag (m_spend_public_key ?adr @ m_view_public_key ?adr @ payment_id info) = Some str" for tag
    using valid_keys_nonempty [of check_key ?adr "m_view_public_key ?adr @ payment_id info"]
      addr_nonempty [of "m_spend_public_key ?adr @ m_view_public_key ?adr @ payment_id info"]
    by (auto simp: read_integrated_iff)
  have len: "length ?keys = 64" if "valid_keys check_key ?adr" using that by (simp add: valid_keys_def)
  have pq: "valid_pq ?adr \<Longrightarrow> is_pq ?adr" by (auto simp: valid_pq_def is_pq_def)
  show ?thesis
    unfolding from_str_cases [OF Some assms(2)] from_str_pq_iff info_eq_iff int key
      key [of "CRYPTONOTE_PUBLIC_ADDRESS_BASE58_PREFIX c" "\<lambda>_. True", simplified]
    using Some len pq
    by (auto simp: valid_info_def address_text_def is_pq_def get_account_address_as_str_def
        get_account_integrated_address_as_str_def)
qed

text \<open>The first letters of a text, from its first block.\<close>

lemma encode_starts:
  assumes "length r = 6" "encode (t # m # r @ xs) = Some enc"
  shows "\<exists>y rest. y < 256 ^ 6 \<and> (let x = unat t * 256 ^ 7 + unat m * 256 ^ 6 + y
    in enc = alphabet ! (x div 58 ^ 10 mod 58) # alphabet ! (x div 58 ^ 9 mod 58) # rest)"
proof -
  let ?b = "t # m # r" and ?y = "digits_val 256 (map unat (rev r))"
  obtain e rest where e: "encode_block ?b = Some e" "enc = e @ rest"
    using encode_first_block [of ?b xs enc] assms by auto
  have y: "?y < 256 ^ 6" using digits_val_lt [of "map unat (rev r)" 256] assms(1) by auto
  have "unat (uint_8be_to_64 ?b) = unat t * 256 ^ 7 + unat m * 256 ^ 6 + ?y"
    using assms(1) by (simp add: unat_uint_8be digits_val_append)
  moreover have "to_digits 58 11 x = to_digits 58 9 x @ [x div 58 ^ 9 mod 58, x div 58 ^ 10 mod 58]" for x
    using to_digits_add [of 58 9 2 x] by (simp add: numeral_2_eq_2 div_mult2_eq [symmetric])
  ultimately have "e = alphabet ! ((unat t * 256 ^ 7 + unat m * 256 ^ 6 + ?y) div 58 ^ 10 mod 58) #
      alphabet ! ((unat t * 256 ^ 7 + unat m * 256 ^ 6 + ?y) div 58 ^ 9 mod 58) #
      rev (map ((!) alphabet) (to_digits 58 9 (unat t * 256 ^ 7 + unat m * 256 ^ 6 + ?y)))"
    using e(1) encode_block_eq [of ?b] assms(1) by (simp add: encoded_block_sizes_def del: power_numeral)
  then show ?thesis using e(2) y by (auto simp: Let_def)
qed

lemma encode_addr_starts:
  assumes "tag < 128" "length (m # r) = 7" "encode_addr tag (m # r @ xs) = Some str"
  shows "\<exists>y rest. y < 256 ^ 6 \<and> (let x = unat tag * 256 ^ 7 + unat m * 256 ^ 6 + y
    in str = alphabet ! (x div 58 ^ 10 mod 58) # alphabet ! (x div 58 ^ 9 mod 58) # rest)"
proof -
  have "get_varint_data tag = [ucast tag]" using assms(1) by (simp add: get_varint_data_def write_varint_small)
  moreover have "unat (ucast tag :: u8) = unat tag"
    using assms(1) by (simp add: unsigned_ucast_eq take_bit_eq_mod word_less_nat_alt)
  ultimately show ?thesis
    using encode_starts [of r "ucast tag" m "xs @ take addr_checksum_size (cn_fast_hash (get_varint_data tag @ m # r @ xs))" str]
      assms(2,3) by (simp add: encode_addr_def Let_def)
qed

lemma first_letter:
  assumes "60 \<le> t" "t \<le> 62" "m < 256" "y < 256 ^ 6"
  shows "(t * 256 ^ 7 + m * 256 ^ 6 + y) div 58 ^ 10 mod 58 = (10::nat)"
proof -
  have "(t * 256 ^ 7 + m * 256 ^ 6 + y) div 58 ^ 10 = (10::nat)"
    by (rule div_nat_eqI) (use assms in simp_all)
  then show ?thesis by simp
qed

lemma second_letter:
  assumes "m = 51 \<or> m = 53" "y < 256 ^ 6"
  shows "(62 * 256 ^ 7 + m * 256 ^ 6 + y) div 58 ^ 9 mod 58 = (23::nat)"
proof -
  have "(62 * 256 ^ 7 + m * 256 ^ 6 + y) div 58 ^ 9 = (603::nat)"
    by (rule div_nat_eqI) (use assms in auto)
  then show ?thesis by simp
qed

lemma letters: "alphabet ! 10 = of_char CHR ''B''" "alphabet ! 23 = of_char CHR ''Q''"
  by (simp_all add: alphabet_def)

lemma main_address_starts:
  assumes "valid_keys check_key (address info)" "\<not> is_pq (address info)" "address_text MAINNET info = Some str"
  shows "\<exists>rest. str = of_char CHR ''B'' # rest"
proof -
  let ?s = "m_spend_public_key (address info)"
  obtain tag xs where t: "tag = 60 \<or> tag = 61 \<or> tag = 62" "encode_addr tag (?s @ xs) = Some str"
    using assms(2,3) by (auto simp: address_text_def get_account_address_as_str_def get_account_integrated_address_as_str_def
        get_config_def config_defs split: if_splits)
  obtain m r where m: "?s = m # r" "length r = 31" using assms(1) by (cases ?s) (auto simp: valid_keys_def)
  have small: "tag < 128" using t(1) by auto
  have "encode_addr tag (m # take 6 r @ drop 6 r @ xs) = Some str" using t(2) m(1) by (simp flip: append_assoc)
  then obtain y rest where y: "y < 256 ^ 6"
      "str = alphabet ! ((unat tag * 256 ^ 7 + unat m * 256 ^ 6 + y) div 58 ^ 10 mod 58) # rest"
    using encode_addr_starts [OF small, of m "take 6 r" "drop 6 r @ xs" str] m(2) by (auto simp: Let_def)
  have "60 \<le> unat tag" "unat tag \<le> 62" "unat m < 256" using t(1) unsigned_less [of m] by auto
  from first_letter [OF this y(1)] show ?thesis using y(2) letters(1) by auto
qed

lemma pq_address_starts:
  assumes "length (m_spend_public_key adr) = 32" "pq_kyber_pk adr \<noteq> None" "pq_auth_commit adr \<noteq> None"
    and "get_account_address_as_str_pq adr sub = Some str"
  shows "\<exists>rest. str = of_char CHR ''B'' # of_char CHR ''Q'' # rest"
proof -
  let ?s = "m_spend_public_key adr"
  obtain m xs where m: "m = 51 \<or> m = 53" "encode_addr 62 (m # pq_auth_ver adr # ?s @ xs) = Some str"
    using assms(2-4) by (auto simp: get_account_address_as_str_pq_def pq_defs split: if_splits)
  have "encode_addr 62 (m # (pq_auth_ver adr # take 5 ?s) @ drop 5 ?s @ xs) = Some str" using m(2) by (simp flip: append_assoc)
  then obtain y rest where y: "y < 256 ^ 6"
      "str = alphabet ! ((62 * 256 ^ 7 + unat m * 256 ^ 6 + y) div 58 ^ 10 mod 58) #
        alphabet ! ((62 * 256 ^ 7 + unat m * 256 ^ 6 + y) div 58 ^ 9 mod 58) # rest"
    using encode_addr_starts [of 62 m "pq_auth_ver adr # take 5 ?s" "drop 5 ?s @ xs" str] assms(1) by (auto simp: Let_def)
  have u: "unat m = 51 \<or> unat m = 53" "unat m < 256" using m(1) by auto
  show ?thesis using y first_letter [OF _ _ u(2) y(1), of 62] second_letter [OF u(1) y(1)] letters by simp
qed

lemma encode_addr_length:
  assumes "tag < 128" "encode_addr tag data = Some str"
  shows "length str = 11 * ((length data + 5) div 8) + encoded_block_sizes ! ((length data + 5) mod 8)"
  using assms encode_length [of "get_varint_data tag @ data @ take addr_checksum_size (cn_fast_hash (get_varint_data tag @ data))" str]
  by (simp add: encode_addr_def Let_def get_varint_data_def write_varint_small checksum_length add.commute del: length_take)

lemma address_text_length:
  assumes "valid_info check_key MAINNET info" "address_text MAINNET info = Some str"
  shows "length str = (if is_pq (address info) then 1770 else if has_payment_id info then 106 else 95)"
  using assms by (auto simp: valid_info_def valid_keys_def valid_pq_def address_text_def get_account_address_as_str_pq_def
      get_account_integrated_address_as_str_def get_account_address_as_str_def get_config_def config_defs pq_defs
      encoded_block_sizes_def dest!: encode_addr_length [rotated] split: if_splits)

text \<open>A reader that fails leaves an object without post-quantum fields, so that a second text can be read
  into it.\<close>

lemma serialize_blob_length: "length buf = n \<Longrightarrow> serialize_blob buf n xs = (good, buf', ys) \<Longrightarrow> length buf' = n"
  by (auto simp: serialize_blob_def Let_def)

lemma parse_address_fresh:
  assumes "fresh_info info" "parse_address data (address info) = (good, adr)"
  shows "fresh_info (info\<lparr>address := adr\<rparr>)"
  using assms by (auto simp: fresh_info_def parse_address_def read_address_def Let_def dest: serialize_blob_length
      split: prod.splits if_splits)

lemma read_payload_fresh:
  assumes "fresh_info info" "read_payload check_key data info = (good, info')"
  shows "fresh_info info'"
proof (cases "has_payment_id info")
  case True
  then show ?thesis
    using assms by (cases "parse_integrated data") (auto simp: read_payload_def parse_integrated_iff fresh_info_def)
next
  case False
  obtain g adr where "parse_address data (address info) = (g, adr)" by force
  then show ?thesis using parse_address_fresh [OF assms(1)] assms(2) False by (auto simp: read_payload_def)
qed

lemma failed_read_fresh:
  assumes "fresh_info info" "get_account_address_from_str check_key blob_size m_address info nettype str = Some (False, info')"
  shows "fresh_info info'"
proof -
  have f: "fresh_info (info\<lparr>is_subaddress := s, has_payment_id := p\<rparr>)" for s p
    using assms(1) by (simp add: fresh_info_def)
  show ?thesis
    using assms by (auto simp: get_account_address_from_str_def read_old_format_def dest: read_payload_fresh [OF f]
        split: option.splits if_splits)
qed



lemma from_str_defined:
  "get_account_address_from_str check_key blob_size m_address info nettype str = None \<longleftrightarrow> get_config nettype = None"
  by (cases "get_config nettype") (simp_all add: get_account_address_from_str_def)

lemma from_str_old:
  assumes "length str = 2 * blob_size" "get_config nettype \<noteq> None"
  shows "get_account_address_from_str check_key blob_size m_address info nettype str =
    Some (read_old_format blob_size m_address str info)"
  using assms by (auto simp: get_account_address_from_str_def)

text \<open>Reading into two objects without post-quantum fields differs at most in the payment id.\<close>

lemma reread_ok:
  assumes "fresh_info info0" "fresh_info info1"
    and "get_account_address_from_str check_key blob_size m_address info0 nettype str = Some (True, info)"
  shows "get_account_address_from_str check_key blob_size m_address info1 nettype str =
    Some (True, if has_payment_id info then info else info\<lparr>payment_id := payment_id info1\<rparr>)"
proof (cases "2 * blob_size = length str")
  case True
  then show ?thesis using assms(3)
    by (auto simp: get_account_address_from_str_def read_old_format_def split: option.splits if_splits)
next
  case False
  let ?info = "if has_payment_id info then info else info\<lparr>payment_id := payment_id info1\<rparr>"
  have "valid_info check_key nettype info" "address_text nettype info = Some str"
    using assms(3) unfolding from_str_iff [OF assms(1) False] by auto
  then have "valid_info check_key nettype ?info" "address_text nettype ?info = Some str"
    by (auto simp: valid_info_def address_text_def)
  then show ?thesis unfolding from_str_iff [OF assms(2) False] by simp
qed

lemma reread:
  assumes "fresh_info info0" "fresh_info info1"
    and "get_account_address_from_str check_key blob_size m_address info0 nettype str = Some (ok, info)"
  shows "\<exists>info'. get_account_address_from_str check_key blob_size m_address info1 nettype str = Some (ok, info') \<and>
    (ok \<longrightarrow> info' = (if has_payment_id info then info else info\<lparr>payment_id := payment_id info1\<rparr>))"
proof (cases ok)
  case True
  then show ?thesis using reread_ok [OF assms(1,2)] assms(3) by simp
next
  case False
  obtain ok' info' where r: "get_account_address_from_str check_key blob_size m_address info1 nettype str = Some (ok', info')"
    using assms(3) from_str_defined by (metis not_None_eq surj_pair)
  then show ?thesis using reread_ok [OF assms(2,1), of check_key blob_size m_address nettype str info'] assms(3) False by (cases ok') auto
qed

subsection \<open>The properties\<close>


text \<open>C17: every main network address begins with B and has 95 characters, or 106 with a payment id; every
  post-quantum address begins with BQ, whatever its keys are, and has 1770 characters.\<close>
theorem address_letters:
  assumes "valid_info check_key MAINNET info" "address_text MAINNET info = Some str"
  shows "if is_pq (address info) then take 2 str = map of_char ''BQ'' \<and> length str = 1770
    else take 1 str = map of_char ''B'' \<and> length str = (if has_payment_id info then 106 else 95)"
proof (cases "is_pq (address info)")
  case True
  then have "\<exists>rest. str = of_char CHR ''B'' # of_char CHR ''Q'' # rest"
    using assms by (intro pq_address_starts [of "address info" "is_subaddress info"])
      (auto simp: valid_info_def valid_keys_def valid_pq_def address_text_def)
  then show ?thesis using True address_text_length [OF assms] by auto
next
  case False
  then have "\<exists>rest. str = of_char CHR ''B'' # rest"
    using assms by (intro main_address_starts) (auto simp: valid_info_def)
  then show ?thesis using False address_text_length [OF assms] by auto
qed

text \<open>C18: a text that is read as an address on one network is read as one on another exactly if the two have the
  same configuration, or the text has the length of the old format, which carries no network: no address
  with a network tag is accepted on another network, but an old text is accepted on all.\<close>
theorem networks_separate:
  assumes "get_account_address_from_str check_key blob_size m_address info net1 str = Some (True, r1)" "net2 \<noteq> UNDEFINED"
  shows "(\<exists>r2. get_account_address_from_str check_key blob_size m_address info net2 str = Some (True, r2)) \<longleftrightarrow>
    get_config net1 = get_config net2 \<or> length str = 2 * blob_size"
proof (cases "length str = 2 * blob_size")
  case True
  have "get_config net2 \<noteq> None" using assms(2) by (simp add: get_config_def split: network_type.splits)
  moreover have "get_config net1 \<noteq> None" using assms(1) from_str_defined by (metis option.distinct(1))
  ultimately show ?thesis using True assms(1) by (simp add: from_str_old)
next
  case False
  have tag: "\<exists>c tag data. get_config net = Some c \<and> decode_addr str = Some (tag, data) \<and>
      tag \<in> {CRYPTONOTE_PUBLIC_ADDRESS_BASE58_PREFIX c, CRYPTONOTE_PUBLIC_INTEGRATED_ADDRESS_BASE58_PREFIX c,
        CRYPTONOTE_PUBLIC_SUBADDRESS_BASE58_PREFIX c}"
    if "get_account_address_from_str check_key blob_size m_address info net str = Some (True, r)" for net r
    using that False by (auto simp: get_account_address_from_str_def split: option.splits if_splits)
  have "get_config net1 = get_config net2"
    if "get_account_address_from_str check_key blob_size m_address info net2 str = Some (True, r2)" for r2
    using tag [OF assms(1)] tag [OF that] by (cases net1; cases net2) (auto simp: get_config_def config_defs)
  moreover have "get_account_address_from_str check_key blob_size m_address info net2 str = Some (True, r1)"
    if "get_config net1 = get_config net2" using assms(1) that by (simp add: get_account_address_from_str_def)
  ultimately show ?thesis using False by blast
qed

text \<open>C19: reading a text and, failing that, the text published for it at a domain, into an object without
  post-quantum fields. The result is the address of the first text if that is one, else the address the
  published text gives when read into the original object. The only trace of the failed first attempt is
  in the payment id: an address without one keeps the payment id that the first attempt has left in the
  object.\<close>
theorem url_fallback:
  assumes "fresh_info info0"
    and "get_account_address_from_str check_key blob_size m_address info0 nettype str = Some (ok1, info1)"
    and "get_account_address_from_str check_key blob_size m_address info0 nettype (dns str) = Some (ok2, info2)"
  shows "\<exists>ok info. get_account_address_from_str_or_url check_key blob_size m_address dns info0 nettype str = Some (ok, info) \<and>
    (ok \<longleftrightarrow> ok1 \<or> dns str \<noteq> [] \<and> ok2) \<and>
    (ok \<longrightarrow> info = (if ok1 then info1 else if has_payment_id info2 then info2 else info2\<lparr>payment_id := payment_id info1\<rparr>))"
proof (cases "ok1 \<or> dns str = []")
  case True
  then show ?thesis using assms(2) by (cases ok1) (auto simp: get_account_address_from_str_or_url_def)
next
  case False
  then have "fresh_info info1" using failed_read_fresh [OF assms(1)] assms(2) by simp
  from reread [OF assms(1) this assms(3)] False assms(2) show ?thesis
    by (auto simp: get_account_address_from_str_or_url_def Let_def)
qed

subsection \<open>Witnesses\<close>

definition empty_info :: address_parse_info where
  "empty_info = \<lparr>address = new_address, is_subaddress = False, has_payment_id = False, payment_id = replicate 8 0\<rparr>"

definition pq_info :: address_parse_info where
  "pq_info = empty_info\<lparr>is_subaddress := True, address := new_address\<lparr>pq_kyber_pk := Some (replicate 1184 7),
     pq_auth_commit := Some (replicate 32 8), pq_auth_ver := 1\<rparr>\<rparr>"

lemma pq_info_valid: "fresh_info empty_info" "nettype \<in> {MAINNET, FAKECHAIN} \<Longrightarrow> valid_info (\<lambda>k. k = replicate 32 0) nettype pq_info"
  "is_pq (address pq_info)" "payment_id pq_info = payment_id empty_info"
  by (auto simp: pq_info_def empty_info_def new_address_def fresh_info_def valid_info_def valid_keys_def valid_pq_def is_pq_def)

lemma pq_info_text: "\<exists>str. address_text MAINNET pq_info = Some str \<and> address_text FAKECHAIN pq_info = Some str \<and> length str = 1770"
proof -
  obtain k c where "pq_kyber_pk (address pq_info) = Some k" "pq_auth_commit (address pq_info) = Some c"
    by (simp add: pq_info_def)
  then have t: "address_text nettype pq_info = encode_addr 62 (53 # pq_auth_ver (address pq_info) # m_spend_public_key (address pq_info) @
      m_view_public_key (address pq_info) @ k @ c)" for nettype
    by (simp add: address_text_def is_pq_def get_account_address_as_str_pq_def pq_defs pq_info_def)
  obtain str where "address_text MAINNET pq_info = Some str" using encode_total unfolding t encode_addr_def Let_def by blast
  then show ?thesis using address_text_length [of "\<lambda>k. k = replicate 32 0" pq_info str] pq_info_valid t by simp
qed

lemma pq_info_read:
  assumes "address_text nettype pq_info = Some str" "length str = 1770" "nettype \<in> {MAINNET, FAKECHAIN}"
  shows "get_account_address_from_str (\<lambda>k. k = replicate 32 0) 1285 (\<lambda>_. new_address) empty_info nettype str = Some (True, pq_info)"
  using from_str_iff [of empty_info 1285 str "\<lambda>k. k = replicate 32 0" "\<lambda>_. new_address" nettype pq_info] assms pq_info_valid by auto



theorem address_letters_witness:
  "\<exists>str. address_text MAINNET pq_info = Some str \<and> take 2 str = map of_char ''BQ'' \<and> length str = 1770"
proof -
  obtain str where t: "address_text MAINNET pq_info = Some str" using pq_info_text by blast
  show ?thesis using address_letters [OF pq_info_valid(2) t] t pq_info_valid(3) by auto
qed

theorem networks_separate_witness:
  "\<exists>str. get_account_address_from_str (\<lambda>k. k = replicate 32 0) 1285 (\<lambda>_. new_address) empty_info MAINNET str = Some (True, pq_info) \<and>
    (\<exists>r. get_account_address_from_str (\<lambda>k. k = replicate 32 0) 1285 (\<lambda>_. new_address) empty_info FAKECHAIN str = Some (True, r)) \<and>
    (\<nexists>r. get_account_address_from_str (\<lambda>k. k = replicate 32 0) 1285 (\<lambda>_. new_address) empty_info TESTNET str = Some (True, r))"
proof -
  obtain str where t: "address_text MAINNET pq_info = Some str" "length str = 1770" using pq_info_text by blast
  then have r: "get_account_address_from_str (\<lambda>k. k = replicate 32 0) 1285 (\<lambda>_. new_address) empty_info MAINNET str = Some (True, pq_info)"
    by (intro pq_info_read) simp_all
  then show ?thesis
    using networks_separate [OF r, of FAKECHAIN] networks_separate [OF r, of TESTNET] t(2)
    by (auto simp: get_config_def config_defs)
qed

text \<open>An integrated address whose spend key is not a point leaves its payment id behind.\<close>

theorem url_fallback_witness:
  "\<exists>str published. address_text MAINNET pq_info = Some published \<and>
    get_account_integrated_address_as_str MAINNET (new_address\<lparr>m_spend_public_key := replicate 32 1\<rparr>) (replicate 8 9) = Some str \<and>
    get_account_address_from_str_or_url (\<lambda>k. k = replicate 32 0) 1285 (\<lambda>_. new_address) (\<lambda>_. published) empty_info MAINNET str =
      Some (True, pq_info\<lparr>payment_id := replicate 8 9\<rparr>)"
proof -
  let ?adr = "new_address\<lparr>m_spend_public_key := replicate 32 1\<rparr>" and ?ck = "\<lambda>k. k = replicate 32 (0 :: u8)"
  obtain pub where t: "address_text MAINNET pq_info = Some pub" "length pub = 1770" using pq_info_text by blast
  obtain str where s: "encode_addr 61 (replicate 32 1 @ replicate 32 0 @ replicate 8 9) = Some str"
    using encode_total unfolding encode_addr_def Let_def by blast
  then have i: "get_account_integrated_address_as_str MAINNET ?adr (replicate 8 9) = Some str"
    by (simp add: get_account_integrated_address_as_str_def get_config_def config_defs new_address_def)
  have "length str = 106" using encode_addr_length [OF _ s] by (simp add: encoded_block_sizes_def)
  moreover have "parse_integrated (replicate 32 1 @ replicate 32 0 @ replicate 8 9) = Some (?adr, replicate 8 9)"
    unfolding parse_integrated_iff by (simp add: new_address_def)
  ultimately have r: "get_account_address_from_str ?ck 1285 (\<lambda>_. new_address) empty_info MAINNET str =
      Some (False, empty_info\<lparr>address := ?adr, has_payment_id := True, payment_id := replicate 8 9\<rparr>)"
    using decode_addr_encode [OF s]
    by (simp add: get_account_address_from_str_def get_config_def config_defs read_payload_def empty_info_def)
  have p: "get_account_address_from_str ?ck 1285 (\<lambda>_. new_address) empty_info MAINNET pub = Some (True, pq_info)"
    using t by (intro pq_info_read) simp_all
  have "pub \<noteq> []" using t(2) by auto
  then show ?thesis
    using url_fallback [OF pq_info_valid(1) r, of "\<lambda>_. pub", OF p] t(1) i by (auto simp: pq_info_def empty_info_def)
qed

end
