(* ===== verification/Mnemonics.thy ===== *)
theory Mnemonics
  imports Hidering_Prelude
begin

unbundle bit_operations_syntax

section \<open>Seed words (\<open>src/mnemonics/electrum-words.cpp\<close>, \<open>language_base.h\<close>, \<open>src/common/utf8.h\<close>)\<close>

text \<open>
  A secret as a list of words and back. Text is a list of bytes. The lower-case mapping of wide
  characters (\<open>std::towlower\<close>, which depends on the locale), the CRC of Boost and the lists of
  language objects are arguments. A hash map with \<open>WordHash\<close> and \<open>WordEqual\<close> is a map from canonical
  words to the stored key and its value. An exception, a division by zero and a returned \<open>false\<close> are
  \<open>None\<close>; where a search goes on after a failure, it is \<open>Some None\<close>.
\<close>

subsection \<open>Text\<close>

definition utf8_encode :: "u32 \<Rightarrow> bytes option" where
  "utf8_encode cp =
     (if cp \<le> 0x7f then Some [ucast cp]
      else if cp \<le> 0x7ff then Some [0xc0 OR ucast (drop_bit 6 cp), 0x80 OR ucast (cp AND 0x3f)]
      else if cp \<le> 0xffff then
        Some [0xe0 OR ucast (drop_bit 12 cp), 0x80 OR ucast (drop_bit 6 cp AND 0x3f), 0x80 OR ucast (cp AND 0x3f)]
      else if cp \<le> 0x10ffff then
        Some [0xf0 OR ucast (drop_bit 18 cp), 0x80 OR ucast (drop_bit 12 cp AND 0x3f),
              0x80 OR ucast (drop_bit 6 cp AND 0x3f), 0x80 OR ucast (cp AND 0x3f)]
      else None)"

definition utf8_append :: "bytes option \<Rightarrow> bytes option \<Rightarrow> bytes option" where
  "utf8_append c sc = Option.bind c (\<lambda>c. Option.bind sc (\<lambda>sc. Some (c @ sc)))"

fun utf8canonical :: "(u32 \<Rightarrow> u32) \<Rightarrow> bytes \<Rightarrow> bytes option" where
  "utf8canonical t [] = Some []"
| "utf8canonical t (c # s) =
     (if c AND 0x80 = 0 then utf8_append (utf8_encode (t (ucast c))) (utf8canonical t s)
      else if c AND 0xe0 = 0xc0 then
        (case s of b1 # s \<Rightarrow>
           utf8_append (utf8_encode (t (push_bit 6 (ucast (c AND 0x1f)) OR ucast (b1 AND 0x3f)))) (utf8canonical t s)
         | _ \<Rightarrow> None)
      else if c AND 0xf0 = 0xe0 then
        (case s of b1 # b2 # s \<Rightarrow>
           utf8_append (utf8_encode (t (push_bit 12 (ucast (c AND 0xf)) OR push_bit 6 (ucast (b1 AND 0x3f)) OR ucast (b2 AND 0x3f))))
             (utf8canonical t s)
         | _ \<Rightarrow> None)
      else if c AND 0xf8 = 0xf0 then
        (case s of b1 # b2 # b3 # s \<Rightarrow>
           utf8_append (utf8_encode (t (push_bit 18 (ucast (c AND 0x7)) OR push_bit 12 (ucast (b1 AND 0x3f)) OR
             push_bit 6 (ucast (b2 AND 0x3f)) OR ucast (b3 AND 0x3f)))) (utf8canonical t s)
         | _ \<Rightarrow> None)
      else None)"

fun utf8prefix :: "bytes \<Rightarrow> nat \<Rightarrow> bytes" where
  "utf8prefix s 0 = []"
| "utf8prefix [] (Suc n) = []"
| "utf8prefix (c # s) (Suc n) =
     c # takeWhile (\<lambda>b. b AND 0xc0 = 0x80) s @ utf8prefix (dropWhile (\<lambda>b. b AND 0xc0 = 0x80) s) n"

definition isspace :: "u8 \<Rightarrow> bool" where
  "isspace c \<longleftrightarrow> c = 32 \<or> 9 \<le> c \<and> c \<le> 13"

text \<open>\<open>wipeable_string::split\<close>: \<open>field\<close> is the last field while the previous character belongs to it.\<close>

fun split_from :: "bytes option \<Rightarrow> bytes \<Rightarrow> bytes list" where
  "split_from field [] = (case field of None \<Rightarrow> [] | Some f \<Rightarrow> [f])"
| "split_from field (c # s) =
     (if isspace c then (case field of None \<Rightarrow> split_from None s | Some f \<Rightarrow> f # split_from None s)
      else split_from (Some (case field of None \<Rightarrow> [c] | Some f \<Rightarrow> f @ [c])) s)"

definition split :: "bytes \<Rightarrow> bytes list" where
  "split s = split_from None s"

subsection \<open>Languages\<close>

type_synonym word_index = "bytes \<rightharpoonup> bytes \<times> u32"

definition NWORDS :: nat where "NWORDS = 1626"

record language =
  language_name :: bytes
  english_language_name :: bytes
  word_list :: "bytes list"
  unique_prefix_length :: nat
  word_map :: word_index
  trimmed_word_map :: word_index

text \<open>\<open>m[key] = v\<close>, where \<open>k\<close> is the canonical form of \<open>key\<close>: an equal key that is already there stays.\<close>

definition assign :: "bytes \<Rightarrow> bytes \<Rightarrow> u32 \<Rightarrow> word_index \<Rightarrow> word_index" where
  "assign k key v m = m(k \<mapsto> (case m k of None \<Rightarrow> key | Some (old, _) \<Rightarrow> old, v))"

definition trim_word :: "nat \<Rightarrow> bytes \<Rightarrow> bytes" where
  "trim_word n w = (if n < length w then utf8prefix w n else w)"

fun populate_from :: "(u32 \<Rightarrow> u32) \<Rightarrow> bool \<Rightarrow> bool \<Rightarrow> nat \<Rightarrow> bytes list \<Rightarrow> language \<Rightarrow> language option" where
  "populate_from lower short dup ii [] l = Some l"
| "populate_from lower short dup ii (w # ws) l =
     Option.bind (utf8canonical lower w) (\<lambda>k.
       if length w < unique_prefix_length l \<and> \<not> short then None
       else let trimmed = trim_word (unique_prefix_length l) w
            in Option.bind (utf8canonical lower trimmed) (\<lambda>kt.
                 if trimmed_word_map l kt \<noteq> None \<and> \<not> dup then None
                 else populate_from lower short dup (Suc ii) ws
                        (l\<lparr>word_map := assign k w (of_nat ii) (word_map l),
                           trimmed_word_map := assign kt trimmed (of_nat ii) (trimmed_word_map l)\<rparr>)))"

definition populate_maps :: "(u32 \<Rightarrow> u32) \<Rightarrow> bool \<Rightarrow> bool \<Rightarrow> language \<Rightarrow> language option" where
  "populate_maps lower short dup l =
     (if length (word_list l) \<noteq> NWORDS then None else populate_from lower short dup 0 (word_list l) l)"

definition new_language :: "bytes \<Rightarrow> bytes \<Rightarrow> bytes list \<Rightarrow> nat \<Rightarrow> language" where
  "new_language name english_name words prefix_length =
     \<lparr>language_name = name, english_language_name = english_name, word_list = words, unique_prefix_length = prefix_length,
      word_map = Map.empty, trimmed_word_map = Map.empty\<rparr>"

subsection \<open>Checksums\<close>

definition create_checksum_index :: "(u32 \<Rightarrow> u32) \<Rightarrow> (bytes \<Rightarrow> u32) \<Rightarrow> bytes list \<Rightarrow> language \<Rightarrow> nat option" where
  "create_checksum_index lower crc words l =
     Option.bind (those (map (\<lambda>w. Option.bind (utf8canonical lower (utf8prefix w (unique_prefix_length l))) (\<lambda>k.
                                   map_option fst (trimmed_word_map l k))) words)) (\<lambda>trimmed_words.
       if words = [] then None else Some (unat (crc (concat trimmed_words)) mod length words))"

definition checksum_test :: "(u32 \<Rightarrow> u32) \<Rightarrow> (bytes \<Rightarrow> u32) \<Rightarrow> bytes list \<Rightarrow> language \<Rightarrow> bool option" where
  "checksum_test lower crc seed l =
     (if seed = [] then Some False
      else Option.bind (create_checksum_index lower crc (butlast seed) l) (\<lambda>idx.
           Option.bind (utf8canonical lower (trim_word (unique_prefix_length l) (butlast seed ! idx))) (\<lambda>s0c.
           Option.bind (utf8canonical lower (trim_word (unique_prefix_length l) (last seed))) (\<lambda>s1c.
             Some (s0c = s1c)))))"

subsection \<open>The language of a seed\<close>

fun match_words :: "(u32 \<Rightarrow> u32) \<Rightarrow> bool \<Rightarrow> language \<Rightarrow> bytes list \<Rightarrow> u32 list option option" where
  "match_words lower has_checksum l [] = Some (Some [])"
| "match_words lower has_checksum l (w # ws) =
     Option.bind (utf8canonical lower (if has_checksum then utf8prefix w (unique_prefix_length l) else w)) (\<lambda>k.
       case (if has_checksum then trimmed_word_map l else word_map l) k of
         None \<Rightarrow> Some None
       | Some (_, i) \<Rightarrow> map_option (map_option (Cons i)) (match_words lower has_checksum l ws))"

fun find_seed_language ::
  "(u32 \<Rightarrow> u32) \<Rightarrow> (bytes \<Rightarrow> u32) \<Rightarrow> bytes list \<Rightarrow> bool \<Rightarrow> language option \<Rightarrow> language list \<Rightarrow> (u32 list \<times> language) option option" where
  "find_seed_language lower crc seed has_checksum fallback [] = Some (map_option (Pair []) fallback)"
| "find_seed_language lower crc seed has_checksum fallback (l # ls) =
     Option.bind (match_words lower has_checksum l seed) (\<lambda>matched.
       case matched of
         None \<Rightarrow> find_seed_language lower crc seed has_checksum fallback ls
       | Some matched_indices \<Rightarrow>
           if has_checksum then
             Option.bind (checksum_test lower crc seed l) (\<lambda>ok.
               if ok then Some (Some (matched_indices, l)) else find_seed_language lower crc seed has_checksum (Some l) ls)
           else Some (Some (matched_indices, l)))"

subsection \<open>Words to bytes and back\<close>

definition int32_le_bytes :: "u32 \<Rightarrow> bytes" where
  "int32_le_bytes w = [ucast w, ucast (drop_bit 8 w), ucast (drop_bit 16 w), ucast (drop_bit 24 w)]"

definition le32_word :: "bytes \<Rightarrow> u32" where
  "le32_word bs = ucast (bs ! 0) OR push_bit 8 (ucast (bs ! 1)) OR push_bit 16 (ucast (bs ! 2)) OR push_bit 24 (ucast (bs ! 3))"

definition triple_word :: "u32 \<Rightarrow> u32 \<Rightarrow> u32 \<Rightarrow> u32 \<Rightarrow> u32 option" where
  "triple_word word_list_length w1 w2 w3 =
     (let w0 = w1 + word_list_length * (((word_list_length - w1) + w2) mod word_list_length) +
               word_list_length * word_list_length * (((word_list_length - w2) + w3) mod word_list_length)
      in if \<not> w0 mod word_list_length = w1 then None else Some w0)"

fun triples_bytes :: "u32 \<Rightarrow> nat \<Rightarrow> u32 list \<Rightarrow> bytes option" where
  "triples_bytes n 0 ws = Some []"
| "triples_bytes n (Suc k) (w1 # w2 # w3 # ws) =
     Option.bind (triple_word n w1 w2 w3) (\<lambda>w0. map_option (append (int32_le_bytes w0)) (triples_bytes n k ws))"
| "triples_bytes n (Suc k) _ = None"

definition words_to_bytes ::
  "(u32 \<Rightarrow> u32) \<Rightarrow> (bytes \<Rightarrow> u32) \<Rightarrow> language list \<Rightarrow> bytes \<Rightarrow> nat \<Rightarrow> bool \<Rightarrow> (bytes \<times> bytes) option" where
  "words_to_bytes lower crc ls words len duplicate =
     (let seed = split words;
          expected = len * 8 * 3 div 32;
          has_checksum = (len \<noteq> 0 \<longrightarrow> length seed = expected + 1)
      in if len mod 4 \<noteq> 0 then None
         else if len \<noteq> 0 \<and> length seed \<noteq> expected div 2 \<and> length seed \<noteq> expected \<and> length seed \<noteq> expected + 1 then None
         else case find_seed_language lower crc seed has_checksum None ls of
                Some (Some (matched_indices, l)) \<Rightarrow>
                  if has_checksum \<and> checksum_test lower crc seed l \<noteq> Some True then None
                  else let seed = (if has_checksum then butlast seed else seed)
                       in Option.bind (triples_bytes (of_nat (length (word_list l))) (length seed div 3) matched_indices) (\<lambda>dst.
                            let dst = (if 0 < len \<and> duplicate \<and> length seed = len * 3 div 32 div 2 then dst @ dst else dst)
                            in Some (dst, language_name l))
              | _ \<Rightarrow> None)"

definition words_to_key ::
  "(u32 \<Rightarrow> u32) \<Rightarrow> (bytes \<Rightarrow> u32) \<Rightarrow> language list \<Rightarrow> bytes \<Rightarrow> (bytes \<times> bytes) option" where
  "words_to_key lower crc ls words =
     Option.bind (words_to_bytes lower crc ls words 32 True) (\<lambda>(s, name). if length s \<noteq> 32 then None else Some (s, name))"

definition word_triple :: "u32 \<Rightarrow> u32 \<Rightarrow> u32 list" where
  "word_triple word_list_length w0 =
     (let w1 = w0 mod word_list_length;
          w2 = (w0 div word_list_length + w1) mod word_list_length;
          w3 = (w0 div word_list_length div word_list_length + w2) mod word_list_length
      in [w1, w2, w3])"

fun bytes_triples :: "u32 \<Rightarrow> bytes \<Rightarrow> u32 list" where
  "bytes_triples n (a # b # c # d # s) = word_triple n (le32_word [a, b, c, d]) @ bytes_triples n s"
| "bytes_triples n _ = []"

definition bytes_to_words ::
  "(u32 \<Rightarrow> u32) \<Rightarrow> (bytes \<Rightarrow> u32) \<Rightarrow> language list \<Rightarrow> bytes \<Rightarrow> bytes \<Rightarrow> bytes option" where
  "bytes_to_words lower crc ls src name =
     (if length src mod 4 \<noteq> 0 \<or> length src = 0 then None
      else Option.bind (List.find (\<lambda>l. name = language_name l \<or> name = english_language_name l) (rev ls)) (\<lambda>l.
           let words_store = map (\<lambda>w. word_list l ! unat w) (bytes_triples (of_nat (length (word_list l))) src)
           in Option.bind (create_checksum_index lower crc words_store l) (\<lambda>idx.
                Some (concat (map (\<lambda>w. w @ [32]) words_store) @ words_store ! idx))))"

definition seed_length :: nat where "seed_length = 24"

definition get_is_old_style_seed :: "bytes \<Rightarrow> bool" where
  "get_is_old_style_seed seed \<longleftrightarrow> length (split seed) \<noteq> seed_length + 1"

definition get_language_names :: "language list \<Rightarrow> bool \<Rightarrow> bytes list" where
  "get_language_names ls english = map (\<lambda>l. if english then english_language_name l else language_name l) ls"

definition get_english_name_for :: "language list \<Rightarrow> bytes \<Rightarrow> bytes" where
  "get_english_name_for ls name =
     (case List.find (\<lambda>l. language_name l = name) ls of
        Some l \<Rightarrow> english_language_name l | None \<Rightarrow> map of_char ''<language not found>'')"

definition is_valid_language :: "language list \<Rightarrow> bytes \<Rightarrow> bool" where
  "is_valid_language ls name \<longleftrightarrow> (\<exists>l \<in> set ls. english_language_name l = name \<or> language_name l = name)"

subsection \<open>Three words and 32 bits\<close>

lemma shift_back: "a < N \<Longrightarrow> (N - a + (q + a) mod N) mod N = q mod N" for a q N :: nat
proof -
  assume "a < N"
  then have "N - a + (q + a) = q + N" by simp
  then show ?thesis using mod_add_right_eq [of "N - a" "q + a" N] by simp
qed

lemma shift_forth: "a < N \<Longrightarrow> b < N \<Longrightarrow> ((N - a + b) mod N + a) mod N = b" for a b N :: nat
  by (simp add: mod_add_left_eq)

lemma three_digits:
  fixes a p q N :: nat
  assumes "a < N" "p < N" "y = a + N * (p + N * q)"
  shows "y mod N = a" "y div N = p + N * q" "y div N div N = q" "(y div N + a) mod N = (p + a) mod N"
proof -
  show "y mod N = a" "y div N = p + N * q" using assms(1) by (simp_all add: assms(3))
  then show "y div N div N = q" using assms(2) by simp
  have "p + N * q + a = (p + a) + N * q" by simp
  then show "(y div N + a) mod N = (p + a) mod N" unfolding \<open>y div N = p + N * q\<close> by (simp only: mod_mult_self2)
qed

lemma digits_compose: "x = x mod N + N * (x div N mod N + N * (x div N div N))" for x N :: nat
proof -
  have "x div N = x div N mod N + N * (x div N div N)" by (rule mod_mult_div_eq [symmetric])
  then show ?thesis using mod_mult_div_eq [of x N] by simp
qed

lemma index_quotient: "unat x div 1626 \<le> 2641431" "unat x div 1626 div 1626 < 1626" for x :: u32
proof -
  have "unat x div 1626 \<le> 4294967295 div 1626" using unat_u32_lt [of x] by (intro div_le_mono) linarith
  then show *: "unat x div 1626 \<le> 2641431" by simp
  then have "unat x div 1626 div 1626 \<le> 2641431 div 1626" by (rule div_le_mono)
  then show "unat x div 1626 div 1626 < 1626" by simp
qed

text \<open>The sum of a triple, before it is reduced to 32 bits.\<close>

definition triple_sum :: "u32 \<Rightarrow> u32 \<Rightarrow> u32 \<Rightarrow> nat" where
  "triple_sum w1 w2 w3 = unat w1 + 1626 * ((1626 - unat w1 + unat w2) mod 1626) + 1626 * 1626 * ((1626 - unat w2 + unat w3) mod 1626)"

lemma triple_word_nat:
  assumes "unat w1 < 1626" "unat w2 < 1626" "unat w3 < 1626"
  shows "triple_word 1626 w1 w2 w3 =
    (if triple_sum w1 w2 w3 < 2 ^ 32 then Some (of_nat (triple_sum w1 w2 w3)) else None)"
proof -
  let ?p = "(1626 - unat w1 + unat w2) mod 1626" and ?q = "(1626 - unat w2 + unat w3) mod 1626"
  have d: "unat ((1626 - v) + w) = 1626 - unat v + unat w" if "unat v < 1626" "unat w < 1626" for v w :: u32
  proof -
    have "unat (1626 - v) = 1626 - unat v" using that by (subst unat_sub) (simp_all add: word_le_nat_alt)
    then show ?thesis using that by (subst unat_plus_exact) simp_all
  qed
  have of: "of_nat (unat w) = w" for w :: u32 by simp
  have pq: "((1626 - w1) + w2) mod 1626 = of_nat ?p" "((1626 - w2) + w3) mod 1626 = of_nat ?q"
    using assms by (simp_all add: word_unat_eq_iff unat_mod_distrib d unat_of_nat)
  have sum: "w1 + 1626 * (((1626 - w1) + w2) mod 1626) + 1626 * 1626 * (((1626 - w2) + w3) mod 1626) = of_nat (triple_sum w1 w2 w3)"
    by (simp only: pq triple_sum_def of_nat_add of_nat_mult of_nat_numeral of)
  let ?y = "triple_sum w1 w2 w3"
  have "?y = unat w1 + 1626 * (?p + 1626 * ?q)" by (simp add: triple_sum_def)
  moreover have "?p < 1626" by simp
  ultimately have "?y mod 1626 = unat w1" using three_digits(1) [OF assms(1)] by blast
  have "p < 1626 \<Longrightarrow> q < 1626 \<Longrightarrow> unat w1 + 1626 * p + 1626 * 1626 * q < 2 * 2 ^ 32" for p q :: nat using assms(1) by simp
  then have "?y < 2 * 2 ^ 32" unfolding triple_sum_def by simp
  have "(of_nat ?y mod 1626 = w1) = (?y < 2 ^ 32)"
  proof (cases "?y < 2 ^ 32")
    case True
    then have "unat (of_nat ?y mod 1626 :: u32) = unat w1" using \<open>?y mod 1626 = unat w1\<close> by (simp add: unat_mod_distrib unat_of_nat)
    then show ?thesis using True by (simp add: word_unat_eq_iff)
  next
    case False
    then have "unat (of_nat ?y :: u32) = ?y - 2 ^ 32" using \<open>?y < 2 * 2 ^ 32\<close> by (simp add: unat_of_nat mod_if)
    moreover have "(?y - 2 ^ 32) mod 1626 \<noteq> unat w1"
    proof
      assume "(?y - 2 ^ 32) mod 1626 = unat w1"
      then have "?y mod 1626 = (?y - 2 ^ 32) mod 1626" using \<open>?y mod 1626 = unat w1\<close> by simp
      then have "1626 dvd ?y - (?y - 2 ^ 32)" by (subst (asm) mod_eq_dvd_iff_nat) simp_all
      then have "(1626 :: nat) dvd 2 ^ 32" using False by simp
      then show False by simp
    qed
    ultimately have "unat (of_nat ?y mod 1626 :: u32) \<noteq> unat w1" by (simp add: unat_mod_distrib)
    then show ?thesis using False by auto
  qed
  then show ?thesis unfolding triple_word_def Let_def sum by simp
qed

lemma word_triple_nat:
  fixes x :: u32
  defines "a \<equiv> unat x mod 1626"
  defines "b \<equiv> (unat x div 1626 + a) mod 1626"
  defines "c \<equiv> (unat x div 1626 div 1626 + b) mod 1626"
  shows "map unat (word_triple 1626 x) = [a, b, c]"
proof -
  note lt = index_quotient [of x]
  have bd: "a < 1626" "b < 1626" by (simp_all add: a_def b_def)
  have 1: "unat (x mod 1626) = a" "unat (x div 1626) = unat x div 1626" "unat (x div 1626 div 1626) = unat x div 1626 div 1626"
    by (simp_all add: a_def unat_mod_distrib unat_div_distrib)
  have "unat (x div 1626 + x mod 1626) = unat x div 1626 + a" using lt(1) bd(1) by (subst unat_plus_exact) (simp_all add: 1)
  then have 2: "unat ((x div 1626 + x mod 1626) mod 1626) = b" by (simp add: unat_mod_distrib b_def)
  have "unat (x div 1626 div 1626 + (x div 1626 + x mod 1626) mod 1626) = unat x div 1626 div 1626 + b"
    using lt(2) bd(2) by (subst unat_plus_exact) (simp_all add: 1 2)
  then have "unat ((x div 1626 div 1626 + (x div 1626 + x mod 1626) mod 1626) mod 1626) = c" by (simp add: unat_mod_distrib c_def)
  then show ?thesis by (simp add: word_triple_def Let_def 1 2)
qed

lemma map_unat_inj: "map unat xs = map unat ys \<longleftrightarrow> xs = ys" for xs ys :: "'a::len word list"
  by (rule inj_map_eq_map) (rule inj_onI, simp add: word_unat_eq_iff)

lemma triple_exact:
  assumes "unat w1 < 1626" "unat w2 < 1626" "unat w3 < 1626"
  shows "triple_word 1626 w1 w2 w3 = Some x \<longleftrightarrow> word_triple 1626 x = [w1, w2, w3]"
proof -
  let ?y = "triple_sum w1 w2 w3"
  let ?p = "(1626 - unat w1 + unat w2) mod 1626" and ?q = "(1626 - unat w2 + unat w3) mod 1626"
  have y: "?y = unat w1 + 1626 * (?p + 1626 * ?q)" by (simp add: triple_sum_def)
  have "word_triple 1626 x = [w1, w2, w3] \<longleftrightarrow> unat x = ?y"
  proof
    assume "word_triple 1626 x = [w1, w2, w3]"
    then have w: "unat w1 = unat x mod 1626" "unat w2 = (unat x div 1626 + unat w1) mod 1626"
      "unat w3 = (unat x div 1626 div 1626 + unat w2) mod 1626"
      using word_triple_nat [of x] by auto
    have "?p = unat x div 1626 mod 1626" unfolding w(2) by (rule shift_back [OF assms(1)])
    moreover have "?q = unat x div 1626 div 1626 mod 1626" unfolding w(3) by (rule shift_back [OF assms(2)])
    moreover note index_quotient(2) [of x]
    ultimately show "unat x = ?y" unfolding y w(1) using digits_compose [of "unat x" 1626] by simp
  next
    assume x: "unat x = ?y"
    then have d: "unat x = unat w1 + 1626 * (?p + 1626 * ?q)" by (simp only: y)
    have "?p < 1626" by simp
    note t = three_digits [OF assms(1) this d]
    have "map unat (word_triple 1626 x) = map unat [w1, w2, w3]"
      by (simp only: word_triple_nat t(1,3,4) shift_forth [OF assms(1,2)] shift_forth [OF assms(2,3)] list.map)
    then show "word_triple 1626 x = [w1, w2, w3]" by (simp only: map_unat_inj)
  qed
  moreover have "(triple_word 1626 w1 w2 w3 = Some x) = (unat x = ?y)"
    using unat_u32_lt [of x] by (auto simp: triple_word_nat [OF assms] unat_of_nat word_unat_eq_iff simp del: unat_u32_lt)
  ultimately show ?thesis by simp
qed

lemma word_triple_lt: "w \<in> set (word_triple 1626 x) \<Longrightarrow> unat w < 1626"
proof -
  assume "w \<in> set (word_triple 1626 x)"
  then have "unat w \<in> set (map unat (word_triple 1626 x))" by simp
  then show ?thesis unfolding word_triple_nat by (auto intro: mod_less_divisor)
qed

lemma word_triple_inverse: "\<exists>w1 w2 w3. word_triple 1626 x = [w1, w2, w3] \<and> triple_word 1626 w1 w2 w3 = Some x"
proof -
  obtain w1 w2 w3 where w: "word_triple 1626 x = [w1, w2, w3]" by (simp add: word_triple_def Let_def)
  then have "unat w1 < 1626" "unat w2 < 1626" "unat w3 < 1626" using word_triple_lt [of _ x] by auto
  then show ?thesis using w triple_exact by blast
qed

lemma le32_inverse: "int32_le_bytes (le32_word [a, b, c, d]) = [a, b, c, d]"
proof -
  have "\<not> bit w (8 + n)" "\<not> bit w (16 + n)" "\<not> bit w (24 + n)" for w :: u8 and n
    by (auto dest: bit_imp_le_length)
  then show ?thesis unfolding int32_le_bytes_def le32_word_def by (auto intro!: bit_word_eqI simp: bit_simps)
qed

lemma triples_roundtrip:
  "length src = 4 * k \<Longrightarrow> triples_bytes 1626 k (bytes_triples 1626 src @ ws) = Some src \<and>
     length (bytes_triples 1626 src) = 3 * k \<and> (\<forall>w \<in> set (bytes_triples 1626 src). unat w < 1626)"
proof (induction k arbitrary: src)
  case (Suc k)
  then obtain a b c d s where s: "src = a # b # c # d # s" "length s = 4 * k"
    by (auto simp: length_Suc_conv numeral_eq_Suc)
  obtain w1 w2 w3 where w: "word_triple 1626 (le32_word [a, b, c, d]) = [w1, w2, w3]"
    "triple_word 1626 w1 w2 w3 = Some (le32_word [a, b, c, d])" using word_triple_inverse by blast
  then show ?case using Suc.IH [OF s(2)] word_triple_lt [of _ "le32_word [a, b, c, d]"] by (auto simp: s(1) le32_inverse)
qed simp

lemma triples_length: "triples_bytes n k ws = Some dst \<Longrightarrow> length dst = 4 * k"
  by (induction n k ws arbitrary: dst rule: triples_bytes.induct) (auto simp: int32_le_bytes_def split: bind_splits)

subsection \<open>Prefixes and fields\<close>

lemma utf8prefix_all: "length s \<le> n \<Longrightarrow> utf8prefix s n = s"
proof (induction s n rule: utf8prefix.induct)
  case (3 c s n)
  have "length (dropWhile (\<lambda>b. b AND 0xc0 = 0x80) s) \<le> length s" by (rule length_dropWhile_le)
  then show ?case using 3 by simp
qed simp_all

lemma trim_word_prefix: "trim_word n w = utf8prefix w n"
  by (simp add: trim_word_def utf8prefix_all)

definition plain_word :: "bytes \<Rightarrow> bool" where
  "plain_word w \<longleftrightarrow> w \<noteq> [] \<and> list_all (\<lambda>c. \<not> isspace c) w"

lemma split_from_word:
  "list_all (\<lambda>c. \<not> isspace c) w \<Longrightarrow> split_from (Some f) (w @ s) = split_from (Some (f @ w)) s"
  by (induction w arbitrary: f) auto

lemma split_word: "plain_word w \<Longrightarrow> split_from None (w @ s) = split_from (Some w) s"
  by (cases w) (auto simp: plain_word_def split_from_word)

lemma split_fields:
  assumes "\<forall>w \<in> set ws. plain_word w" "plain_word v"
  shows "split (concat (map (\<lambda>w. w @ [32]) ws) @ v) = ws @ [v]"
  using assms(1)
proof (induction ws)
  case Nil
  then show ?case using split_word [OF assms(2), of "[]"] by (simp add: split_def)
next
  case (Cons w ws)
  then show ?case using split_word [of w "32 # concat (map (\<lambda>w. w @ [32]) ws) @ v"] by (simp add: split_def isspace_def)
qed

subsection \<open>Populated languages\<close>

text \<open>Word \<open>i\<close> of the list is found in the map of the trimmed words, under its own prefix.\<close>

definition indexed :: "(u32 \<Rightarrow> u32) \<Rightarrow> language \<Rightarrow> bytes \<Rightarrow> nat \<Rightarrow> bool" where
  "indexed lower l w i \<longleftrightarrow> (\<exists>k. utf8canonical lower (utf8prefix w (unique_prefix_length l)) = Some k \<and>
     trimmed_word_map l k = Some (utf8prefix w (unique_prefix_length l), of_nat i))"

lemma populate_from_indexes:
  assumes "populate_from lower short False ii ws l = Some l'"
  shows "language_name l' = language_name l \<and> word_list l' = word_list l \<and> unique_prefix_length l' = unique_prefix_length l \<and>
    english_language_name l' = english_language_name l \<and>
    (\<forall>k v. trimmed_word_map l k = Some v \<longrightarrow> trimmed_word_map l' k = Some v) \<and> (\<forall>j < length ws. indexed lower l' (ws ! j) (ii + j))"
  using assms
proof (induction ws arbitrary: ii l)
  case (Cons w ws)
  let ?u = "unique_prefix_length l"
  obtain k kt where k: "utf8canonical lower w = Some k" "utf8canonical lower (utf8prefix w ?u) = Some kt" "trimmed_word_map l kt = None"
    and p: "populate_from lower short False (Suc ii) ws (l\<lparr>word_map := assign k w (of_nat ii) (word_map l),
      trimmed_word_map := assign kt (utf8prefix w ?u) (of_nat ii) (trimmed_word_map l)\<rparr>) = Some l'"
    using Cons.prems by (auto simp: trim_word_prefix Let_def simp del: not_None_eq split: bind_splits if_splits)
  note IH = Cons.IH [OF p]
  have "assign kt (utf8prefix w ?u) (of_nat ii) (trimmed_word_map l) = (trimmed_word_map l)(kt \<mapsto> (utf8prefix w ?u, of_nat ii))"
    using k(3) by (simp add: assign_def)
  then have keep: "\<forall>k v. ((trimmed_word_map l)(kt \<mapsto> (utf8prefix w ?u, of_nat ii))) k = Some v \<longrightarrow> trimmed_word_map l' k = Some v"
    using IH by simp
  then have "trimmed_word_map l' kt = Some (utf8prefix w ?u, of_nat ii)" by simp
  then have "indexed lower l' w ii" using k(2) IH by (auto simp: indexed_def)
  moreover have "\<forall>k v. trimmed_word_map l k = Some v \<longrightarrow> trimmed_word_map l' k = Some v"
    using keep k(3) by (metis fun_upd_other option.distinct(1))
  ultimately show ?case using IH by (auto simp: nth_Cons split: nat.splits)
qed simp

lemma populate_maps_indexes:
  assumes "populate_maps lower short False l0 = Some l"
  shows "length (word_list l) = 1626" "i < 1626 \<Longrightarrow> indexed lower l (word_list l ! i) i" "word_list l = word_list l0"
    "language_name l = language_name l0" "english_language_name l = english_language_name l0" "unique_prefix_length l = unique_prefix_length l0"
  using assms populate_from_indexes [of lower short 0 "word_list l0" l0 l]
  by (auto simp: populate_maps_def NWORDS_def split: if_splits)

subsection \<open>Finding the language\<close>

lemma match_indexed:
  "\<forall>i \<in> set is. i < 1626 \<and> indexed lower l (word_list l ! i) i \<Longrightarrow>
    match_words lower True l (map ((!) (word_list l)) is) = Some (Some (map of_nat is))"
  by (induction "is") (auto simp: indexed_def)

lemma those_map: "(\<And>x. x \<in> set xs \<Longrightarrow> f x = Some (g x)) \<Longrightarrow> those (map f xs) = Some (map g xs)"
  by (induction xs) auto

lemma checksum_index_defined:
  assumes "ws \<noteq> []" "\<forall>w \<in> set ws. \<exists>i. indexed lower l w i"
  shows "\<exists>idx < length ws. create_checksum_index lower crc ws l = Some idx"
proof -
  have "those (map (\<lambda>w. Option.bind (utf8canonical lower (utf8prefix w (unique_prefix_length l))) (\<lambda>k. map_option fst (trimmed_word_map l k))) ws)
      = Some (map (\<lambda>w. utf8prefix w (unique_prefix_length l)) ws)"
    using assms(2) by (intro those_map) (auto simp: indexed_def)
  then show ?thesis using assms(1) by (simp add: create_checksum_index_def)
qed

lemma checksum_test_own:
  assumes "create_checksum_index lower crc ws l = Some idx" "idx < length ws" "\<forall>w \<in> set ws. \<exists>i. indexed lower l w i"
  shows "checksum_test lower crc (ws @ [ws ! idx]) l = Some True"
proof -
  obtain k where "utf8canonical lower (utf8prefix (ws ! idx) (unique_prefix_length l)) = Some k"
    using assms(3) nth_mem [OF assms(2)] unfolding indexed_def by blast
  then show ?thesis using assms(1,2) by (simp add: checksum_test_def trim_word_prefix)
qed

text \<open>A language the search does not stop at.\<close>

definition passes_over :: "(u32 \<Rightarrow> u32) \<Rightarrow> (bytes \<Rightarrow> u32) \<Rightarrow> bytes list \<Rightarrow> language \<Rightarrow> bool" where
  "passes_over lower crc seed l \<longleftrightarrow>
     (case match_words lower True l seed of
        None \<Rightarrow> False | Some None \<Rightarrow> True | Some (Some _) \<Rightarrow> checksum_test lower crc seed l = Some False)"

lemma find_first:
  assumes "\<forall>l' \<in> set pre. passes_over lower crc seed l'" "match_words lower True l seed = Some (Some ix)" "checksum_test lower crc seed l = Some True"
  shows "find_seed_language lower crc seed True fb (pre @ l # post) = Some (Some (ix, l))"
  using assms(1)
proof (induction pre arbitrary: fb)
  case (Cons a pre)
  then show ?case by (auto simp: passes_over_def split: option.splits)
qed (simp add: assms(2,3))

subsection \<open>Properties\<close>

text \<open>Writing and reading a seed.\<close>

lemma seed_written_read:
  assumes "populate_maps lower short False l0 = Some l" "\<forall>w \<in> set (word_list l). plain_word w"
    and "List.find (\<lambda>l. name = language_name l \<or> name = english_language_name l) (rev gls) = Some l"
    and "length src mod 4 = 0" "src \<noteq> []"
  shows "\<exists>out. bytes_to_words lower crc gls src name = Some out \<and>
    ((\<forall>l' \<in> set pre. passes_over lower crc (split out) l') \<longrightarrow>
     words_to_bytes lower crc (pre @ l # post) out (length src) duplicate = Some (src, language_name l))"
proof -
  note l = populate_maps_indexes [OF assms(1)]
  obtain k where k: "length src = 4 * k" "0 < k" using assms(4,5) by (metis dvdE length_greater_0_conv mod_0_imp_dvd nat_0_less_mult_iff)
  define ts where "ts = bytes_triples 1626 src"
  note t = triples_roundtrip [OF k(1), folded ts_def]
  define ws where "ws = map (\<lambda>w. word_list l ! unat w) ts"
  have ws: "length ws = 3 * k" "ws \<noteq> []" "\<forall>w \<in> set ws. plain_word w \<and> (\<exists>i. indexed lower l w i)"
    using t k(2) l(1,2) assms(2) by (auto simp: ws_def)
  obtain idx where idx: "idx < length ws" "create_checksum_index lower crc ws l = Some idx"
    using checksum_index_defined [OF ws(2)] ws(3) by blast
  define out where "out = concat (map (\<lambda>w. w @ [32]) ws) @ ws ! idx"
  have seed: "split out = ws @ [ws ! idx]" unfolding out_def using ws(3) idx(1) by (intro split_fields) auto
  have written: "bytes_to_words lower crc gls src name = Some out"
    using assms(3-5) idx(2) l(1) by (simp add: bytes_to_words_def out_def ws_def ts_def)
  define ix where "ix = map unat ts @ [unat (ts ! idx)]"
  have ix: "split out = map ((!) (word_list l)) ix" "\<forall>i \<in> set ix. i < 1626"
    using seed t idx(1) by (auto simp: ix_def ws_def)
  have "match_words lower True l (split out) = Some (Some (map of_nat ix))"
    unfolding ix(1) using ix(2) l(2) by (intro match_indexed) auto
  moreover have "map of_nat ix = ts @ [ts ! idx]" by (simp add: ix_def comp_def)
  moreover have test: "checksum_test lower crc (split out) l = Some True"
    unfolding seed using checksum_test_own [OF idx(2,1)] ws(3) by blast
  ultimately have "find_seed_language lower crc (split out) True None (pre @ l # post) = Some (Some (ts @ [ts ! idx], l))"
    if "\<forall>l' \<in> set pre. passes_over lower crc (split out) l'" using find_first [OF that] by simp
  moreover have "length (split out) = length src * 8 * 3 div 32 + 1" using ws(1) k(1) by (simp add: seed)
  moreover have "triples_bytes 1626 (length (butlast (split out)) div 3) (ts @ [ts ! idx]) = Some src" using t ws(1) by (simp add: seed)
  moreover have "length (butlast (split out)) \<noteq> length src * 3 div 32 div 2" using ws(1) k by (simp add: seed)
  ultimately show ?thesis using written test l(1) assms(4,5) by (auto simp: words_to_bytes_def Let_def)
qed

text \<open>C36: the reader of secret keys rejects every seed of twelve words, although the reader of secrets
  accepts such a seed and is asked to duplicate it: the duplication is never reached.\<close>
theorem twelve_words_rejected:
  assumes "length (split words) = 12"
  shows "words_to_key lower crc ls words = None"
  using assms by (auto simp: words_to_key_def words_to_bytes_def Let_def dest!: triples_length split: bind_splits option.splits)

theorem twelve_words_rejected_witness:
  "words_to_key (\<lambda>c. c) (\<lambda>_. 0) [new_language [65] [66] [[97]] 1] (map of_char ''a b c d e f g h i j k l'') = None"
proof (rule twelve_words_rejected)
  show "length (split (map of_char ''a b c d e f g h i j k l'')) = 12" by code_simp
qed

end
