(* ===== verification/English_Words.thy ===== *)
theory English_Words
  imports Mnemonics
begin

section \<open>The English word list (\<open>src/mnemonics/english.h\<close>)\<close>

text \<open>
  The words of the language object \<open>English\<close>, in the parts in which they are checked, and that building
  its maps succeeds: the list has the right length, and no two words agree in their first three letters.
\<close>

definition english_1 :: "string list" where
  "english_1 = [
    ''abbey'', ''abducts'', ''ability'', ''ablaze'', ''abnormal'', ''abort'', ''abrasive'', ''absorb'', ''abyss'',
    ''academy'', ''aces'', ''aching'', ''acidic'', ''acoustic'', ''acquire'', ''across'', ''actress'', ''acumen'',
    ''adapt'', ''addicted'', ''adept'', ''adhesive'', ''adjust'', ''adopt'', ''adrenalin'', ''adult'', ''adventure'',
    ''aerial'', ''afar'', ''affair'', ''afield'', ''afloat'', ''afoot'', ''afraid'', ''after'', ''against'',
    ''agenda'', ''aggravate'', ''agile'', ''aglow'', ''agnostic'', ''agony'', ''agreed'', ''ahead'', ''aided'',
    ''ailments'', ''aimless'', ''airport'', ''aisle'', ''ajar'', ''akin'', ''alarms'', ''album'', ''alchemy'',
    ''alerts'', ''algebra'', ''alkaline'', ''alley'', ''almost'', ''aloof'', ''alpine'', ''already'', ''also'',
    ''altitude'', ''alumni'', ''always'', ''amaze'', ''ambush'', ''amended'', ''amidst'', ''ammo'', ''amnesty'',
    ''among'', ''amply'', ''amused'', ''anchor'', ''android'', ''anecdote'', ''angled'', ''ankle'', ''annoyed'',
    ''answers'', ''antics'', ''anvil'', ''anxiety'', ''anybody'', ''apart'', ''apex'', ''aphid'', ''aplomb'',
    ''apology'', ''apply'', ''apricot'', ''aptitude'', ''aquarium'', ''arbitrary'', ''archer'', ''ardent'',
    ''arena'', ''argue'', ''arises'', ''army'', ''around'', ''arrow'', ''arsenic'', ''artistic'', ''ascend'',
    ''ashtray'', ''aside'', ''asked'', ''asleep'', ''aspire'', ''assorted'', ''asylum'', ''athlete'', ''atlas'',
    ''atom'', ''atrium'', ''attire'', ''auburn'', ''auctions'', ''audio'', ''august'', ''aunt'', ''austere'',
    ''autumn'', ''avatar'', ''avidly'', ''avoid'', ''awakened'', ''awesome'', ''awful'', ''awkward'', ''awning'',
    ''awoken'', ''axes'', ''axis'', ''axle'', ''aztec'', ''azure'', ''baby'', ''bacon'', ''badge'', ''baffles'',
    ''bagpipe'', ''bailed'', ''bakery'', ''balding'', ''bamboo'', ''banjo'', ''baptism'', ''basin'', ''batch'',
    ''bawled'', ''bays'', ''because'', ''beer'', ''befit'', ''begun'', ''behind'', ''being'', ''below'', ''bemused'',
    ''benches'', ''berries'', ''bested'', ''betting'', ''bevel'', ''beware'', ''beyond'', ''bias'', ''bicycle'',
    ''bids'', ''bifocals'', ''biggest'', ''bikini'', ''bimonthly'', ''binocular'', ''biology'', ''biplane'',
    ''birth'']"

definition english_2 :: "string list" where
  "english_2 = [
    ''biscuit'', ''bite'', ''biweekly'', ''blender'', ''blip'', ''bluntly'', ''boat'', ''bobsled'', ''bodies'',
    ''bogeys'', ''boil'', ''boldly'', ''bomb'', ''border'', ''boss'', ''both'', ''bounced'', ''bovine'', ''bowling'',
    ''boxes'', ''boyfriend'', ''broken'', ''brunt'', ''bubble'', ''buckets'', ''budget'', ''buffet'', ''bugs'',
    ''building'', ''bulb'', ''bumper'', ''bunch'', ''business'', ''butter'', ''buying'', ''buzzer'', ''bygones'',
    ''byline'', ''bypass'', ''cabin'', ''cactus'', ''cadets'', ''cafe'', ''cage'', ''cajun'', ''cake'', ''calamity'',
    ''camp'', ''candy'', ''casket'', ''catch'', ''cause'', ''cavernous'', ''cease'', ''cedar'', ''ceiling'',
    ''cell'', ''cement'', ''cent'', ''certain'', ''chlorine'', ''chrome'', ''cider'', ''cigar'', ''cinema'',
    ''circle'', ''cistern'', ''citadel'', ''civilian'', ''claim'', ''click'', ''clue'', ''coal'', ''cobra'',
    ''cocoa'', ''code'', ''coexist'', ''coffee'', ''cogs'', ''cohesive'', ''coils'', ''colony'', ''comb'', ''cool'',
    ''copy'', ''corrode'', ''costume'', ''cottage'', ''cousin'', ''cowl'', ''criminal'', ''cube'', ''cucumber'',
    ''cuddled'', ''cuffs'', ''cuisine'', ''cunning'', ''cupcake'', ''custom'', ''cycling'', ''cylinder'',
    ''cynical'', ''dabbing'', ''dads'', ''daft'', ''dagger'', ''daily'', ''damp'', ''dangerous'', ''dapper'',
    ''darted'', ''dash'', ''dating'', ''dauntless'', ''dawn'', ''daytime'', ''dazed'', ''debut'', ''decay'',
    ''dedicated'', ''deepest'', ''deftly'', ''degrees'', ''dehydrate'', ''deity'', ''dejected'', ''delayed'',
    ''demonstrate'', ''dented'', ''deodorant'', ''depth'', ''desk'', ''devoid'', ''dewdrop'', ''dexterity'',
    ''dialect'', ''dice'', ''diet'', ''different'', ''digit'', ''dilute'', ''dime'', ''dinner'', ''diode'',
    ''diplomat'', ''directed'', ''distance'', ''ditch'', ''divers'', ''dizzy'', ''doctor'', ''dodge'', ''does'',
    ''dogs'', ''doing'', ''dolphin'', ''domestic'', ''donuts'', ''doorway'', ''dormant'', ''dosage'', ''dotted'',
    ''double'', ''dove'', ''down'', ''dozen'', ''dreams'', ''drinks'', ''drowning'', ''drunk'', ''drying'', ''dual'',
    ''dubbed'', ''duckling'', ''dude'', ''duets'', ''duke'', ''dullness'', ''dummy'', ''dunes'', ''duplex'']"

definition english_3 :: "string list" where
  "english_3 = [
    ''duration'', ''dusted'', ''duties'', ''dwarf'', ''dwelt'', ''dwindling'', ''dying'', ''dynamite'', ''dyslexic'',
    ''each'', ''eagle'', ''earth'', ''easy'', ''eating'', ''eavesdrop'', ''eccentric'', ''echo'', ''eclipse'',
    ''economics'', ''ecstatic'', ''eden'', ''edgy'', ''edited'', ''educated'', ''eels'', ''efficient'', ''eggs'',
    ''egotistic'', ''eight'', ''either'', ''eject'', ''elapse'', ''elbow'', ''eldest'', ''eleven'', ''elite'',
    ''elope'', ''else'', ''eluded'', ''emails'', ''ember'', ''emerge'', ''emit'', ''emotion'', ''empty'',
    ''emulate'', ''energy'', ''enforce'', ''enhanced'', ''enigma'', ''enjoy'', ''enlist'', ''enmity'', ''enough'',
    ''enraged'', ''ensign'', ''entrance'', ''envy'', ''epoxy'', ''equip'', ''erase'', ''erected'', ''erosion'',
    ''error'', ''eskimos'', ''espionage'', ''essential'', ''estate'', ''etched'', ''eternal'', ''ethics'',
    ''etiquette'', ''evaluate'', ''evenings'', ''evicted'', ''evolved'', ''examine'', ''excess'', ''exhale'',
    ''exit'', ''exotic'', ''exquisite'', ''extra'', ''exult'', ''fabrics'', ''factual'', ''fading'', ''fainted'',
    ''faked'', ''fall'', ''family'', ''fancy'', ''farming'', ''fatal'', ''faulty'', ''fawns'', ''faxed'', ''fazed'',
    ''feast'', ''february'', ''federal'', ''feel'', ''feline'', ''females'', ''fences'', ''ferry'', ''festival'',
    ''fetches'', ''fever'', ''fewest'', ''fiat'', ''fibula'', ''fictional'', ''fidget'', ''fierce'', ''fifteen'',
    ''fight'', ''films'', ''firm'', ''fishing'', ''fitting'', ''five'', ''fixate'', ''fizzle'', ''fleet'',
    ''flippant'', ''flying'', ''foamy'', ''focus'', ''foes'', ''foggy'', ''foiled'', ''folding'', ''fonts'',
    ''foolish'', ''fossil'', ''fountain'', ''fowls'', ''foxes'', ''foyer'', ''framed'', ''friendly'', ''frown'',
    ''fruit'', ''frying'', ''fudge'', ''fuel'', ''fugitive'', ''fully'', ''fuming'', ''fungal'', ''furnished'',
    ''fuselage'', ''future'', ''fuzzy'', ''gables'', ''gadget'', ''gags'', ''gained'', ''galaxy'', ''gambit'',
    ''gang'', ''gasp'', ''gather'', ''gauze'', ''gave'', ''gawk'', ''gaze'', ''gearbox'', ''gecko'', ''geek'',
    ''gels'', ''gemstone'', ''general'', ''geometry'', ''germs'', ''gesture'', ''getting'', ''geyser'', ''ghetto'',
    ''ghost'']"

definition english_4 :: "string list" where
  "english_4 = [
    ''giant'', ''giddy'', ''gifts'', ''gigantic'', ''gills'', ''gimmick'', ''ginger'', ''girth'', ''giving'',
    ''glass'', ''gleeful'', ''glide'', ''gnaw'', ''gnome'', ''goat'', ''goblet'', ''godfather'', ''goes'',
    ''goggles'', ''going'', ''goldfish'', ''gone'', ''goodbye'', ''gopher'', ''gorilla'', ''gossip'', ''gotten'',
    ''gourmet'', ''governing'', ''gown'', ''greater'', ''grunt'', ''guarded'', ''guest'', ''guide'', ''gulp'',
    ''gumball'', ''guru'', ''gusts'', ''gutter'', ''guys'', ''gymnast'', ''gypsy'', ''gyrate'', ''habitat'',
    ''hacksaw'', ''haggled'', ''hairy'', ''hamburger'', ''happens'', ''hashing'', ''hatchet'', ''haunted'',
    ''having'', ''hawk'', ''haystack'', ''hazard'', ''hectare'', ''hedgehog'', ''heels'', ''hefty'', ''height'',
    ''hemlock'', ''hence'', ''heron'', ''hesitate'', ''hexagon'', ''hickory'', ''hiding'', ''highway'', ''hijack'',
    ''hiker'', ''hills'', ''himself'', ''hinder'', ''hippo'', ''hire'', ''history'', ''hitched'', ''hive'', ''hoax'',
    ''hobby'', ''hockey'', ''hoisting'', ''hold'', ''honked'', ''hookup'', ''hope'', ''hornet'', ''hospital'',
    ''hotel'', ''hounded'', ''hover'', ''howls'', ''hubcaps'', ''huddle'', ''huge'', ''hull'', ''humid'', ''hunter'',
    ''hurried'', ''husband'', ''huts'', ''hybrid'', ''hydrogen'', ''hyper'', ''iceberg'', ''icing'', ''icon'',
    ''identity'', ''idiom'', ''idled'', ''idols'', ''igloo'', ''ignore'', ''iguana'', ''illness'', ''imagine'',
    ''imbalance'', ''imitate'', ''impel'', ''inactive'', ''inbound'', ''incur'', ''industrial'', ''inexact'',
    ''inflamed'', ''ingested'', ''initiate'', ''injury'', ''inkling'', ''inline'', ''inmate'', ''innocent'',
    ''inorganic'', ''input'', ''inquest'', ''inroads'', ''insult'', ''intended'', ''inundate'', ''invoke'',
    ''inwardly'', ''ionic'', ''irate'', ''iris'', ''irony'', ''irritate'', ''island'', ''isolated'', ''issued'',
    ''italics'', ''itches'', ''items'', ''itinerary'', ''itself'', ''ivory'', ''jabbed'', ''jackets'', ''jaded'',
    ''jagged'', ''jailed'', ''jamming'', ''january'', ''jargon'', ''jaunt'', ''javelin'', ''jaws'', ''jazz'',
    ''jeans'', ''jeers'', ''jellyfish'', ''jeopardy'', ''jerseys'', ''jester'', ''jetting'', ''jewels'', ''jigsaw'',
    ''jingle'', ''jittery'', ''jive'']"

definition english_5 :: "string list" where
  "english_5 = [
    ''jobs'', ''jockey'', ''jogger'', ''joining'', ''joking'', ''jolted'', ''jostle'', ''journal'', ''joyous'',
    ''jubilee'', ''judge'', ''juggled'', ''juicy'', ''jukebox'', ''july'', ''jump'', ''junk'', ''jury'', ''justice'',
    ''juvenile'', ''kangaroo'', ''karate'', ''keep'', ''kennel'', ''kept'', ''kernels'', ''kettle'', ''keyboard'',
    ''kickoff'', ''kidneys'', ''king'', ''kiosk'', ''kisses'', ''kitchens'', ''kiwi'', ''knapsack'', ''knee'',
    ''knife'', ''knowledge'', ''knuckle'', ''koala'', ''laboratory'', ''ladder'', ''lagoon'', ''lair'', ''lakes'',
    ''lamb'', ''language'', ''laptop'', ''large'', ''last'', ''later'', ''launching'', ''lava'', ''lawsuit'',
    ''layout'', ''lazy'', ''lectures'', ''ledge'', ''leech'', ''left'', ''legion'', ''leisure'', ''lemon'',
    ''lending'', ''leopard'', ''lesson'', ''lettuce'', ''lexicon'', ''liar'', ''library'', ''licks'', ''lids'',
    ''lied'', ''lifestyle'', ''light'', ''likewise'', ''lilac'', ''limits'', ''linen'', ''lion'', ''lipstick'',
    ''liquid'', ''listen'', ''lively'', ''loaded'', ''lobster'', ''locker'', ''lodge'', ''lofty'', ''logic'',
    ''loincloth'', ''long'', ''looking'', ''lopped'', ''lordship'', ''losing'', ''lottery'', ''loudly'', ''love'',
    ''lower'', ''loyal'', ''lucky'', ''luggage'', ''lukewarm'', ''lullaby'', ''lumber'', ''lunar'', ''lurk'',
    ''lush'', ''luxury'', ''lymph'', ''lynx'', ''lyrics'', ''macro'', ''madness'', ''magically'', ''mailed'',
    ''major'', ''makeup'', ''malady'', ''mammal'', ''maps'', ''masterful'', ''match'', ''maul'', ''maverick'',
    ''maximum'', ''mayor'', ''maze'', ''meant'', ''mechanic'', ''medicate'', ''meeting'', ''megabyte'', ''melting'',
    ''memoir'', ''menu'', ''merger'', ''mesh'', ''metro'', ''mews'', ''mice'', ''midst'', ''mighty'', ''mime'',
    ''mirror'', ''misery'', ''mittens'', ''mixture'', ''moat'', ''mobile'', ''mocked'', ''mohawk'', ''moisture'',
    ''molten'', ''moment'', ''money'', ''moon'', ''mops'', ''morsel'', ''mostly'', ''motherly'', ''mouth'',
    ''movement'', ''mowing'', ''much'', ''muddy'', ''muffin'', ''mugged'', ''mullet'', ''mumble'', ''mundane'',
    ''muppet'', ''mural'', ''musical'', ''muzzle'', ''myriad'', ''mystery'', ''myth'', ''nabbing'']"

definition english_6 :: "string list" where
  "english_6 = [
    ''nagged'', ''nail'', ''names'', ''nanny'', ''napkin'', ''narrate'', ''nasty'', ''natural'', ''nautical'',
    ''navy'', ''nearby'', ''necklace'', ''needed'', ''negative'', ''neither'', ''neon'', ''nephew'', ''nerves'',
    ''nestle'', ''network'', ''neutral'', ''never'', ''newt'', ''nexus'', ''nibs'', ''niche'', ''niece'', ''nifty'',
    ''nightly'', ''nimbly'', ''nineteen'', ''nirvana'', ''nitrogen'', ''nobody'', ''nocturnal'', ''nodes'',
    ''noises'', ''nomad'', ''noodles'', ''northern'', ''nostril'', ''noted'', ''nouns'', ''novelty'', ''nowhere'',
    ''nozzle'', ''nuance'', ''nucleus'', ''nudged'', ''nugget'', ''nuisance'', ''null'', ''number'', ''nuns'',
    ''nurse'', ''nutshell'', ''nylon'', ''oaks'', ''oars'', ''oasis'', ''oatmeal'', ''obedient'', ''object'',
    ''obliged'', ''obnoxious'', ''observant'', ''obtains'', ''obvious'', ''occur'', ''ocean'', ''october'', ''odds'',
    ''odometer'', ''offend'', ''often'', ''oilfield'', ''ointment'', ''okay'', ''older'', ''olive'', ''olympics'',
    ''omega'', ''omission'', ''omnibus'', ''onboard'', ''oncoming'', ''oneself'', ''ongoing'', ''onion'', ''online'',
    ''onslaught'', ''onto'', ''onward'', ''oozed'', ''opacity'', ''opened'', ''opposite'', ''optical'', ''opus'',
    ''orange'', ''orbit'', ''orchid'', ''orders'', ''organs'', ''origin'', ''ornament'', ''orphans'', ''oscar'',
    ''ostrich'', ''otherwise'', ''otter'', ''ouch'', ''ought'', ''ounce'', ''ourselves'', ''oust'', ''outbreak'',
    ''oval'', ''oven'', ''owed'', ''owls'', ''owner'', ''oxidant'', ''oxygen'', ''oyster'', ''ozone'', ''pact'',
    ''paddles'', ''pager'', ''pairing'', ''palace'', ''pamphlet'', ''pancakes'', ''paper'', ''paradise'', ''pastry'',
    ''patio'', ''pause'', ''pavements'', ''pawnshop'', ''payment'', ''peaches'', ''pebbles'', ''peculiar'',
    ''pedantic'', ''peeled'', ''pegs'', ''pelican'', ''pencil'', ''people'', ''pepper'', ''perfect'', ''pests'',
    ''petals'', ''phase'', ''pheasants'', ''phone'', ''phrases'', ''physics'', ''piano'', ''picked'', ''pierce'',
    ''pigment'', ''piloted'', ''pimple'', ''pinched'', ''pioneer'', ''pipeline'', ''pirate'', ''pistons'',
    ''pitched'', ''pivot'', ''pixels'', ''pizza'', ''playful'', ''pledge'', ''pliers'', ''plotting'', ''plus'',
    ''plywood'', ''poaching'']"

definition english_7 :: "string list" where
  "english_7 = [
    ''pockets'', ''podcast'', ''poetry'', ''point'', ''poker'', ''polar'', ''ponies'', ''pool'', ''popular'',
    ''portents'', ''possible'', ''potato'', ''pouch'', ''poverty'', ''powder'', ''pram'', ''present'', ''pride'',
    ''problems'', ''pruned'', ''prying'', ''psychic'', ''public'', ''puck'', ''puddle'', ''puffin'', ''pulp'',
    ''pumpkins'', ''punch'', ''puppy'', ''purged'', ''push'', ''putty'', ''puzzled'', ''pylons'', ''pyramid'',
    ''python'', ''queen'', ''quick'', ''quote'', ''rabbits'', ''racetrack'', ''radar'', ''rafts'', ''rage'',
    ''railway'', ''raking'', ''rally'', ''ramped'', ''randomly'', ''rapid'', ''rarest'', ''rash'', ''rated'',
    ''ravine'', ''rays'', ''razor'', ''react'', ''rebel'', ''recipe'', ''reduce'', ''reef'', ''refer'', ''regular'',
    ''reheat'', ''reinvest'', ''rejoices'', ''rekindle'', ''relic'', ''remedy'', ''renting'', ''reorder'',
    ''repent'', ''request'', ''reruns'', ''rest'', ''return'', ''reunion'', ''revamp'', ''rewind'', ''rhino'',
    ''rhythm'', ''ribbon'', ''richly'', ''ridges'', ''rift'', ''rigid'', ''rims'', ''ringing'', ''riots'',
    ''ripped'', ''rising'', ''ritual'', ''river'', ''roared'', ''robot'', ''rockets'', ''rodent'', ''rogue'',
    ''roles'', ''romance'', ''roomy'', ''roped'', ''roster'', ''rotate'', ''rounded'', ''rover'', ''rowboat'',
    ''royal'', ''ruby'', ''rudely'', ''ruffled'', ''rugged'', ''ruined'', ''ruling'', ''rumble'', ''runway'',
    ''rural'', ''rustled'', ''ruthless'', ''sabotage'', ''sack'', ''sadness'', ''safety'', ''saga'', ''sailor'',
    ''sake'', ''salads'', ''sample'', ''sanity'', ''sapling'', ''sarcasm'', ''sash'', ''satin'', ''saucepan'',
    ''saved'', ''sawmill'', ''saxophone'', ''sayings'', ''scamper'', ''scenic'', ''school'', ''science'', ''scoop'',
    ''scrub'', ''scuba'', ''seasons'', ''second'', ''sedan'', ''seeded'', ''segments'', ''seismic'', ''selfish'',
    ''semifinal'', ''sensible'', ''september'', ''sequence'', ''serving'', ''session'', ''setup'', ''seventh'',
    ''sewage'', ''shackles'', ''shelter'', ''shipped'', ''shocking'', ''shrugged'', ''shuffled'', ''shyness'',
    ''siblings'', ''sickness'', ''sidekick'', ''sieve'', ''sifting'', ''sighting'', ''silk'', ''simplest'',
    ''sincerely'', ''sipped'', ''siren'', ''situated'']"

definition english_8 :: "string list" where
  "english_8 = [
    ''sixteen'', ''sizes'', ''skater'', ''skew'', ''skirting'', ''skulls'', ''skydive'', ''slackens'', ''sleepless'',
    ''slid'', ''slower'', ''slug'', ''smash'', ''smelting'', ''smidgen'', ''smog'', ''smuggled'', ''snake'',
    ''sneeze'', ''sniff'', ''snout'', ''snug'', ''soapy'', ''sober'', ''soccer'', ''soda'', ''software'', ''soggy'',
    ''soil'', ''solved'', ''somewhere'', ''sonic'', ''soothe'', ''soprano'', ''sorry'', ''southern'', ''sovereign'',
    ''sowed'', ''soya'', ''space'', ''speedy'', ''sphere'', ''spiders'', ''splendid'', ''spout'', ''sprig'',
    ''spud'', ''spying'', ''square'', ''stacking'', ''stellar'', ''stick'', ''stockpile'', ''strained'',
    ''stunning'', ''stylishly'', ''subtly'', ''succeed'', ''suddenly'', ''suede'', ''suffice'', ''sugar'',
    ''suitcase'', ''sulking'', ''summon'', ''sunken'', ''superior'', ''surfer'', ''sushi'', ''suture'', ''swagger'',
    ''swept'', ''swiftly'', ''sword'', ''swung'', ''syllabus'', ''symptoms'', ''syndrome'', ''syringe'', ''system'',
    ''taboo'', ''tacit'', ''tadpoles'', ''tagged'', ''tail'', ''taken'', ''talent'', ''tamper'', ''tanks'',
    ''tapestry'', ''tarnished'', ''tasked'', ''tattoo'', ''taunts'', ''tavern'', ''tawny'', ''taxi'', ''teardrop'',
    ''technical'', ''tedious'', ''teeming'', ''tell'', ''template'', ''tender'', ''tepid'', ''tequila'',
    ''terminal'', ''testing'', ''tether'', ''textbook'', ''thaw'', ''theatrics'', ''thirsty'', ''thorn'',
    ''threaten'', ''thumbs'', ''thwart'', ''ticket'', ''tidy'', ''tiers'', ''tiger'', ''tilt'', ''timber'',
    ''tinted'', ''tipsy'', ''tirade'', ''tissue'', ''titans'', ''toaster'', ''tobacco'', ''today'', ''toenail'',
    ''toffee'', ''together'', ''toilet'', ''token'', ''tolerant'', ''tomorrow'', ''tonic'', ''toolbox'', ''topic'',
    ''torch'', ''tossed'', ''total'', ''touchy'', ''towel'', ''toxic'', ''toyed'', ''trash'', ''trendy'', ''tribal'',
    ''trolling'', ''truth'', ''trying'', ''tsunami'', ''tubes'', ''tucks'', ''tudor'', ''tuesday'', ''tufts'',
    ''tugs'', ''tuition'', ''tulips'', ''tumbling'', ''tunnel'', ''turnip'', ''tusks'', ''tutor'', ''tuxedo'',
    ''twang'', ''tweezers'', ''twice'', ''twofold'', ''tycoon'', ''typist'', ''tyrant'', ''ugly'', ''ulcers'',
    ''ultimate'', ''umbrella'', ''umpire'']"

definition english_9 :: "string list" where
  "english_9 = [
    ''unafraid'', ''unbending'', ''uncle'', ''under'', ''uneven'', ''unfit'', ''ungainly'', ''unhappy'', ''union'',
    ''unjustly'', ''unknown'', ''unlikely'', ''unmask'', ''unnoticed'', ''unopened'', ''unplugs'', ''unquoted'',
    ''unrest'', ''unsafe'', ''until'', ''unusual'', ''unveil'', ''unwind'', ''unzip'', ''upbeat'', ''upcoming'',
    ''update'', ''upgrade'', ''uphill'', ''upkeep'', ''upload'', ''upon'', ''upper'', ''upright'', ''upstairs'',
    ''uptight'', ''upwards'', ''urban'', ''urchins'', ''urgent'', ''usage'', ''useful'', ''usher'', ''using'',
    ''usual'', ''utensils'', ''utility'', ''utmost'', ''utopia'', ''uttered'', ''vacation'', ''vague'', ''vain'',
    ''value'', ''vampire'', ''vane'', ''vapidly'', ''vary'', ''vastness'', ''vats'', ''vaults'', ''vector'',
    ''veered'', ''vegan'', ''vehicle'', ''vein'', ''velvet'', ''venomous'', ''verification'', ''vessel'',
    ''veteran'', ''vexed'', ''vials'', ''vibrate'', ''victim'', ''video'', ''viewpoint'', ''vigilant'', ''viking'',
    ''village'', ''vinegar'', ''violin'', ''vipers'', ''virtual'', ''visited'', ''vitals'', ''vivid'', ''vixen'',
    ''vocal'', ''vogue'', ''voice'', ''volcano'', ''vortex'', ''voted'', ''voucher'', ''vowels'', ''voyage'',
    ''vulture'', ''wade'', ''waffle'', ''wagtail'', ''waist'', ''waking'', ''wallets'', ''wanted'', ''warped'',
    ''washing'', ''water'', ''waveform'', ''waxing'', ''wayside'', ''weavers'', ''website'', ''wedge'', ''weekday'',
    ''weird'', ''welders'', ''went'', ''wept'', ''were'', ''western'', ''wetsuit'', ''whale'', ''when'', ''whipped'',
    ''whole'', ''wickets'', ''width'', ''wield'', ''wife'', ''wiggle'', ''wildly'', ''winter'', ''wipeout'',
    ''wiring'', ''wise'', ''withdrawn'', ''wives'', ''wizard'', ''wobbly'', ''woes'', ''woken'', ''wolf'',
    ''womanly'', ''wonders'', ''woozy'', ''worry'', ''wounded'', ''woven'', ''wrap'', ''wrist'', ''wrong'',
    ''yacht'', ''yahoo'', ''yanks'', ''yard'', ''yawning'', ''yearbook'', ''yellow'', ''yesterday'', ''yeti'',
    ''yields'', ''yodel'', ''yoga'', ''younger'', ''yoyo'', ''zapped'', ''zeal'', ''zebra'', ''zero'', ''zesty'',
    ''zigzags'', ''zinger'', ''zippers'', ''zodiac'', ''zombie'', ''zones'', ''zoom'']"

definition english_words :: "string list" where
  "english_words = english_1 @ english_2 @ english_3 @ english_4 @ english_5 @ english_6 @ english_7 @ english_8 @ english_9"

definition English :: language where
  "English = new_language (map of_char ''English'') (map of_char ''English'') (map (map of_char) english_words) 3"

subsection \<open>Letters\<close>

text \<open>Lower-case letters and their order, on the bits of a character.\<close>

fun letter :: "char \<Rightarrow> bool" where
  "letter (Char b0 b1 b2 b3 b4 b5 b6 b7) \<longleftrightarrow>
     \<not> b7 \<and> b6 \<and> b5 \<and> (b4 \<or> b3 \<or> b2 \<or> b1 \<or> b0) \<and> \<not> (b4 \<and> b3 \<and> (b2 \<or> b1 \<and> b0))"

fun letter_less :: "char \<Rightarrow> char \<Rightarrow> bool \<Rightarrow> bool" where
  "letter_less (Char a0 a1 a2 a3 a4 _ _ _) (Char b0 b1 b2 b3 b4 _ _ _) rest \<longleftrightarrow>
     (if a4 \<noteq> b4 then b4 else if a3 \<noteq> b3 then b3 else if a2 \<noteq> b2 then b2 else if a1 \<noteq> b1 then b1 else if a0 \<noteq> b0 then b0 else rest)"

fun letter_code :: "char \<Rightarrow> nat" where
  "letter_code (Char b0 b1 b2 b3 b4 _ _ _) = of_bool b0 + 2 * of_bool b1 + 4 * of_bool b2 + 8 * of_bool b3 + 16 * of_bool b4"

fun before :: "string \<Rightarrow> string \<Rightarrow> bool" where
  "before (a # b # c # _) (d # e # f # _) \<longleftrightarrow> letter_less a d (letter_less b e (letter_less c f False))"
| "before _ _ \<longleftrightarrow> False"

text \<open>Words in ascending order from \<open>v\<close>, which is not one of them, to the last one, \<open>u\<close>.\<close>

fun ascends :: "string \<Rightarrow> string list \<Rightarrow> string \<Rightarrow> bool" where
  "ascends v [] u \<longleftrightarrow> v = u"
| "ascends v (w # ws) u \<longleftrightarrow> before v w \<and> ascends w ws u"

fun prefix_key :: "string \<Rightarrow> nat" where
  "prefix_key (a # b # c # _) = letter_code c + 32 * letter_code b + 1024 * letter_code a"
| "prefix_key _ = 0"

lemma bit_less: "m < k \<Longrightarrow> n < k \<Longrightarrow> (if a \<noteq> b then b else m < n) \<longleftrightarrow> m + k * of_bool a < n + k * of_bool b" for m n k :: nat
  by (cases a; cases b) auto

lemma letter_code_lt: "letter_code c < 32"
  by (cases c) (simp add: of_bool_def)

lemma letter_less_code:
  assumes "m < k" "n < k"
  shows "letter_less x y (m < n) \<longleftrightarrow> m + k * letter_code x < n + k * letter_code y"
proof -
  obtain a0 a1 a2 a3 a4 a5 a6 a7 where x: "x = Char a0 a1 a2 a3 a4 a5 a6 a7" by (cases x)
  obtain b0 b1 b2 b3 b4 b5 b6 b7 where y: "y = Char b0 b1 b2 b3 b4 b5 b6 b7" by (cases y)
  have k: "of_bool b * k \<le> k" "k * of_bool b \<le> k" for b by (cases b; simp)+
  define m1 n1 where mn1: "m1 = m + k * of_bool a0" "n1 = n + k * of_bool b0"
  have 1: "m1 < 2 * k" "n1 < 2 * k" using assms k by (simp_all add: mn1 of_bool_def)
  define m2 n2 where mn2: "m2 = m1 + 2 * k * of_bool a1" "n2 = n1 + 2 * k * of_bool b1"
  have 2: "m2 < 4 * k" "n2 < 4 * k" using 1 by (simp_all add: mn2 of_bool_def)
  define m3 n3 where mn3: "m3 = m2 + 4 * k * of_bool a2" "n3 = n2 + 4 * k * of_bool b2"
  have 3: "m3 < 8 * k" "n3 < 8 * k" using 2 by (simp_all add: mn3 of_bool_def)
  define m4 n4 where mn4: "m4 = m3 + 8 * k * of_bool a3" "n4 = n3 + 8 * k * of_bool b3"
  have 4: "m4 < 16 * k" "n4 < 16 * k" using 3 by (simp_all add: mn4 of_bool_def)
  have "letter_less x y (m < n) \<longleftrightarrow> m4 + 16 * k * of_bool a4 < n4 + 16 * k * of_bool b4"
    unfolding x y letter_less.simps bit_less [OF assms, of a0 b0, folded mn1] bit_less [OF 1, of a1 b1, folded mn2]
      bit_less [OF 2, of a2 b2, folded mn3] bit_less [OF 3, of a3 b3, folded mn4] bit_less [OF 4, of a4 b4] ..
  then show ?thesis by (simp add: x y mn1 mn2 mn3 mn4 algebra_simps)
qed

lemma before_key: "before v w \<Longrightarrow> prefix_key v < prefix_key w"
proof -
  assume b: "before v w"
  then obtain a b c v' d e f w' where vw: "v = a # b # c # v'" "w = d # e # f # w'" by (auto elim: before.elims)
  let ?c = letter_code
  have lt: "?c x + 32 * ?c y < 1024" for x y using letter_code_lt [of x] letter_code_lt [of y] by simp
  have 3: "letter_less c f False \<longleftrightarrow> ?c c < ?c f" using letter_less_code [of 0 1 0 c f] by simp
  show ?thesis
    using b unfolding vw before.simps 3 letter_less_code [OF letter_code_lt letter_code_lt] letter_less_code [OF lt lt] by simp
qed

lemma ascends_append: "ascends v xs u \<Longrightarrow> ascends u ys t \<Longrightarrow> ascends v (xs @ ys) t"
  by (induction xs arbitrary: v) auto

lemma ascends_distinct: "ascends v ws u \<Longrightarrow> distinct (map (take 3) ws)"
proof -
  assume "ascends v ws u"
  then have "sorted_wrt (\<lambda>v w. prefix_key v < prefix_key w) (v # ws)"
  proof (induction v ws u rule: ascends.induct)
    case (2 v w ws u)
    then show ?case using before_key [of v w] by (auto intro: less_trans)
  qed simp
  then have "distinct (map prefix_key ws)" by (induction ws) auto
  moreover have "prefix_key w = prefix_key (take 3 w)" for w by (cases w rule: prefix_key.cases) (auto simp: numeral_3_eq_3)
  ultimately have "distinct (map (prefix_key \<circ> take 3) ws)" by (simp add: comp_def)
  then show ?thesis by (metis distinct_map map_map)
qed

subsection \<open>The parts of the list\<close>

definition fine_part :: "string \<Rightarrow> string list \<Rightarrow> string \<Rightarrow> bool" where
  "fine_part v ws u \<longleftrightarrow> list_all (\<lambda>w. 4 \<le> length w \<and> list_all letter w) ws \<and> ascends v ws u"

lemma fine_append: "fine_part v xs u \<Longrightarrow> fine_part u ys t \<Longrightarrow> fine_part v (xs @ ys) t"
  by (auto simp: fine_part_def ascends_append)

lemma english_parts:
  "fine_part ''aaa'' english_1 ''birth''"
  "fine_part ''birth'' english_2 ''duplex''"
  "fine_part ''duplex'' english_3 ''ghost''"
  "fine_part ''ghost'' english_4 ''jive''"
  "fine_part ''jive'' english_5 ''nabbing''"
  "fine_part ''nabbing'' english_6 ''poaching''"
  "fine_part ''poaching'' english_7 ''situated''"
  "fine_part ''situated'' english_8 ''umpire''"
  "fine_part ''umpire'' english_9 ''zoom''"
  by (simp_all add: fine_part_def english_1_def english_2_def english_3_def english_4_def english_5_def english_6_def english_7_def
      english_8_def english_9_def)

lemma english_lengths:
  "length english_1 = 181" "length english_2 = 181" "length english_3 = 181" "length english_4 = 181" "length english_5 = 181"
  "length english_6 = 181" "length english_7 = 181" "length english_8 = 181" "length english_9 = 178"
  by code_simp+

lemma english_words_fine: "fine_part ''aaa'' english_words ''zoom''" "length english_words = 1626"
  unfolding english_words_def by (rule fine_append [OF english_parts(1) fine_append [OF english_parts(2) fine_append [OF english_parts(3) fine_append [OF english_parts(4) fine_append [OF english_parts(5) fine_append [OF english_parts(6) fine_append [OF english_parts(7) fine_append [OF english_parts(8) english_parts(9)]]]]]]]]) (simp add: english_lengths)

subsection \<open>Populating the maps\<close>

lemma letter_byte:
  assumes "letter c"
  shows "97 \<le> (of_char c :: nat) \<and> (of_char c :: nat) \<le> 122"
  using assms by (cases c) (auto simp: of_char_Char)

definition letter_code8 :: "u8 \<Rightarrow> bool" where
  "letter_code8 b \<longleftrightarrow> 97 \<le> b \<and> b \<le> 122"

lemma letter_code8_props:
  assumes "letter_code8 b"
  shows "b AND 0x80 = 0" "b AND 0xc0 \<noteq> 0x80" "\<not> isspace b" "utf8_encode (ucast b) = Some [b]" "97 \<le> (ucast b :: u32) \<and> (ucast b :: u32) \<le> 122"
proof -
  let ?P = "\<lambda>b :: u8. letter_code8 b \<longrightarrow> b AND 0x80 = 0 \<and> b AND 0xc0 \<noteq> 0x80 \<and> \<not> isspace b \<and> utf8_encode (ucast b) = Some [b] \<and>
    97 \<le> (ucast b :: u32) \<and> (ucast b :: u32) \<le> 122"
  have P: "list_all (\<lambda>n. ?P (97 + of_nat n)) [0..<26]" by code_simp
  have b: "b = 97 + of_nat (unat b - 97)" using assms by (simp add: letter_code8_def word_le_nat_alt of_nat_diff)
  have "unat b - 97 < 26" using assms by (auto simp: letter_code8_def word_le_nat_alt)
  from all_below [OF P this, folded b] have "?P b" .
  then show "b AND 0x80 = 0" "b AND 0xc0 \<noteq> 0x80" "\<not> isspace b" "utf8_encode (ucast b) = Some [b]" "97 \<le> (ucast b :: u32) \<and> (ucast b :: u32) \<le> 122"
    using assms by simp_all
qed

lemma canonical_letters:
  assumes "\<And>c. 97 \<le> c \<Longrightarrow> c \<le> 122 \<Longrightarrow> lower c = c"
  shows "list_all letter_code8 w \<Longrightarrow> utf8canonical lower w = Some w"
  by (induction w) (auto simp: letter_code8_props assms utf8_append_def)

lemma prefix_letters: "list_all letter_code8 w \<Longrightarrow> utf8prefix w n = take n w"
proof (induction w n rule: utf8prefix.induct)
  case (3 c s n)
  then have "takeWhile (\<lambda>b. b AND 0xc0 = 0x80) s = []" "dropWhile (\<lambda>b. b AND 0xc0 = 0x80) s = s"
    by (cases s; simp add: letter_code8_props)+
  then show ?case using 3 by simp
qed simp_all

lemma populate_letters:
  assumes "\<And>c. 97 \<le> c \<Longrightarrow> c \<le> 122 \<Longrightarrow> lower c = c"
    and "\<forall>w \<in> set ws. list_all letter_code8 w \<and> unique_prefix_length l \<le> length w \<and> trimmed_word_map l (take (unique_prefix_length l) w) = None"
    and "distinct (map (take (unique_prefix_length l)) ws)"
  shows "\<exists>l'. populate_from lower short False ii ws l = Some l'"
  using assms(2,3)
proof (induction ws arbitrary: ii l)
  case (Cons w ws)
  let ?u = "unique_prefix_length l"
  have w: "list_all letter_code8 w" "list_all letter_code8 (take ?u w)" using Cons.prems(1) by (auto simp: list_all_iff dest: in_set_takeD)
  have fresh: "\<forall>v \<in> set ws. take ?u v \<noteq> take ?u w" using Cons.prems(2) by (metis distinct.simps(2) image_eqI list.set_map list.simps(9))
  have "\<exists>l'. populate_from lower short False (Suc ii) ws (l\<lparr>word_map := assign w w (of_nat ii) (word_map l),
      trimmed_word_map := assign (take ?u w) (take ?u w) (of_nat ii) (trimmed_word_map l)\<rparr>) = Some l'"
    using Cons.prems fresh by (intro Cons.IH) (auto simp: assign_def)
  then show ?case
    using Cons.prems(1) by (simp add: trim_word_prefix prefix_letters [OF w(1)] canonical_letters [OF assms(1)] w Let_def)
qed simp

lemma unat_of_char: "unat (of_char c :: u8) = of_char c"
proof -
  have "unat (of_nat (of_char c) :: u8) = of_char c" unfolding unat_of_nat by simp
  then show ?thesis unfolding of_nat_of_char .
qed

lemma bytes_of_char_inj: "inj (map (of_char :: char \<Rightarrow> u8))"
proof (rule injI)
  have "inj (of_char :: char \<Rightarrow> u8)"
  proof (rule injI)
    fix c d :: char
    assume "(of_char c :: u8) = of_char d"
    then have "unat (of_char c :: u8) = unat (of_char d :: u8)" by simp
    then show "c = d" by (simp add: unat_of_char)
  qed
  then show "xs = ys" if "map (of_char :: char \<Rightarrow> u8) xs = map of_char ys" for xs ys using that by (simp add: inj_map_eq_map)
qed

lemma letter_code8_of_char: "letter c \<Longrightarrow> letter_code8 (of_char c)"
  using letter_byte [of c] by (simp add: letter_code8_def word_le_nat_alt unat_of_char)

lemma English_fields:
  "word_list English = map (map of_char) english_words" "unique_prefix_length English = 3" "trimmed_word_map English = Map.empty"
  by (simp_all only: English_def new_language_def language.simps)

lemma english_letters_populate:
  assumes "\<forall>c. 97 \<le> c \<and> c \<le> 122 \<longrightarrow> lower c = c"
  shows "\<exists>l. populate_maps lower False False English = Some l \<and> word_list l = map (map of_char) english_words \<and>
    (\<forall>w \<in> set (word_list l). plain_word w)"
proof -
  let ?ws = "map (map of_char) english_words :: bytes list"
  have fine: "list_all (\<lambda>w. 4 \<le> length w \<and> list_all letter w) english_words" "ascends ''aaa'' english_words ''zoom''"
    using english_words_fine(1) by (simp_all add: fine_part_def)
  have ws: "\<forall>w \<in> set ?ws. list_all letter_code8 w \<and> 4 \<le> length w"
    using fine(1) by (auto simp: list_all_iff letter_code8_of_char)
  have "distinct (map (map of_char) (map (take 3) english_words) :: bytes list)"
    by (rule distinct_map [THEN iffD2], rule conjI, rule ascends_distinct [OF fine(2)], rule inj_on_subset [OF bytes_of_char_inj subset_UNIV])
  then have "distinct (map (take 3) ?ws)" by (simp add: take_map comp_def)
  moreover have "\<forall>w \<in> set ?ws. list_all letter_code8 w \<and> 3 \<le> length w" using ws by force
  moreover have "lower c = c" if "97 \<le> c" "c \<le> 122" for c using assms that by blast
  ultimately have "\<exists>l. populate_from lower False False 0 ?ws English = Some l"
    by (intro populate_letters) (simp_all add: English_fields)
  then obtain l where "populate_from lower False False 0 ?ws English = Some l" ..
  then have l: "populate_maps lower False False English = Some l"
    by (simp add: populate_maps_def NWORDS_def English_fields english_words_fine(2))
  moreover have "word_list l = ?ws" using populate_maps_indexes(3) [OF l] by (simp only: English_fields)
  moreover have "\<forall>w \<in> set ?ws. plain_word w" using ws by (auto simp: plain_word_def list_all_iff letter_code8_props)
  ultimately show ?thesis by metis
qed

text \<open>C31: the English word list is populated without an exception, whatever the locale makes of characters
  other than lower-case letters, and its words are not empty and hold no white space.\<close>
theorem english_populates:
  assumes "\<forall>c. 97 \<le> c \<and> c \<le> 122 \<longrightarrow> lower c = c"
  shows "\<exists>l. populate_maps lower False False English = Some l \<and> word_list l = map (map of_char) english_words \<and>
    (\<forall>w \<in> set (word_list l). plain_word w)"
  by (rule english_letters_populate [OF assms])

theorem english_populates_witness:
  "\<exists>l. populate_maps (\<lambda>c. c) False False English = Some l \<and> word_list l = map (map of_char) english_words \<and>
    (\<forall>w \<in> set (word_list l). plain_word w)"
  by (rule english_populates) simp

text \<open>C15: with a populated language whose prefixes differ and whose words are not empty and hold no white
  space, every non-empty secret of a multiple of four bytes is written as words, and reading them with
  any list of languages gives the secret and the language back, as long as the search passes over the
  languages listed before it.\<close>
theorem seed_roundtrip:
  assumes "populate_maps lower short False l0 = Some l" "\<forall>w \<in> set (word_list l). plain_word w"
    and "List.find (\<lambda>l. name = language_name l \<or> name = english_language_name l) (rev gls) = Some l"
    and "length src mod 4 = 0" "src \<noteq> []"
  shows "\<exists>out. bytes_to_words lower crc gls src name = Some out \<and>
    ((\<forall>l' \<in> set pre. passes_over lower crc (split out) l') \<longrightarrow>
     words_to_bytes lower crc (pre @ l # post) out (length src) duplicate = Some (src, language_name l))"
  by (rule seed_written_read [OF assms])

theorem seed_roundtrip_witness:
  "\<exists>l out. bytes_to_words (\<lambda>c. c) (\<lambda>_. 7) [l] [1, 2, 3, 4] (map of_char ''English'') = Some out \<and>
    words_to_bytes (\<lambda>c. c) (\<lambda>_. 7) [l] out 4 False = Some ([1, 2, 3, 4], map of_char ''English'')"
proof -
  obtain l where l: "populate_maps (\<lambda>c. c) False False English = Some l" "\<forall>w \<in> set (word_list l). plain_word w"
    using english_letters_populate [of "\<lambda>c. c"] by auto
  have "language_name l = map of_char ''English''"
    using populate_maps_indexes(4) [OF l(1)] by (simp only: English_def new_language_def language.simps)
  then show ?thesis
    using seed_roundtrip [OF l, of "map of_char ''English''" "[l]" "[1, 2, 3, 4]" "\<lambda>_. 7" "[]" "[]" False]
    by (auto simp: eval_nat_numeral simp del: list.map)
qed

end
