(* ===== verification/Matrix_Rain.thy ===== *)
theory Matrix_Rain
  imports Hidering_Prelude Complex_Main
begin

section \<open>The animated page background (\<open>docs/matrix.js\<close>)\<close>

text \<open>
  The script's variables, the 2D context it paints on and the browser objects it calls form one
  record. A JavaScript number is an \<open>int\<close>, a \<open>nat\<close> or a \<open>rat\<close>; \<open>Math.random\<close> is a
  sequence of rationals in \<open>[0, 1)\<close> read one by one; painting appends to a history. Frame
  callbacks, timeouts and the three event listeners are the steps of a transition system, in the
  order the browser happens to run them.
\<close>

type_synonym js_string = "nat list"

datatype paint =
    Cleared
  | Rect string int int int int
  | Text string string rat js_string int int

subsection \<open>Tunables\<close>

definition FONT_SIZE :: int where "FONT_SIZE = 16"
definition COL_WIDTH :: int where "COL_WIDTH = 16"
definition COLOR :: string where "COLOR = ''#00FF41''"
definition HEAD_COLOR :: string where "HEAD_COLOR = ''#CCFFCC''"
definition VEIL :: string where "VEIL = ''rgba(0,0,0,0.08)''"
definition RESET_CHANCE :: rat where "RESET_CHANCE = 25 / 1000"
definition FRAME_MS :: rat where "FRAME_MS = 120"
definition FRAME_MS_SMALL :: rat where "FRAME_MS_SMALL = 200"
definition SMALL_WIDTH :: nat where "SMALL_WIDTH = 768"

definition GLYPHS :: js_string where
  "GLYPHS = [0xFF66..<0xFF9D + 1] @ map of_char ''0123456789HRG''"

definition FONT :: string where "FONT = ''16px monospace''"

subsection \<open>State\<close>

text \<open>
  \<open>matchMedia\<close> may be missing (\<open>reduced = None\<close>); otherwise its query object has the flag
  \<open>matches\<close> and may or may not accept listeners. The flag changes with the operating system's setting;
  \<open>motion_event\<close> says that the \<open>change\<close> event for it has yet to be dispatched to the listener, so that
  other callbacks may run in between and see the new value. \<open>frames\<close> and \<open>timeouts\<close> hold the handles of the
  callbacks the browser still has to run: all frame callbacks are \<open>loop\<close> and all timeouts are the
  resize handler's inner function.
\<close>

record browser =
  has_2d :: bool
  innerWidth :: nat
  innerHeight :: nat
  devicePixelRatio :: "rat option"
  matchMedia :: "(bool \<times> bool) option"
  motion_event :: bool
  hidden :: bool
  random :: "nat \<Rightarrow> rat"
  randoms_used :: nat
  next_handle :: nat
  frames :: "nat list"
  timeouts :: "nat list"
  body_children :: "string list"

record rain = browser +
  canvas_width :: int
  canvas_height :: int
  fillStyle :: string
  globalAlpha :: rat
  font :: string
  textBaseline :: string
  transform :: rat
  painted :: "paint list"
  width :: nat
  height :: nat
  columns :: nat
  drops :: "int list"
  last_glyph :: "js_string option list"
  timer :: "nat option"
  rafId :: "nat option"
  lastFrame :: rat

subsection \<open>Browser calls\<close>

definition math_random :: "rain \<Rightarrow> rat \<times> rain" where
  "math_random s = (random s (randoms_used s), s\<lparr>randoms_used := randoms_used s + 1\<rparr>)"

definition charAt :: "js_string \<Rightarrow> int \<Rightarrow> js_string" where
  "charAt str i = (if 0 \<le> i \<and> nat i < length str then [str ! nat i] else [])"

definition fillRect :: "int \<Rightarrow> int \<Rightarrow> int \<Rightarrow> int \<Rightarrow> rain \<Rightarrow> rain" where
  "fillRect x y w h s = s\<lparr>painted := painted s @ [Rect (fillStyle s) x y w h]\<rparr>"

definition fillText :: "js_string \<Rightarrow> int \<Rightarrow> int \<Rightarrow> rain \<Rightarrow> rain" where
  "fillText t x y s = s\<lparr>painted := painted s @ [Text (font s) (fillStyle s) (globalAlpha s) t x y]\<rparr>"

text \<open>Assigning a canvas dimension clears the bitmap and resets the context to its defaults.\<close>

definition reset_context :: "rain \<Rightarrow> rain" where
  "reset_context s = s\<lparr>painted := painted s @ [Cleared], fillStyle := ''#000000'', globalAlpha := 1,
     font := ''10px sans-serif'', textBaseline := ''alphabetic'', transform := 1\<rparr>"

definition requestAnimationFrame :: "rain \<Rightarrow> nat \<times> rain" where
  "requestAnimationFrame s =
     (next_handle s, s\<lparr>frames := frames s @ [next_handle s], next_handle := next_handle s + 1\<rparr>)"

definition cancelAnimationFrame :: "nat \<Rightarrow> rain \<Rightarrow> rain" where
  "cancelAnimationFrame h s = s\<lparr>frames := removeAll h (frames s)\<rparr>"

definition setTimeout :: "rain \<Rightarrow> nat \<times> rain" where
  "setTimeout s =
     (next_handle s, s\<lparr>timeouts := timeouts s @ [next_handle s], next_handle := next_handle s + 1\<rparr>)"

definition clearTimeout :: "nat option \<Rightarrow> rain \<Rightarrow> rain" where
  "clearTimeout t s = (case t of None \<Rightarrow> s | Some h \<Rightarrow> s\<lparr>timeouts := removeAll h (timeouts s)\<rparr>)"

subsection \<open>The script\<close>

definition canvas_cssText :: string where
  "canvas_cssText = foldr (\<lambda>a b. if b = [] then a else a @ '';'' @ b)
     [''position:fixed'', ''inset:0'', ''width:100%'', ''height:100%'',
      ''z-index:-1'', ''pointer-events:none'', ''background:#000'', ''opacity:0.9''] []"

definition glyph :: "rain \<Rightarrow> js_string \<times> rain" where
  "glyph s = (let (r, s) = math_random s in (charAt GLYPHS \<lfloor>r * of_nat (length GLYPHS)\<rfloor>, s))"

definition frameInterval :: "rain \<Rightarrow> rat" where
  "frameInterval s = (if width s < SMALL_WIDTH then FRAME_MS_SMALL else FRAME_MS)"

definition new_column :: "nat \<Rightarrow> rain \<Rightarrow> rain" where
  "new_column i s = (let (r, s) = math_random s
     in s\<lparr>drops := drops s @ [\<lfloor>r * (of_nat (height s) / of_int FONT_SIZE)\<rfloor>],
          last_glyph := last_glyph s @ [None]\<rparr>)"

text \<open>
  The loop of \<open>resize\<close> starts at \<open>columns\<close>, the length of both arrays, so its assignments append;
  afterwards the arrays have at least \<open>next\<close> entries and setting \<open>length\<close> truncates.
\<close>

definition resize :: "rain \<Rightarrow> rain" where
  "resize s =
     (let dpr = (case devicePixelRatio s of Some d \<Rightarrow> if d = 0 then 1 else d | None \<Rightarrow> 1);
          s = s\<lparr>width := innerWidth s, height := innerHeight s\<rparr>;
          s = reset_context (s\<lparr>canvas_width := \<lfloor>of_nat (width s) * dpr\<rfloor>\<rparr>);
          s = reset_context (s\<lparr>canvas_height := \<lfloor>of_nat (height s) * dpr\<rfloor>\<rparr>);
          s = s\<lparr>transform := dpr\<rparr>;
          s = s\<lparr>font := FONT\<rparr>;
          s = s\<lparr>textBaseline := ''top''\<rparr>;
          next = nat \<lceil>(of_nat (width s) :: rat) / of_int COL_WIDTH\<rceil>;
          s = fold new_column [columns s..<next] s;
          s = s\<lparr>drops := take next (drops s)\<rparr>;
          s = s\<lparr>last_glyph := take next (last_glyph s)\<rparr>;
          s = s\<lparr>columns := next\<rparr>;
          s = s\<lparr>fillStyle := ''#000''\<rparr>
      in fillRect 0 0 (int (width s)) (int (height s)) s)"

definition draw_column :: "nat \<Rightarrow> rain \<Rightarrow> rain" where
  "draw_column i s =
     (let x = int i * COL_WIDTH;
          y = drops s ! i * FONT_SIZE;
          s = (case last_glyph s ! i of
                 Some g \<Rightarrow> fillText g x (y - FONT_SIZE) (s\<lparr>fillStyle := COLOR\<rparr>)
               | None \<Rightarrow> s);
          (ch, s) = glyph s;
          s = fillText ch x y (s\<lparr>fillStyle := HEAD_COLOR\<rparr>);
          s = s\<lparr>last_glyph := (last_glyph s)[i := Some ch]\<rparr>;
          s = s\<lparr>drops := (drops s)[i := drops s ! i + 1]\<rparr>
      in if int (height s) < y
         then let (r, s) = math_random s
              in if r < RESET_CHANCE
                 then s\<lparr>drops := (drops s)[i := 0], last_glyph := (last_glyph s)[i := None]\<rparr>
                 else s
         else s)"

definition draw :: "rain \<Rightarrow> rain" where
  "draw s =
     (let s = s\<lparr>fillStyle := VEIL\<rparr>;
          s = fillRect 0 0 (int (width s)) (int (height s)) s;
          s = s\<lparr>font := FONT\<rparr>
      in fold draw_column [0..<columns s] s)"

definition drawStatic_glyph :: "int \<Rightarrow> int \<Rightarrow> int \<Rightarrow> nat \<Rightarrow> rain \<Rightarrow> rain" where
  "drawStatic_glyph x head trail j s =
     (let y = (head - int j) * FONT_SIZE
      in if y < - FONT_SIZE \<or> int (height s) < y then s
         else let s = (if j = 0 then s\<lparr>fillStyle := HEAD_COLOR\<rparr>
                       else s\<lparr>globalAlpha := 1 - of_nat j / of_int (trail + 1), fillStyle := COLOR\<rparr>);
                  (g, s) = glyph s;
                  s = fillText g x y s
              in s\<lparr>globalAlpha := 1\<rparr>)"

definition drawStatic_column :: "nat \<Rightarrow> rain \<Rightarrow> rain" where
  "drawStatic_column i s =
     (let x = int i * COL_WIDTH;
          (r, s) = math_random s;
          head = \<lfloor>r * (of_nat (height s) / of_int FONT_SIZE)\<rfloor>;
          (r, s) = math_random s;
          trail = 6 + \<lfloor>r * 13\<rfloor>
      in fold (drawStatic_glyph x head trail) (rev [0..<nat (trail + 1)]) s)"

definition drawStatic :: "rain \<Rightarrow> rain" where
  "drawStatic s =
     (let s = s\<lparr>fillStyle := ''#000''\<rparr>;
          s = fillRect 0 0 (int (width s)) (int (height s)) s;
          s = s\<lparr>font := FONT\<rparr>
      in fold drawStatic_column [0..<columns s] s)"

definition loop :: "rat \<Rightarrow> rain \<Rightarrow> rain" where
  "loop now s =
     (let (h, s) = requestAnimationFrame s;
          s = s\<lparr>rafId := Some h\<rparr>
      in if now - lastFrame s < frameInterval s then s
         else draw (s\<lparr>lastFrame := now\<rparr>))"

definition start :: "rain \<Rightarrow> rain" where
  "start s =
     (if rafId s \<noteq> None then s
      else let (h, s) = requestAnimationFrame (s\<lparr>lastFrame := 0\<rparr>) in s\<lparr>rafId := Some h\<rparr>)"

definition stop :: "rain \<Rightarrow> rain" where
  "stop s = (case rafId s of None \<Rightarrow> s | Some h \<Rightarrow> (cancelAnimationFrame h s)\<lparr>rafId := None\<rparr>)"

definition isReduced :: "rain \<Rightarrow> bool" where
  "isReduced s = (case matchMedia s of None \<Rightarrow> False | Some (matches, _) \<Rightarrow> matches)"

definition render :: "rain \<Rightarrow> rain" where
  "render s = (if isReduced s then drawStatic (stop s) else start s)"

definition rain_main :: "browser \<Rightarrow> rain option" where
  "rain_main b =
     (if \<not> has_2d b then None
      else Some (render (resize (browser.extend (b\<lparr>body_children := ''matrix-bg'' # body_children b\<rparr>)
        (rain.fields 300 150 ''#000000'' 1 ''10px sans-serif'' ''alphabetic'' 1 [] 0 0 0 [] [] None None 0)))))"

subsection \<open>Events\<close>

definition on_resize :: "nat \<Rightarrow> nat \<Rightarrow> rat option \<Rightarrow> rain \<Rightarrow> rain" where
  "on_resize w h dpr s =
     (let s = s\<lparr>innerWidth := w, innerHeight := h, devicePixelRatio := dpr\<rparr>;
          s = clearTimeout (timer s) s;
          (t, s) = setTimeout s
      in s\<lparr>timer := Some t\<rparr>)"

definition on_timeout :: "nat \<Rightarrow> rain \<Rightarrow> rain" where
  "on_timeout t s = render (resize (s\<lparr>timeouts := removeAll t (timeouts s)\<rparr>))"

definition on_visibilitychange :: "bool \<Rightarrow> rain \<Rightarrow> rain" where
  "on_visibilitychange h s = (let s = s\<lparr>hidden := h\<rparr> in if h then stop s else render s)"

definition set_motion :: "bool \<Rightarrow> rain \<Rightarrow> rain" where
  "set_motion m s =
     (case matchMedia s of
        None \<Rightarrow> s
      | Some (matches, listens) \<Rightarrow>
          s\<lparr>matchMedia := Some (m, listens), motion_event := motion_event s \<or> listens \<and> m \<noteq> matches\<rparr>)"

definition on_motionchange :: "rain \<Rightarrow> rain" where
  "on_motionchange s = render (s\<lparr>motion_event := False\<rparr>)"

definition run_frame :: "rat \<Rightarrow> nat \<Rightarrow> rain \<Rightarrow> rain" where
  "run_frame now h s =
     (if h \<in> set (frames s) then loop now (s\<lparr>frames := removeAll h (frames s)\<rparr>) else s)"

definition on_animation_frame :: "rat \<Rightarrow> rain \<Rightarrow> rain" where
  "on_animation_frame now s = fold (run_frame now) (frames s) s"

inductive rain_step :: "rain \<Rightarrow> rain \<Rightarrow> bool" where
  resize_event: "rain_step s (on_resize w h dpr s)"
| timeout: "t \<in> set (timeouts s) \<Longrightarrow> rain_step s (on_timeout t s)"
| visibilitychange: "rain_step s (on_visibilitychange h s)"
| motion_setting: "rain_step s (set_motion m s)"
| motionchange: "motion_event s \<Longrightarrow> rain_step s (on_motionchange s)"
| animation_frame: "rain_step s (on_animation_frame now s)"

text \<open>A page load: no callback is pending yet and \<open>Math.random\<close> returns numbers in \<open>[0, 1)\<close>.\<close>

definition page_load :: "browser \<Rightarrow> bool" where
  "page_load b \<longleftrightarrow> frames b = [] \<and> timeouts b = [] \<and> \<not> motion_event b \<and> (\<forall>n. 0 \<le> random b n \<and> random b n < 1)"

definition rain_start :: "rain \<Rightarrow> bool" where
  "rain_start s \<longleftrightarrow> (\<exists>b. page_load b \<and> rain_main b = Some s)"

subsection \<open>Invariants\<close>

text \<open>
  What was painted: every glyph of the history comes from \<open>GLYPHS\<close>, in the page's font, with an
  opacity in \<open>(0, 1]\<close>, and an opaque glyph in the body colour stands where the same glyph was
  painted before as a head.
\<close>

definition paint_ok :: "paint list \<Rightarrow> paint \<Rightarrow> bool" where
  "paint_ok before p = (case p of
     Text f c a g x y \<Rightarrow> f = FONT \<and> 0 < a \<and> a \<le> 1 \<and> (\<exists>k \<in> set GLYPHS. g = [k]) \<and>
       (c = COLOR \<and> a = 1 \<longrightarrow> Text f HEAD_COLOR 1 g x y \<in> set before)
   | _ \<Rightarrow> True)"

definition history_ok :: "paint list \<Rightarrow> bool" where
  "history_ok ps \<longleftrightarrow> (\<forall>k < length ps. paint_ok (take k ps) (ps ! k))"

definition head_ok :: "paint list \<Rightarrow> nat \<Rightarrow> int \<Rightarrow> js_string option \<Rightarrow> bool" where
  "head_ok ps i d l \<longleftrightarrow>
     (\<forall>g. l = Some g \<longrightarrow> Text FONT HEAD_COLOR 1 g (int i * COL_WIDTH) ((d - 1) * FONT_SIZE) \<in> set ps)"

definition heads_ok :: "rain \<Rightarrow> bool" where
  "heads_ok s \<longleftrightarrow> length (last_glyph s) = length (drops s) \<and> (\<forall>d \<in> set (drops s). 0 \<le> d) \<and>
     (\<forall>i < length (drops s). head_ok (painted s) i (drops s ! i) (last_glyph s ! i))"

definition random_ok :: "rain \<Rightarrow> bool" where
  "random_ok s \<longleftrightarrow> (\<forall>n. 0 \<le> random s n \<and> random s n < 1)"

definition painting_inv :: "rain \<Rightarrow> bool" where
  "painting_inv s \<longleftrightarrow> random_ok s \<and> history_ok (painted s) \<and> heads_ok s \<and> globalAlpha s = 1"

definition layout_inv :: "rain \<Rightarrow> bool" where
  "layout_inv s \<longleftrightarrow> length (drops s) = columns s \<and> length (last_glyph s) = columns s \<and>
     font s = FONT \<and> textBaseline s = ''top'' \<and>
     int (width s) \<le> int (columns s) * COL_WIDTH \<and> int (columns s) * COL_WIDTH < int (width s) + COL_WIDTH"

text \<open>
  What is scheduled: \<open>rafId\<close> is exactly the pending frame callback, at most one resize timeout is
  pending and it is \<open>timer\<close>, and with reduced motion in force and a listener that has been told so, no
  frame callback is pending.
\<close>

definition schedule_inv :: "rain \<Rightarrow> bool" where
  "schedule_inv s \<longleftrightarrow>
     frames s = (case rafId s of None \<Rightarrow> [] | Some h \<Rightarrow> [h]) \<and>
     (timeouts s = [] \<or> (\<exists>t. timer s = Some t \<and> timeouts s = [t])) \<and>
     (matchMedia s = Some (True, True) \<and> \<not> motion_event s \<longrightarrow> rafId s = None)"

definition rain_inv :: "rain \<Rightarrow> bool" where
  "rain_inv s \<longleftrightarrow> painting_inv s \<and> layout_inv s \<and> schedule_inv s"

subsection \<open>Painting\<close>

lemma history_ok_snoc: "history_ok (ps @ [p]) \<longleftrightarrow> history_ok ps \<and> paint_ok ps p"
  by (auto simp: history_ok_def nth_append less_Suc_eq)

lemma history_ok_glyph: "history_ok ps \<Longrightarrow> Text f c a g x y \<in> set ps \<Longrightarrow> \<exists>k \<in> set GLYPHS. g = [k]"
  by (fastforce simp: history_ok_def in_set_conv_nth paint_ok_def split: paint.splits)

lemma head_ok_append [intro]: "head_ok ps i d l \<Longrightarrow> head_ok (ps @ qs) i d l"
  by (auto simp: head_ok_def)

lemma GLYPHS_length: "length GLYPHS = 69"
  by (simp add: GLYPHS_def)

lemma random_floor:
  fixes n :: rat
  assumes "random_ok s" "0 \<le> n"
  shows "0 \<le> \<lfloor>fst (math_random s) * n\<rfloor>" "0 < n \<Longrightarrow> of_int \<lfloor>fst (math_random s) * n\<rfloor> < n"
proof -
  let ?r = "fst (math_random s)"
  have r: "0 \<le> ?r" "?r < 1" using assms(1) by (simp_all add: math_random_def random_ok_def)
  show "0 \<le> \<lfloor>?r * n\<rfloor>" using r assms(2) by simp
  assume "0 < n"
  then have "?r * n < n" using r by simp
  then show "of_int \<lfloor>?r * n\<rfloor> < n" using of_int_floor_le [of "?r * n"] by linarith
qed

lemma math_random_state: "snd (math_random s) = s\<lparr>randoms_used := randoms_used s + 1\<rparr>"
  by (simp add: math_random_def)

lemma glyph_state: "snd (glyph s) = s\<lparr>randoms_used := randoms_used s + 1\<rparr>"
  by (simp add: glyph_def math_random_def)

lemma glyph_in_GLYPHS: "random_ok s \<Longrightarrow> \<exists>k \<in> set GLYPHS. fst (glyph s) = [k]"
proof -
  assume r: "random_ok s"
  let ?i = "\<lfloor>fst (math_random s) * 69\<rfloor>"
  have "of_int ?i < (69 :: rat)" by (rule random_floor [OF r]) simp_all
  then have "?i < 69" by (simp only: of_int_less_numeral_iff)
  moreover have i: "0 \<le> ?i" by (rule random_floor [OF r]) simp
  ultimately have "nat ?i < length GLYPHS" unfolding GLYPHS_length by linarith
  with i show ?thesis
    by (auto simp: glyph_def charAt_def GLYPHS_length math_random_def intro!: bexI nth_mem)
qed

lemma painting_inv_fillText:
  assumes "painting_inv s" "paint_ok (painted s) (Text (font s) (fillStyle s) (globalAlpha s) g x y)"
  shows "painting_inv (fillText g x y s)"
proof -
  have "heads_ok (fillText g x y s)"
    using assms(1) by (auto simp: painting_inv_def heads_ok_def fillText_def)
  then show ?thesis
    using assms by (simp add: painting_inv_def fillText_def history_ok_snoc random_ok_def)
qed

lemma painting_inv_style [simp]:
  "painting_inv (s\<lparr>fillStyle := c\<rparr>) = painting_inv s"
  "painting_inv (s\<lparr>font := c\<rparr>) = painting_inv s"
  "painting_inv (s\<lparr>randoms_used := n\<rparr>) = painting_inv s"
  "painting_inv (s\<lparr>lastFrame := q\<rparr>) = painting_inv s"
  "painting_inv (s\<lparr>rafId := r\<rparr>) = painting_inv s"
  "painting_inv (s\<lparr>frames := fs\<rparr>) = painting_inv s"
  "painting_inv (s\<lparr>timeouts := fs\<rparr>) = painting_inv s"
  "painting_inv (s\<lparr>next_handle := n\<rparr>) = painting_inv s"
  "painting_inv (s\<lparr>timer := t\<rparr>) = painting_inv s"
  "painting_inv (s\<lparr>matchMedia := m\<rparr>) = painting_inv s"
  "painting_inv (s\<lparr>motion_event := b\<rparr>) = painting_inv s"
  "painting_inv (s\<lparr>hidden := b\<rparr>) = painting_inv s"
  "painting_inv (s\<lparr>columns := n\<rparr>) = painting_inv s"
  "painting_inv (s\<lparr>width := n\<rparr>) = painting_inv s"
  "painting_inv (s\<lparr>height := n\<rparr>) = painting_inv s"
  "painting_inv (s\<lparr>canvas_width := z\<rparr>) = painting_inv s"
  "painting_inv (s\<lparr>canvas_height := z\<rparr>) = painting_inv s"
  "painting_inv (s\<lparr>transform := q\<rparr>) = painting_inv s"
  "painting_inv (s\<lparr>textBaseline := c\<rparr>) = painting_inv s"
  "painting_inv (s\<lparr>innerWidth := n\<rparr>) = painting_inv s"
  "painting_inv (s\<lparr>innerHeight := n\<rparr>) = painting_inv s"
  "painting_inv (s\<lparr>devicePixelRatio := d\<rparr>) = painting_inv s"
  by (simp_all add: painting_inv_def heads_ok_def random_ok_def)

lemma painting_inv_fillRect [simp]: "painting_inv s \<Longrightarrow> painting_inv (fillRect x y w h s)"
  by (auto simp: painting_inv_def heads_ok_def fillRect_def random_ok_def history_ok_snoc paint_ok_def)

lemma head_ok_update:
  "\<lbrakk>\<forall>k < length ds. head_ok ps k (ds ! k) (ls ! k); length ls = length ds; head_ok ps i d l; k < length ds\<rbrakk>
   \<Longrightarrow> head_ok ps k (ds[i := d] ! k) (ls[i := l] ! k)"
  by (cases "k = i") auto

lemma painting_inv_set_head:
  assumes "painting_inv s" "0 \<le> d" "head_ok (painted s) i d l"
  shows "painting_inv (s\<lparr>last_glyph := (last_glyph s)[i := l], drops := (drops s)[i := d]\<rparr>)"
    "painting_inv (s\<lparr>drops := (drops s)[i := d], last_glyph := (last_glyph s)[i := l]\<rparr>)"
  using assms
  by (auto simp: painting_inv_def heads_ok_def random_ok_def head_ok_update
      dest!: set_update_subset_insert [THEN subsetD])

text \<open>The components that painting leaves alone.\<close>

definition untouched :: "rain \<Rightarrow> _" where
  "untouched s = ((frames s, timeouts s, next_handle s, timer s, rafId s, matchMedia s, motion_event s, hidden s, lastFrame s),
     width s, height s, columns s, textBaseline s, length (drops s), length (last_glyph s))"

lemma untouched_fold:
  "(\<And>x s. untouched (f x s) = untouched s) \<Longrightarrow> untouched (fold f xs s) = untouched s"
  by (induction xs arbitrary: s) simp_all

lemma draw_column_untouched: "untouched (draw_column i s) = untouched s" "font (draw_column i s) = font s"
  by (simp_all add: draw_column_def Let_def untouched_def fillText_def glyph_def math_random_def
      split: option.splits)

lemma head_ne_body: "HEAD_COLOR \<noteq> COLOR"
  by (simp add: HEAD_COLOR_def COLOR_def)

lemma painting_inv_body:
  assumes "painting_inv s" "font s = FONT" "i < length (drops s)" "last_glyph s ! i = Some g"
  shows "painting_inv (fillText g (int i * COL_WIDTH) (drops s ! i * FONT_SIZE - FONT_SIZE) (s\<lparr>fillStyle := COLOR\<rparr>))"
proof (rule painting_inv_fillText)
  have "head_ok (painted s) i (drops s ! i) (Some g)"
    using assms by (auto simp: painting_inv_def heads_ok_def)
  then have h: "Text FONT HEAD_COLOR 1 g (int i * COL_WIDTH) (drops s ! i * FONT_SIZE - FONT_SIZE) \<in> set (painted s)"
    by (simp add: head_ok_def left_diff_distrib)
  with assms show "paint_ok (painted (s\<lparr>fillStyle := COLOR\<rparr>))
      (Text (font (s\<lparr>fillStyle := COLOR\<rparr>)) (fillStyle (s\<lparr>fillStyle := COLOR\<rparr>)) (globalAlpha (s\<lparr>fillStyle := COLOR\<rparr>))
        g (int i * COL_WIDTH) (drops s ! i * FONT_SIZE - FONT_SIZE))"
    by (auto simp: paint_ok_def painting_inv_def dest: history_ok_glyph)
qed (use assms in simp)

lemma painting_inv_glyph:
  assumes "painting_inv s" "font s = FONT" "fillStyle s \<noteq> COLOR \<or> a < 1" "0 < a" "a \<le> 1"
    and "s' = s\<lparr>globalAlpha := a\<rparr>"
  shows "painting_inv ((fillText (fst (glyph s')) x y (snd (glyph s')))\<lparr>globalAlpha := 1\<rparr>)"
proof -
  have "random_ok s'" using assms by (simp add: painting_inv_def random_ok_def)
  then have "paint_ok (painted s) (Text FONT (fillStyle s) a (fst (glyph s')) x y)"
    using assms glyph_in_GLYPHS [of s'] by (auto simp: paint_ok_def)
  then show ?thesis
    using assms by (auto simp: painting_inv_def heads_ok_def fillText_def history_ok_snoc random_ok_def glyph_state)
qed

lemma painting_inv_head:
  assumes "painting_inv s" "font s = FONT" "fillStyle s \<noteq> COLOR"
  shows "painting_inv (fillText (fst (glyph s)) x y (snd (glyph s)))"
proof -
  have g: "globalAlpha s = 1" using assms(1) by (simp add: painting_inv_def)
  then have "(fillText (fst (glyph s)) x y (snd (glyph s)))\<lparr>globalAlpha := 1\<rparr>
      = fillText (fst (glyph s)) x y (snd (glyph s))" by (simp add: fillText_def glyph_state)
  then show ?thesis using painting_inv_glyph [OF assms(1,2), of 1 s x y] assms(3) g by simp
qed

lemma draw_column_painting:
  assumes "painting_inv s" "font s = FONT" "i < length (drops s)"
  shows "painting_inv (draw_column i s)"
proof -
  let ?x = "int i * COL_WIDTH" and ?y = "drops s ! i * FONT_SIZE"
  define s1 where "s1 = (case last_glyph s ! i of
     Some g \<Rightarrow> fillText g ?x (?y - FONT_SIZE) (s\<lparr>fillStyle := COLOR\<rparr>) | None \<Rightarrow> s)"
  have s1: "painting_inv s1" "font s1 = FONT" "drops s1 = drops s" "last_glyph s1 = last_glyph s"
    using assms painting_inv_body by (auto simp: s1_def fillText_def split: option.splits)
  define s2 where "s2 = s1\<lparr>fillStyle := HEAD_COLOR\<rparr>"
  define s3 where "s3 = fillText (fst (glyph s2)) ?x ?y (snd (glyph s2))"
  have s3: "painting_inv s3"
    unfolding s3_def by (rule painting_inv_head) (simp_all add: s2_def s1 head_ne_body)
  have ds: "drops s3 = drops s" "last_glyph s3 = last_glyph s"
    by (simp_all add: s3_def s2_def s1 fillText_def glyph_state)
  have d: "0 \<le> drops s ! i" using assms by (auto simp: painting_inv_def heads_ok_def)
  have "globalAlpha s1 = 1" using s1 by (simp add: painting_inv_def)
  then have "head_ok (painted s3) i (drops s ! i + 1) (Some (fst (glyph s2)))"
    by (simp add: head_ok_def s3_def fillText_def glyph_state s2_def s1)
  define s4 where "s4 = s3\<lparr>last_glyph := (last_glyph s3)[i := Some (fst (glyph s2))],
     drops := (drops s3)[i := drops s ! i + 1]\<rparr>"
  have s4: "painting_inv s4"
    unfolding s4_def by (rule painting_inv_set_head) (use s3 d \<open>head_ok _ _ _ _\<close> in simp_all)
  have "draw_column i s = (if int (height s) < ?y then
      let (r, s) = math_random s4 in if r < RESET_CHANCE
        then s\<lparr>drops := (drops s)[i := 0], last_glyph := (last_glyph s)[i := None]\<rparr> else s
      else s4)"
    by (simp add: draw_column_def Let_def s4_def s3_def s2_def s1_def fillText_def glyph_def math_random_def
        split: option.splits)
  then show ?thesis
    using s4 painting_inv_set_head [of "snd (math_random s4)" 0 i None]
    by (simp add: math_random_def head_ok_def Let_def)
qed

lemma draw_untouched: "untouched (draw s) = untouched s"
  unfolding draw_def Let_def
  by (subst untouched_fold) (simp_all add: draw_column_untouched, simp add: untouched_def fillRect_def)

lemma draw_painting:
  assumes "painting_inv s" "length (drops s) = columns s"
  shows "painting_inv (draw s)" "font (draw s) = FONT"
proof -
  let ?s = "(fillRect 0 0 (int (width s)) (int (height s)) (s\<lparr>fillStyle := VEIL\<rparr>))\<lparr>font := FONT\<rparr>"
  have "painting_inv t \<and> font t = FONT \<and> length (drops t) = columns s"
    if "t = fold draw_column [0..<columns s] ?s" for t
    unfolding that
  proof (rule fold_invariant [where Q = "\<lambda>i. i < columns s"])
    fix i t assume "i < columns s" "painting_inv t \<and> font t = FONT \<and> length (drops t) = columns s"
    then show "painting_inv (draw_column i t) \<and> font (draw_column i t) = FONT \<and> length (drops (draw_column i t)) = columns s"
      using draw_column_painting [of t i] draw_column_untouched [of i t] by (simp add: untouched_def)
  qed (use assms in \<open>simp_all add: fillRect_def [of _ _ _ _ "s\<lparr>fillStyle := VEIL\<rparr>", symmetric]\<close>, simp_all add: fillRect_def)
  then show "painting_inv (draw s)" "font (draw s) = FONT"
    by (simp_all add: draw_def Let_def fillRect_def)
qed

lemma drawStatic_glyph_painting:
  assumes "painting_inv s" "font s = FONT" "int j \<le> trail"
  shows "painting_inv (drawStatic_glyph x head trail j s)" "font (drawStatic_glyph x head trail j s) = FONT"
proof -
  define a where "a = (if j = 0 then 1 else 1 - of_nat j / of_int (trail + 1) :: rat)"
  define s1 where "s1 = s\<lparr>fillStyle := if j = 0 then HEAD_COLOR else COLOR\<rparr>"
  have "(of_nat j :: rat) < of_int (trail + 1)"
    using assms(3) by (metis of_int_less_iff of_int_of_nat_eq zle_add1_eq_le)
  then have a: "0 < a" "a \<le> 1" "j \<noteq> 0 \<Longrightarrow> a < 1" by (auto simp: a_def divide_less_eq)
  have g: "globalAlpha s = 1" using assms(1) by (simp add: painting_inv_def)
  then have e: "drawStatic_glyph x head trail j s =
      (if (head - int j) * FONT_SIZE < - FONT_SIZE \<or> int (height s) < (head - int j) * FONT_SIZE then s
       else (fillText (fst (glyph (s1\<lparr>globalAlpha := a\<rparr>))) x ((head - int j) * FONT_SIZE)
         (snd (glyph (s1\<lparr>globalAlpha := a\<rparr>))))\<lparr>globalAlpha := 1\<rparr>)"
    by (simp add: drawStatic_glyph_def Let_def glyph_def math_random_def fillText_def s1_def a_def)
  have "painting_inv s1" "font s1 = FONT" "fillStyle s1 \<noteq> COLOR \<or> a < 1"
    using assms a by (auto simp: s1_def head_ne_body)
  then show "painting_inv (drawStatic_glyph x head trail j s)"
    using e assms(1) painting_inv_glyph [OF _ _ _ a(1,2) refl, of s1] by simp
  show "font (drawStatic_glyph x head trail j s) = FONT"
    using assms(2) by (simp add: e fillText_def glyph_state s1_def)
qed

lemma drawStatic_trail_painting:
  assumes "painting_inv s" "font s = FONT"
  shows "painting_inv (fold (drawStatic_glyph x head trail) (rev [0..<nat (trail + 1)]) s) \<and>
    font (fold (drawStatic_glyph x head trail) (rev [0..<nat (trail + 1)]) s) = FONT"
  by (rule fold_invariant [where Q = "\<lambda>j. int j \<le> trail"])
    (use assms in \<open>auto simp: drawStatic_glyph_painting\<close>)

lemma drawStatic_column_painting:
  assumes "painting_inv s" "font s = FONT"
  shows "painting_inv (drawStatic_column i s) \<and> font (drawStatic_column i s) = FONT"
  unfolding drawStatic_column_def Let_def math_random_def prod.case
  by (rule drawStatic_trail_painting) (use assms in simp_all)

lemma drawStatic_painting:
  assumes "painting_inv s"
  shows "painting_inv (drawStatic s)" "font (drawStatic s) = FONT"
proof -
  let ?s = "(fillRect 0 0 (int (width s)) (int (height s)) (s\<lparr>fillStyle := ''#000''\<rparr>))\<lparr>font := FONT\<rparr>"
  have "painting_inv t \<and> font t = FONT" if "t = fold drawStatic_column [0..<columns s] ?s" for t
    unfolding that
    by (rule fold_invariant [where Q = "\<lambda>_. True"]) (use assms in \<open>auto simp: drawStatic_column_painting\<close>)
  then show "painting_inv (drawStatic s)" "font (drawStatic s) = FONT"
    by (simp_all add: drawStatic_def Let_def fillRect_def)
qed

lemma drawStatic_glyph_untouched: "untouched (drawStatic_glyph x head trail j s) = untouched s"
  by (simp add: drawStatic_glyph_def Let_def untouched_def fillText_def glyph_def math_random_def)

lemma drawStatic_column_untouched: "untouched (drawStatic_column i s) = untouched s"
  by (simp add: drawStatic_column_def Let_def math_random_def
      untouched_fold [of "drawStatic_glyph _ _ _", OF drawStatic_glyph_untouched]) (simp add: untouched_def)

lemma drawStatic_untouched: "untouched (drawStatic s) = untouched s"
  unfolding drawStatic_def Let_def
  by (subst untouched_fold) (simp_all add: drawStatic_column_untouched, simp add: untouched_def fillRect_def)

subsection \<open>Resizing\<close>

lemma new_column_painting:
  assumes "painting_inv s"
  shows "painting_inv (new_column i s)"
proof -
  have "random_ok s" using assms by (simp add: painting_inv_def)
  then have "0 \<le> \<lfloor>fst (math_random s) * (of_nat (height s) / of_int FONT_SIZE)\<rfloor>"
    by (rule random_floor) (simp add: FONT_SIZE_def)
  then show ?thesis
    using assms
    by (auto simp: new_column_def math_random_def painting_inv_def heads_ok_def random_ok_def
        nth_append head_ok_def less_Suc_eq)
qed

lemma new_columns:
  assumes "painting_inv s"
  shows "painting_inv (fold new_column is s)"
    "length (drops (fold new_column is s)) = length (drops s) + length is"
    "length (last_glyph (fold new_column is s)) = length (last_glyph s) + length is"
  using assms
  by (induction "is" arbitrary: s)
    (simp_all add: new_column_painting, simp_all add: new_column_def math_random_def)

lemma new_columns_rest:
  "font (fold new_column is s) = font s" "textBaseline (fold new_column is s) = textBaseline s"
  "width (fold new_column is s) = width s" "height (fold new_column is s) = height s"
  "frames (fold new_column is s) = frames s" "timeouts (fold new_column is s) = timeouts s"
  "timer (fold new_column is s) = timer s" "rafId (fold new_column is s) = rafId s"
  "matchMedia (fold new_column is s) = matchMedia s" "motion_event (fold new_column is s) = motion_event s" "hidden (fold new_column is s) = hidden s"
  by (induction "is" arbitrary: s) (simp_all add: new_column_def math_random_def)

lemma painting_inv_reset_context: "painting_inv s \<Longrightarrow> painting_inv (reset_context s)"
  by (auto simp: painting_inv_def heads_ok_def reset_context_def random_ok_def history_ok_snoc paint_ok_def)

lemma painting_inv_take:
  "painting_inv s \<Longrightarrow> painting_inv (s\<lparr>drops := take n (drops s), last_glyph := take n (last_glyph s)\<rparr>)"
  by (auto simp: painting_inv_def heads_ok_def random_ok_def dest: in_set_takeD)

lemma columns_cover:
  fixes w :: nat
  defines "n \<equiv> nat \<lceil>(of_nat w :: rat) / of_int COL_WIDTH\<rceil>"
  shows "int w \<le> int n * COL_WIDTH \<and> int n * COL_WIDTH < int w + COL_WIDTH"
proof -
  let ?q = "(of_nat w :: rat) / 16"
  have "?q \<le> of_int \<lceil>?q\<rceil>" "of_int \<lceil>?q\<rceil> < ?q + 1" by linarith+
  then have "(of_int (int w) :: rat) \<le> of_int (\<lceil>?q\<rceil> * 16)" "(of_int (\<lceil>?q\<rceil> * 16) :: rat) < of_int (int w + 16)"
    by (simp_all only: of_int_mult of_int_add of_int_of_nat_eq of_int_numeral)
  then have "int w \<le> \<lceil>?q\<rceil> * 16" "\<lceil>?q\<rceil> * 16 < int w + 16"
    by (simp_all only: of_int_le_iff of_int_less_iff)
  moreover then have "int n = \<lceil>?q\<rceil>" by (simp add: n_def COL_WIDTH_def)
  ultimately show ?thesis by (simp add: COL_WIDTH_def)
qed

lemma resize_inv:
  assumes "painting_inv s" "length (drops s) = columns s"
  shows "painting_inv (resize s)" "layout_inv (resize s)"
proof -
  define dpr where "dpr = (case devicePixelRatio s of Some d \<Rightarrow> if d = 0 then 1 else d | None \<Rightarrow> 1)"
  define s1 where "s1 = (reset_context ((reset_context (s\<lparr>width := innerWidth s, height := innerHeight s,
      canvas_width := \<lfloor>of_nat (innerWidth s) * dpr\<rfloor>\<rparr>))\<lparr>canvas_height := \<lfloor>of_nat (innerHeight s) * dpr\<rfloor>\<rparr>))
      \<lparr>transform := dpr, font := FONT, textBaseline := ''top''\<rparr>"
  define n where "n = nat \<lceil>(of_nat (innerWidth s) :: rat) / of_int COL_WIDTH\<rceil>"
  define s2 where "s2 = fold new_column [columns s..<n] s1"
  have "painting_inv s1"
    using assms(1) by (simp add: s1_def painting_inv_reset_context)
  note nc = new_columns [OF this, of "[columns s..<n]", folded s2_def]
  have l1: "length (drops s1) = columns s" "length (last_glyph s1) = columns s"
    using assms by (simp_all add: s1_def reset_context_def painting_inv_def heads_ok_def)
  have r: "resize s = fillRect 0 0 (int (width s2)) (int (height s2))
      (s2\<lparr>drops := take n (drops s2), last_glyph := take n (last_glyph s2), columns := n, fillStyle := ''#000''\<rparr>)"
    by (simp add: resize_def Let_def s2_def s1_def n_def dpr_def reset_context_def)
  have "painting_inv (s2\<lparr>drops := take n (drops s2), last_glyph := take n (last_glyph s2)\<rparr>)"
    using nc(1) by (rule painting_inv_take)
  then have "painting_inv (s2\<lparr>drops := take n (drops s2), last_glyph := take n (last_glyph s2), columns := n,
      fillStyle := ''#000''\<rparr>)" by simp
  then show "painting_inv (resize s)" unfolding r by simp
  have "font s2 = FONT" "textBaseline s2 = ''top''" "width s2 = innerWidth s"
    by (simp_all add: s2_def new_columns_rest s1_def reset_context_def)
  then show "layout_inv (resize s)"
    using nc(2,3) l1 columns_cover [of "innerWidth s"] unfolding r
    by (simp add: layout_inv_def fillRect_def n_def)
qed

lemma resize_schedule:
  "frames (resize s) = frames s" "timeouts (resize s) = timeouts s" "timer (resize s) = timer s"
  "rafId (resize s) = rafId s" "matchMedia (resize s) = matchMedia s" "motion_event (resize s) = motion_event s" "hidden (resize s) = hidden s"
  by (simp_all add: resize_def Let_def fillRect_def new_columns_rest reset_context_def)

subsection \<open>Scheduling\<close>

lemma schedule_inv_untouched: "untouched t = untouched s \<Longrightarrow> schedule_inv t = schedule_inv s"
  by (simp add: untouched_def schedule_inv_def)

lemma layout_inv_untouched: "untouched t = untouched s \<Longrightarrow> font t = FONT \<Longrightarrow> layout_inv s \<Longrightarrow> layout_inv t"
  by (simp add: untouched_def layout_inv_def)

lemma drawStatic_inv: "rain_inv s \<Longrightarrow> rain_inv (drawStatic s)"
  using layout_inv_untouched [OF drawStatic_untouched] schedule_inv_untouched [OF drawStatic_untouched]
  by (simp add: rain_inv_def drawStatic_painting)

lemma draw_inv: "rain_inv s \<Longrightarrow> rain_inv (draw s)"
  using layout_inv_untouched [OF draw_untouched] schedule_inv_untouched [OF draw_untouched]
  by (simp add: rain_inv_def draw_painting layout_inv_def)

lemma layout_inv_schedule [simp]:
  "layout_inv (s\<lparr>frames := a\<rparr>) = layout_inv s" "layout_inv (s\<lparr>timeouts := a\<rparr>) = layout_inv s"
  "layout_inv (s\<lparr>rafId := r\<rparr>) = layout_inv s" "layout_inv (s\<lparr>next_handle := n\<rparr>) = layout_inv s"
  "layout_inv (s\<lparr>lastFrame := q\<rparr>) = layout_inv s" "layout_inv (s\<lparr>timer := t\<rparr>) = layout_inv s"
  "layout_inv (s\<lparr>matchMedia := m\<rparr>) = layout_inv s" "layout_inv (s\<lparr>motion_event := b\<rparr>) = layout_inv s" "layout_inv (s\<lparr>hidden := b\<rparr>) = layout_inv s"
  "layout_inv (s\<lparr>innerWidth := w\<rparr>) = layout_inv s" "layout_inv (s\<lparr>innerHeight := w\<rparr>) = layout_inv s"
  "layout_inv (s\<lparr>devicePixelRatio := d\<rparr>) = layout_inv s"
  by (simp_all add: layout_inv_def)

definition schedule_pre :: "rain \<Rightarrow> bool" where
  "schedule_pre s \<longleftrightarrow>
     frames s = (case rafId s of None \<Rightarrow> [] | Some h \<Rightarrow> [h]) \<and>
     (timeouts s = [] \<or> (\<exists>t. timer s = Some t \<and> timeouts s = [t]))"

lemma render_inv:
  assumes "painting_inv s" "layout_inv s" "schedule_pre s"
  shows "rain_inv (render s)"
proof (cases "isReduced s")
  case True
  have "rain_inv (stop s)"
    using assms by (auto simp: stop_def cancelAnimationFrame_def rain_inv_def schedule_inv_def schedule_pre_def
        split: option.splits)
  then show ?thesis using True by (simp add: render_def drawStatic_inv)
next
  case False
  then have "matchMedia s \<noteq> Some (True, True)" by (auto simp: isReduced_def)
  then have "rain_inv (start s)"
    using assms by (auto simp: start_def requestAnimationFrame_def rain_inv_def schedule_inv_def schedule_pre_def)
  then show ?thesis using False by (simp add: render_def)
qed

lemma loop_inv:
  assumes "painting_inv s" "layout_inv s" "frames s = []" "matchMedia s \<noteq> Some (True, True) \<or> motion_event s"
    "timeouts s = [] \<or> (\<exists>t. timer s = Some t \<and> timeouts s = [t])"
  shows "rain_inv (loop now s)"
proof -
  let ?s = "(snd (requestAnimationFrame s))\<lparr>rafId := Some (next_handle s)\<rparr>"
  have s: "rain_inv (?s\<lparr>lastFrame := q\<rparr>)" for q
    using assms by (simp add: requestAnimationFrame_def rain_inv_def schedule_inv_def)
  have "?s\<lparr>lastFrame := lastFrame s\<rparr> = ?s" by (simp add: requestAnimationFrame_def)
  then have "rain_inv ?s" using s [of "lastFrame s"] by simp
  moreover have "loop now s = (if now - lastFrame s < frameInterval ?s then ?s else draw (?s\<lparr>lastFrame := now\<rparr>))"
    by (simp add: loop_def requestAnimationFrame_def)
  ultimately show ?thesis using draw_inv [OF s] by simp
qed

subsection \<open>Events keep the invariant\<close>

lemma rain_invD:
  assumes "rain_inv s"
  shows "painting_inv s" "layout_inv s" "schedule_pre s" "length (drops s) = columns s"
  using assms by (simp_all add: rain_inv_def schedule_inv_def schedule_pre_def layout_inv_def)

lemma resize_render_inv:
  "painting_inv s \<Longrightarrow> length (drops s) = columns s \<Longrightarrow> schedule_pre s \<Longrightarrow> rain_inv (render (resize s))"
  by (rule render_inv) (simp_all add: resize_inv, simp add: schedule_pre_def resize_schedule)

lemma on_resize_inv: "rain_inv s \<Longrightarrow> rain_inv (on_resize w h dpr s)"
  by (cases "timer s")
    (auto simp: on_resize_def Let_def clearTimeout_def setTimeout_def rain_inv_def schedule_inv_def)

lemma on_timeout_inv: "rain_inv s \<Longrightarrow> t \<in> set (timeouts s) \<Longrightarrow> rain_inv (on_timeout t s)"
  unfolding on_timeout_def
  by (rule resize_render_inv) (auto simp: rain_invD, auto simp: rain_inv_def schedule_inv_def schedule_pre_def)

lemma on_visibilitychange_inv:
  assumes "rain_inv s"
  shows "rain_inv (on_visibilitychange h s)"
proof (cases h)
  case True
  with assms show ?thesis
    by (auto simp: on_visibilitychange_def Let_def stop_def cancelAnimationFrame_def rain_inv_def schedule_inv_def
        split: option.splits)
next
  case False
  have "rain_inv (render (s\<lparr>hidden := h\<rparr>))"
    using assms by (intro render_inv) (simp_all add: rain_inv_def schedule_inv_def schedule_pre_def)
  with False show ?thesis by (simp add: on_visibilitychange_def)
qed

lemma set_motion_inv: "rain_inv s \<Longrightarrow> rain_inv (set_motion m s)"
  by (auto simp: set_motion_def rain_inv_def schedule_inv_def split: option.splits)

lemma on_motionchange_inv: "rain_inv s \<Longrightarrow> rain_inv (on_motionchange s)"
  unfolding on_motionchange_def
  by (rule render_inv) (simp_all add: rain_inv_def schedule_inv_def schedule_pre_def)

lemma on_animation_frame_inv:
  assumes "rain_inv s"
  shows "rain_inv (on_animation_frame now s)"
proof (cases "rafId s")
  case (Some h)
  with assms have "frames s = [h]" "matchMedia s \<noteq> Some (True, True) \<or> motion_event s"
    by (auto simp: rain_inv_def schedule_inv_def)
  moreover then have "rain_inv (loop now (s\<lparr>frames := []\<rparr>))"
    using assms by (intro loop_inv) (simp_all add: rain_inv_def schedule_inv_def)
  ultimately show ?thesis by (simp add: on_animation_frame_def run_frame_def)
qed (use assms in \<open>auto simp: on_animation_frame_def rain_inv_def schedule_inv_def\<close>)

lemma rain_inv_step: "rain_inv s \<Longrightarrow> rain_step s t \<Longrightarrow> rain_inv t"
  by (erule rain_step.cases)
    (auto intro: on_resize_inv on_timeout_inv on_visibilitychange_inv set_motion_inv on_motionchange_inv on_animation_frame_inv)

lemma rain_inv_start: "rain_start s \<Longrightarrow> rain_inv s"
  by (auto simp: rain_start_def rain_main_def page_load_def browser.defs rain.defs split: if_splits
      intro!: resize_render_inv)
    (auto simp: painting_inv_def random_ok_def history_ok_def heads_ok_def schedule_pre_def)

interpretation rain: transition_system rain_start rain_step rain_inv
  by unfold_locales (fact rain_inv_start, fact rain_inv_step)

subsection \<open>A page for the examples\<close>

definition demo_page :: browser where
  "demo_page = \<lparr>has_2d = True, innerWidth = 10, innerHeight = 40, devicePixelRatio = None,
     matchMedia = Some (False, True), motion_event = False, hidden = False, random = (\<lambda>_. 1 / 2), randoms_used = 0,
     next_handle = 1, frames = [], timeouts = [], body_children = []\<rparr>"

lemma demo_page_load: "page_load demo_page"
  by (simp add: page_load_def demo_page_def)

lemma demo_start: "rain_main demo_page = Some s \<Longrightarrow> rain_start s"
  using demo_page_load by (auto simp: rain_start_def)

lemma demo_main: "rain_main demo_page = Some (the (rain_main demo_page))"
  by (simp add: rain_main_def demo_page_def)

lemma demo_floor: "\<lceil>10 / 16 :: rat\<rceil> = 1" "\<lceil>5 / 8 :: rat\<rceil> = 1" "\<lfloor>40 / 32 :: rat\<rfloor> = 1" "\<lfloor>69 / 2 :: rat\<rfloor> = 34" "\<lfloor>5 / 4 :: rat\<rfloor> = 1"
  by (simp_all add: ceiling_unique floor_unique)

lemma demo_state: "the (rain_main demo_page) = \<lparr>has_2d = True, innerWidth = 10, innerHeight = 40,
     devicePixelRatio = None, matchMedia = Some (False, True), motion_event = False, hidden = False, random = (\<lambda>_. 1 / 2),
     randoms_used = 1, next_handle = 2, frames = [1], timeouts = [], body_children = [''matrix-bg''],
     canvas_width = 10, canvas_height = 40, fillStyle = ''#000'', globalAlpha = 1, font = FONT,
     textBaseline = ''top'', transform = 1, painted = [Cleared, Cleared, Rect ''#000'' 0 0 10 40],
     width = 10, height = 40, columns = 1, drops = [1], last_glyph = [None], timer = None,
     rafId = Some 1, lastFrame = 0\<rparr>"
  by (simp add: rain_main_def demo_page_def render_def isReduced_def start_def requestAnimationFrame_def
      resize_def Let_def reset_context_def fillRect_def COL_WIDTH_def FONT_SIZE_def new_column_def math_random_def
      browser.defs rain.defs demo_floor)

subsection \<open>Properties\<close>

text \<open>C37: in every order of events at most one frame callback and at most one resize timeout are pending,
  and \<open>rafId\<close> names the pending frame callback exactly. No frame callback is pending while reduced motion
  is in force, provided that the media query accepts listeners and the \<open>change\<close> event of the setting has
  been dispatched; a resize timeout may be.\<close>
theorem rain_schedule_safe:
  assumes "rain_start s" "reaches rain_step s t"
  shows "frames t = (case rafId t of None \<Rightarrow> [] | Some h \<Rightarrow> [h]) \<and> length (timeouts t) \<le> 1 \<and>
    (matchMedia t = Some (True, True) \<and> \<not> motion_event t \<longrightarrow> frames t = [])"
  using rain.inv_reachable [OF assms] by (auto simp: rain_inv_def schedule_inv_def)

theorem rain_schedule_safe_witness:
  "\<exists>s t. rain_start s \<and> frames s = [1] \<and> reaches rain_step s t \<and> matchMedia t = Some (True, True) \<and> \<not> motion_event t \<and>
    frames t = [] \<and> length (timeouts t) = 1"
proof (intro exI conjI)
  let ?s = "the (rain_main demo_page)"
  let ?u = "on_resize 20 40 None (set_motion True ?s)" let ?t = "on_motionchange ?u"
  show s: "rain_start ?s" by (rule demo_start [OF demo_main])
  show "frames ?s = [1]" by (simp add: demo_state)
  have u: "reaches rain_step ?s ?u" by (blast intro: reaches.intros resize_event motion_setting)
  have e: "matchMedia ?u = Some (True, True)" "motion_event ?u" "timeouts ?u = [2]"
    by (simp_all add: demo_state set_motion_def on_resize_def clearTimeout_def setTimeout_def)
  then show r: "reaches rain_step ?s ?t" using reaches_step [OF u] motionchange by blast
  show m: "matchMedia ?t = Some (True, True)" "\<not> motion_event ?t" and l: "length (timeouts ?t) = 1"
    using e drawStatic_untouched by (simp_all add: on_motionchange_def render_def isReduced_def untouched_def
        stop_def cancelAnimationFrame_def split: option.splits)
  show "frames ?t = []" using rain_schedule_safe [OF s r] m by blast
qed

text \<open>C38: every glyph ever painted is one of \<open>GLYPHS\<close> with an opacity in \<open>(0, 1]\<close>, and an opaque glyph in
  the body colour is only painted over the same glyph painted earlier as a head at the same place.\<close>
theorem rain_trail_safe:
  assumes "rain_start s" "reaches rain_step s t"
    and "painted t = before @ Text f c a g x y # after"
  shows "0 < a \<and> a \<le> 1 \<and> (\<exists>k \<in> set GLYPHS. g = [k]) \<and>
    (c = COLOR \<and> a = 1 \<longrightarrow> Text f HEAD_COLOR 1 g x y \<in> set before)"
proof -
  have "history_ok (painted t)"
    using rain.inv_reachable [OF assms(1,2)] by (simp add: rain_inv_def painting_inv_def)
  then have "paint_ok before (Text f c a g x y)"
    unfolding history_ok_def assms(3) by (elim allE [of _ "length before"]) simp
  then show ?thesis by (auto simp: paint_ok_def)
qed

lemmas demo_frame_simps = on_animation_frame_def run_frame_def loop_def requestAnimationFrame_def
  frameInterval_def SMALL_WIDTH_def FRAME_MS_SMALL_def draw_def Let_def fillRect_def draw_column_def
  glyph_def math_random_def GLYPHS_length charAt_def fillText_def COL_WIDTH_def FONT_SIZE_def demo_floor

lemma demo_glyph: "GLYPHS ! 34 = 0xFF88"
  by (simp add: GLYPHS_def nth_append)

lemma demo_frame:
  "on_animation_frame 200 (the (rain_main demo_page)) = (the (rain_main demo_page))\<lparr>randoms_used := 2, next_handle := 3,
     frames := [2], fillStyle := HEAD_COLOR, painted := [Cleared, Cleared, Rect ''#000'' 0 0 10 40, Rect VEIL 0 0 10 40,
       Text FONT HEAD_COLOR 1 [0xFF88] 0 16], drops := [2], last_glyph := [Some [0xFF88]], rafId := Some 2, lastFrame := 200\<rparr>"
  by (simp add: demo_state demo_frame_simps demo_glyph)

lemma demo_frames:
  "painted (on_animation_frame 400 (on_animation_frame 200 (the (rain_main demo_page)))) =
    [Cleared, Cleared, Rect ''#000'' 0 0 10 40, Rect VEIL 0 0 10 40, Text FONT HEAD_COLOR 1 [0xFF88] 0 16, Rect VEIL 0 0 10 40] @
    Text FONT COLOR 1 [0xFF88] 0 16 # [Text FONT HEAD_COLOR 1 [0xFF88] 0 32]"
  by (simp add: demo_frame demo_state demo_frame_simps demo_glyph)

theorem rain_trail_safe_witness:
  "\<exists>s t before after. rain_start s \<and> reaches rain_step s t \<and> painted t = before @ Text FONT COLOR 1 [0xFF88] 0 16 # after \<and>
    0xFF88 \<in> set GLYPHS \<and> Text FONT HEAD_COLOR 1 [0xFF88] 0 16 \<in> set before"
proof -
  let ?s = "the (rain_main demo_page)"
  have s: "rain_start ?s" by (rule demo_start [OF demo_main])
  have r: "reaches rain_step ?s (on_animation_frame 400 (on_animation_frame 200 ?s))"
    by (blast intro: reaches.intros animation_frame)
  show ?thesis using rain_trail_safe [OF s r demo_frames] s r demo_frames by blast
qed

text \<open>After every event the two arrays have one entry per column and the columns cover the measured
  width with less than one column to spare.\<close>
theorem rain_columns_cover:
  assumes "rain_start s" "reaches rain_step s t"
  shows "length (drops t) = columns t \<and> length (last_glyph t) = columns t \<and> (\<forall>d \<in> set (drops t). 0 \<le> d) \<and>
    int (width t) \<le> int (columns t) * COL_WIDTH \<and> int (columns t) * COL_WIDTH < int (width t) + COL_WIDTH"
  using rain.inv_reachable [OF assms] by (simp add: rain_inv_def layout_inv_def painting_inv_def heads_ok_def)

text \<open>A resize timeout that fires while the tab is hidden starts the animation again, although the
  script's header says that it pauses on hidden tabs.\<close>
lemma hidden_tab_restarts:
  "\<exists>s t. rain_start s \<and> reaches rain_step s t \<and> hidden t \<and> frames t \<noteq> []"
proof (intro exI conjI)
  let ?s = "the (rain_main demo_page)"
  let ?u = "on_resize 10 40 None (on_visibilitychange True ?s)"
  let ?t = "on_timeout (the (timer ?u)) ?u"
  show "rain_start ?s" by (rule demo_start [OF demo_main])
  have u: "timeouts ?u = [the (timer ?u)]" "hidden ?u" "matchMedia ?u = Some (False, True)" "rafId ?u = None"
    by (simp_all add: demo_state on_visibilitychange_def stop_def cancelAnimationFrame_def on_resize_def
        clearTimeout_def setTimeout_def)
  have "reaches rain_step ?s ?u" by (blast intro: reaches.intros resize_event visibilitychange)
  then show "reaches rain_step ?s ?t" by (rule reaches_step) (rule timeout, simp add: u)
  show "hidden ?t" "frames ?t \<noteq> []"
    using u by (simp_all add: on_timeout_def render_def isReduced_def start_def resize_schedule
        requestAnimationFrame_def)
qed

end
