(* ===== verification/Site_Page.thy ===== *)
theory Site_Page
  imports Hidering_Prelude
begin

section \<open>Scroll reveal and mobile navigation (\<open>docs/site.js\<close>)\<close>

text \<open>
  Page elements are numbers. \<open>observed\<close> are the targets the \<open>IntersectionObserver\<close> watches,
  \<open>pending\<close> the elements whose reveal timeout has been set, with its delay in milliseconds. The
  callbacks run in any order.
\<close>

type_synonym element = nat

record page =
  reveals :: "element list"
  has_observer :: bool
  has_toggle :: bool
  has_links :: bool
  visible :: "element list"
  observed :: "element list"
  pending :: "(element \<times> nat) list"
  links_open :: bool
  listening :: bool

definition classList_add_visible :: "element \<Rightarrow> page \<Rightarrow> page" where
  "classList_add_visible e p = (if e \<in> set (visible p) then p else p\<lparr>visible := visible p @ [e]\<rparr>)"

definition observe :: "element \<Rightarrow> page \<Rightarrow> page" where
  "observe e p = (if e \<in> set (observed p) then p else p\<lparr>observed := observed p @ [e]\<rparr>)"

definition unobserve :: "element \<Rightarrow> page \<Rightarrow> page" where
  "unobserve e p = p\<lparr>observed := removeAll e (observed p)\<rparr>"

text \<open>The observer's callback on its entries, numbered from \<open>i\<close>.\<close>

fun on_entries :: "nat \<Rightarrow> (element \<times> bool) list \<Rightarrow> page \<Rightarrow> page" where
  "on_entries i [] p = p"
| "on_entries i ((e, isIntersecting) # entries) p =
     on_entries (i + 1) entries
       (if isIntersecting then unobserve e (p\<lparr>pending := pending p @ [(e, i * 70)]\<rparr>) else p)"

definition site_main :: "page \<Rightarrow> page" where
  "site_main p =
     (let p = (if has_observer p \<and> reveals p \<noteq> [] then fold observe (reveals p) p
               else fold classList_add_visible (reveals p) p)
      in if has_toggle p \<and> has_links p then p\<lparr>listening := True\<rparr> else p)"

definition on_intersection :: "(element \<times> bool) list \<Rightarrow> page \<Rightarrow> page" where
  "on_intersection entries p = on_entries 0 entries p"

definition on_reveal_timeout :: "element \<times> nat \<Rightarrow> page \<Rightarrow> page" where
  "on_reveal_timeout t p = classList_add_visible (fst t) (p\<lparr>pending := remove1 t (pending p)\<rparr>)"

definition on_toggle_click :: "page \<Rightarrow> page" where
  "on_toggle_click p = (if listening p then p\<lparr>links_open := \<not> links_open p\<rparr> else p)"

definition on_links_click :: "string \<Rightarrow> page \<Rightarrow> page" where
  "on_links_click tagName p = (if listening p \<and> tagName = ''A'' then p\<lparr>links_open := False\<rparr> else p)"

inductive page_step :: "page \<Rightarrow> page \<Rightarrow> bool" where
  intersection: "page_step p (on_intersection entries p)"
| reveal_timeout: "t \<in> set (pending p) \<Longrightarrow> page_step p (on_reveal_timeout t p)"
| toggle_click: "page_step p (on_toggle_click p)"
| links_click: "page_step p (on_links_click tagName p)"

definition page_start :: "page \<Rightarrow> bool" where
  "page_start p \<longleftrightarrow> (\<exists>q. pending q = [] \<and> \<not> listening q \<and> \<not> links_open q \<and> p = site_main q)"

subsection \<open>No element is lost\<close>

definition covered :: "page \<Rightarrow> element set" where
  "covered p = set (visible p) \<union> set (observed p) \<union> fst ` set (pending p)"

definition page_inv :: "page \<Rightarrow> bool" where
  "page_inv p \<longleftrightarrow> set (reveals p) \<subseteq> covered p \<and>
     (links_open p \<longrightarrow> has_toggle p \<and> has_links p) \<and> (listening p \<longrightarrow> has_toggle p \<and> has_links p)"

lemma fold_observe:
  "set (observed (fold observe es p)) = set (observed p) \<union> set es"
  "reveals (fold observe es p) = reveals p" "has_toggle (fold observe es p) = has_toggle p"
  "has_links (fold observe es p) = has_links p" "links_open (fold observe es p) = links_open p"
  "listening (fold observe es p) = listening p"
  by (induction es arbitrary: p) (auto simp: observe_def)

lemma fold_visible:
  "set (visible (fold classList_add_visible es p)) = set (visible p) \<union> set es"
  "reveals (fold classList_add_visible es p) = reveals p"
  "has_toggle (fold classList_add_visible es p) = has_toggle p"
  "has_links (fold classList_add_visible es p) = has_links p"
  "links_open (fold classList_add_visible es p) = links_open p"
  "listening (fold classList_add_visible es p) = listening p"
  by (induction es arbitrary: p) (auto simp: classList_add_visible_def)

lemma page_inv_start: "page_start p \<Longrightarrow> page_inv p"
  by (auto simp: page_start_def site_main_def page_inv_def covered_def Let_def fold_observe fold_visible)

lemma on_entries_covered:
  "covered p \<subseteq> covered (on_entries i entries p)" "reveals (on_entries i entries p) = reveals p"
  "has_toggle (on_entries i entries p) = has_toggle p" "has_links (on_entries i entries p) = has_links p"
  "links_open (on_entries i entries p) = links_open p" "listening (on_entries i entries p) = listening p"
proof (induction i entries p rule: on_entries.induct)
  case (2 i e b entries p)
  have "covered p \<subseteq> covered (if b then unobserve e (p\<lparr>pending := pending p @ [(e, i * 70)]\<rparr>) else p)"
    by (auto simp: covered_def unobserve_def)
  with 2 show "covered p \<subseteq> covered (on_entries i ((e, b) # entries) p)" by simp
qed (simp_all add: unobserve_def)

lemma on_reveal_timeout_covered:
  "covered p \<subseteq> covered (on_reveal_timeout t p)" "reveals (on_reveal_timeout t p) = reveals p"
  "has_toggle (on_reveal_timeout t p) = has_toggle p" "has_links (on_reveal_timeout t p) = has_links p"
  "links_open (on_reveal_timeout t p) = links_open p" "listening (on_reveal_timeout t p) = listening p"
proof -
  have "set (pending p) \<subseteq> insert t (set (remove1 t (pending p)))"
    using in_set_remove1 by fastforce
  then have "fst ` set (pending p) \<subseteq> insert (fst t) (fst ` set (remove1 t (pending p)))" by blast
  then show "covered p \<subseteq> covered (on_reveal_timeout t p)"
    by (cases "fst t \<in> set (visible p)")
      (auto simp: covered_def on_reveal_timeout_def classList_add_visible_def subset_iff)
qed (simp_all add: on_reveal_timeout_def classList_add_visible_def)

lemma click_inv:
  "page_inv p \<Longrightarrow> page_inv (on_toggle_click p)" "page_inv p \<Longrightarrow> page_inv (on_links_click tagName p)"
  by (simp_all add: page_inv_def covered_def on_toggle_click_def on_links_click_def)

lemma covered_inv:
  "page_inv p \<Longrightarrow> page_inv (on_intersection entries p)" "page_inv p \<Longrightarrow> page_inv (on_reveal_timeout t p)"
  using on_entries_covered(1) [of p 0 entries] on_reveal_timeout_covered(1) [of p t]
  by (simp_all add: page_inv_def on_intersection_def on_entries_covered(2-) on_reveal_timeout_covered(2-)) blast+

lemma page_inv_step: "page_inv p \<Longrightarrow> page_step p q \<Longrightarrow> page_inv q"
  by (erule page_step.cases) (simp_all add: click_inv covered_inv)

interpretation page: transition_system page_start page_step page_inv
  by unfold_locales (fact page_inv_start, fact page_inv_step)

text \<open>C39: at every moment each element marked for reveal is visible, still observed, or waiting for its
  reveal timeout: no order of callbacks leaves one invisible for good. Once nothing is observed or
  pending, all of them are visible.\<close>
theorem reveal_never_lost:
  assumes "page_start p" "reaches page_step p q" "e \<in> set (reveals q)"
  shows "e \<in> set (visible q) \<or> e \<in> set (observed q) \<or> e \<in> fst ` set (pending q)"
  using page.inv_reachable [OF assms(1,2)] assms(3) by (auto simp: page_inv_def covered_def)

definition demo_page_two :: page where
  "demo_page_two = \<lparr>reveals = [1, 2], has_observer = True, has_toggle = True, has_links = True, visible = [],
     observed = [], pending = [], links_open = False, listening = False\<rparr>"

theorem reveal_never_lost_witness:
  "let q = on_intersection [(1, True), (2, False)] (site_main demo_page_two)
   in observed q = [2] \<and> pending q = [(1, 0)] \<and>
      (1 \<in> set (visible q) \<or> 1 \<in> set (observed q) \<or> 1 \<in> fst ` set (pending q))"
proof -
  let ?q = "on_intersection [(1, True), (2, False)] (site_main demo_page_two)"
  have "page_start (site_main demo_page_two)" unfolding page_start_def by (intro exI [of _ demo_page_two]) (simp add: demo_page_two_def)
  moreover have "reaches page_step (site_main demo_page_two) ?q" by (blast intro: reaches.intros intersection)
  moreover have "1 \<in> set (reveals ?q)" by code_simp
  ultimately have "1 \<in> set (visible ?q) \<or> 1 \<in> set (observed ?q) \<or> 1 \<in> fst ` set (pending ?q)"
    by (rule reveal_never_lost)
  moreover have "observed ?q = [2]" "pending ?q = [(1, 0)]" by code_simp+
  ultimately show ?thesis by (simp add: Let_def)
qed

end
