(* ===== verification/Spec2Isabelle.thy ===== *)
theory Spec2Isabelle
  imports Difficulty Emission Pruning Hard_Fork_Schedule Base58 Hmac_Keccak Merge_Mining Checkpoints Block_Queue
    Rolling_Median Block_Weight Fees Addresses English_Words Matrix_Rain Site_Page
begin

text \<open>
  \<^bold>\<open>Verification of HIDERING.\<close> The repository holds a CryptoNote node in C++ (\<open>src/\<close>, with the
  helper library \<open>contrib/epee/\<close>) and the project's web site (\<open>docs/\<close>). The theories model the
  consensus arithmetic of the node, the encodings and hashes it rests on, the stateful components
  that need no network or database of their own (hard forks, weight limits, checkpoints, the download
  queue), and the two scripts of the site. Paths below are relative to the repository.

  \<^bold>\<open>Conventions.\<close> An unsigned integer of the source is a \<open>word\<close> of its width, so that wrapping is
  that of the machine; a byte string is a list of 8-bit words; a C++ object is a record that its
  operations take and return. A failed assertion, a thrown exception and a returned \<open>false\<close> that
  leaves no result are \<open>None\<close>. Loops are recursive functions that terminate; two loops of
  \<open>Rolling_Median\<close> are partial functions, where \<open>None\<close> is a loop that does not end, and are shown to
  end. The only loop with fuel is the one that writes a difficulty in hexadecimal: it has 32 rounds, one
  for each digit of 128 bits, and is shown to write the whole value.
  Clocks, random bytes, files, DNS answers, SHA-256, the test of curve points, Boost's integer
  parser and CRC, the locale's lower-case table and the memory layout of one C++ object are arguments.

  \<^bold>\<open>Theories and sources.\<close>
  \<^item> \<open>Hidering_Prelude\<close>: lemmas on words, byte strings, positional digits and block-wise maps, and
    the interfaces: \<open>prefix_codec\<close> (a code whose reader returns the rest of the input),
    \<open>transition_system\<close> (an invariant of a step relation), \<open>incremental\<close> (a hash fed in chunks) and
    \<open>block_code\<close> (a code that works on blocks of two fixed sizes).
  \<^item> \<open>Varint\<close> (\<open>src/common/varint.h\<close>): \<open>write_varint\<close>, \<open>read_varint\<close>. The reader inverts the writer in
    front of any rest, and each value has one accepted form (the reader, like the source, also stops without an error
    at an input that ends inside an integer).
  \<^item> \<open>Int_Util\<close>, \<open>Misc_Language\<close> (\<open>contrib/epee/include/int-util.h\<close>, \<open>misc_language.h\<close>): 128-bit
    products and quotients, byte swaps, the median.
  \<^item> \<open>Difficulty\<close> (\<open>src/cryptonote_basic/difficulty.cpp\<close>): the proof-of-work test compares the full
    product of hash and difficulty with \<open>2 ^ 256\<close>; the next difficulty is the rounded-up quotient over
    the trimmed window; the 64-bit and 128-bit routines agree where both apply.
  \<^item> \<open>Emission\<close> (\<open>src/cryptonote_basic/cryptonote_basic_impl.cpp\<close>,
    \<open>src/cryptonote_core/blockchain.cpp\<close>): the block reward, its penalty, the check of the miner
    transaction and the generated coins. No chain of accepted blocks generates more than the supply.
  \<^item> \<open>Pruning\<close> (\<open>src/common/pruning.cpp\<close>): seeds, stripes, and the next pruned and unpruned heights.
    The next unpruned height is the least one kept; the next pruned height skips only kept blocks.
  \<^item> \<open>Hard_Fork\<close>, \<open>Hard_Fork_Schedule\<close> (\<open>src/cryptonote_basic/hardfork.cpp\<close>,
    \<open>src/hardforks/hardforks.cpp\<close>): the voting window and the fork index; on the main network's table
    every reachable state gives the scheduled versions, through adding, popping and reorganising.
  \<^item> \<open>Keccak\<close> (\<open>src/crypto/keccak.c\<close>, \<open>hash.c\<close>): the unrolled permutation equals that of FIPS 202, and
    the streaming context gives the one-shot hash. \<open>Hmac_Keccak\<close> (\<open>src/crypto/hmac-keccak.c\<close>): the
    keyed hash is that of RFC 2104.
  \<^item> \<open>Tree_Hash\<close> (\<open>src/crypto/tree-hash.c\<close>): the in-place loop computes a Merkle root, branches
    verify, and at the position of a leaf nothing else verifies unless the hash collides. \<open>Merge_Mining\<close>
    (\<open>src/cryptonote_basic/merge_mining.cpp\<close>): slots, paths and the packed depth.
  \<^item> \<open>Base58\<close> (\<open>src/common/base58.cpp\<close>): encoding and decoding are inverse bijections between byte
    strings and accepted texts; the same for tagged addresses with a payload. It rests on \<open>Varint\<close> and
    \<open>Keccak\<close>.
  \<^item> \<open>Addresses\<close> (\<open>src/cryptonote_basic/cryptonote_basic_impl.cpp\<close>, \<open>src/cryptonote_config.h\<close>): the texts of
    standard, integrated, sub- and post-quantum addresses. Reading inverts writing for all kinds, an
    address has one text and one network, and the first letters and the length are as intended; the old
    hexadecimal format, which has no tag, is read on every network without a test of its keys. It rests on \<open>Base58\<close> and, for the old format, on \<open>Hex\<close>.
  \<^item> \<open>Hex\<close> (\<open>contrib/epee/src/hex.cpp\<close>): the reader accepts what the writer gives, up to letter case.
  \<^item> \<open>Checkpoints\<close> (\<open>src/checkpoints/checkpoints.cpp\<close>): a rejected block stays rejected however
    checkpoints are added or loaded; the built-in anchors of the main network; the rule for
    alternative blocks. It rests on \<open>Hex\<close>.
  \<^item> \<open>Block_Queue\<close> (\<open>src/cryptonote_protocol/block_queue.cpp\<close>): the spans of blocks to download. Every
    history of calls keeps spans, requested and downloaded hashes consistent; the next needed height
    is the least uncovered one; a reserved span respects its limits and, by \<open>Pruning\<close>, the blocks the
    peer keeps.
  \<^item> \<open>Rolling_Median\<close> (\<open>contrib/epee/include/rolling_median.h\<close>): the median of the last \<open>n\<close> values in two
    heaps around it. Every insertion returns, and the result is the sorted median of the window; the
    proof is done for one heap and carried to the other by a mirror image.
  \<^item> \<open>Block_Weight\<close> (\<open>src/cryptonote_core/blockchain.cpp\<close>, \<open>src/blockchain_db/lmdb/db_lmdb.cpp\<close>): long-term
    weights and the weight limit of the next block. The median cached in a \<open>Rolling_Median\<close> is exact
    in every state reached by connecting, popping and resetting, where block hashes identify chains
    (\<open>block_tree\<close>); long-term weights and limits stay within their factors of it.
  \<^item> \<open>Fees\<close> (\<open>src/cryptonote_core/blockchain.cpp\<close>, \<open>src/cryptonote_basic/cryptonote_format_utils.cpp\<close>): the
    fee check, the fee estimate for wallets and the rounding it uses. The estimate is enough for the
    check, and fails exactly from a hundred grace blocks on; rounding is to the least number with the digits asked for. It rests on \<open>Emission\<close>,
    \<open>Int_Util\<close> and \<open>Block_Weight\<close>.
  \<^item> \<open>Mnemonics\<close> (\<open>src/mnemonics/electrum-words.cpp\<close>, \<open>language_base.h\<close>, \<open>src/common/utf8.h\<close>): secrets as
    seed words. Reading inverts writing for every populated language, and the three words of a value
    are its only accepted triple. \<open>English_Words\<close> (\<open>src/mnemonics/english.h\<close>): the English list, which
    is populated without an exception.
  \<^item> \<open>Matrix_Rain\<close> (\<open>docs/matrix.js\<close>) and \<open>Site_Page\<close> (\<open>docs/site.js\<close>): the page scripts as step relations
    over the browser events, with their safety invariants.

  \<^bold>\<open>Bounds.\<close> Hypotheses such as \<open>length input < 2 ^ 64\<close> say that a buffer fits the address space; the
  tree hash has the source's own limit of \<open>2 ^ 28\<close> hashes; heights are assumed not to wrap only where
  a theorem says so; the products of the weight limits and fees are exact for medians below \<open>2 ^ 57\<close> and
  \<open>2 ^ 31\<close>.

  \<^bold>\<open>Not modelled.\<close> The curve arithmetic, ring signatures, post-quantum signatures and proof-of-work
  hashes (large or external primitives); transaction and block serialization, which C++ templates
  generate; the block database, networking, remote interface, wallet and tools, which are mostly
  input and output around the above. Of the seed words, the lists of languages other than English. Of the block queue, the two queries that average download rates
  in floating point. The C++ code is modelled for a little-endian target.
\<close>

end
